(* ===== verification/Bridge_Prelude.thy ===== *)
theory Bridge_Prelude
  imports Main "HOL-Library.Word"
begin

text \<open>
  Shared vocabulary of the development: the Go integer types of the bridge as words, Go
  strings and byte slices, the errors of the program as values, and the generic lemmas on
  words, lists and sums that the component theories use.

  A Go \<open>string\<close> is an immutable byte sequence.  A HOL \<open>char\<close> is exactly one byte, so Go
  strings are HOL strings and \<open>length\<close> counts what Go's \<open>len\<close> counts.  A \<open>[]byte\<close> is a
  \<open>byte list\<close>; where the program distinguishes the nil slice from an empty one it is a
  \<open>byte list option\<close> with \<open>None\<close> for nil.
\<close>

unbundle bit_operations_syntax

type_synonym byte = "8 word"
type_synonym u16 = "16 word"
type_synonym u32 = "32 word"
type_synonym rune = nat

text \<open>
  Errors, panics and non-termination as values.  \<open>ConnError\<close> is any error of the network
  connection that is not EOF (deadline exceeded, connection reset, ...), \<open>ErrorString\<close> an
  \<open>errors.New\<close> or \<open>fmt.Errorf\<close> with its message, \<open>RetCode\<close> a \<open>pkg.ReturnCode\<close> used as
  an error, \<open>Panic\<close> a Go run-time panic and \<open>Diverges\<close> a loop that never ends.
\<close>

datatype go_error =
    EOF
  | ErrUnexpectedEOF
  | ConnError string
  | ErrorString string
  | RetCode byte
  | Panic string
  | Diverges

named_theorems go_bits \<open>facts on the bit masks and flags of the MQTT headers\<close>

section \<open>Strings and byte slices\<close>

definition byte_of_char :: "char \<Rightarrow> byte" where
  "byte_of_char c = word_of_nat (of_char c)"

definition char_of_byte :: "byte \<Rightarrow> char" where
  "char_of_byte b = char_of (unat b)"

definition bytes_of :: "string \<Rightarrow> byte list" where
  "bytes_of s = map byte_of_char s"

definition string_of :: "byte list \<Rightarrow> string" where
  "string_of bs = map char_of_byte bs"

lemma char_of_byte_of_char [simp]: "char_of_byte (byte_of_char c) = c"
proof -
  have "unat (word_of_nat (of_char c) :: byte) = of_char c"
    by (simp add: unat_of_nat)
  then show ?thesis by (simp add: char_of_byte_def byte_of_char_def)
qed

lemma byte_of_char_of_byte [simp]: "byte_of_char (char_of_byte b) = b"
proof -
  have "unat b < 256" using unsigned_less [of b, where ?'a = nat] by simp
  then show ?thesis by (simp add: char_of_byte_def byte_of_char_def)
qed

lemma string_of_bytes_of [simp]: "string_of (bytes_of s) = s"
  by (simp add: string_of_def bytes_of_def comp_def)

lemma bytes_of_string_of [simp]: "bytes_of (string_of bs) = bs"
  by (simp add: string_of_def bytes_of_def comp_def)

lemma string_of_Nil [simp]: "string_of [] = []"
  by (simp add: string_of_def)

lemma bytes_of_Nil [simp]: "bytes_of [] = []"
  by (simp add: bytes_of_def)

lemma bytes_of_Cons: "bytes_of (c # s) = byte_of_char c # bytes_of s"
  by (simp add: bytes_of_def)

lemma bytes_of_append: "bytes_of (s @ t) = bytes_of s @ bytes_of t"
  by (simp add: bytes_of_def)

lemma length_bytes_of [simp]: "length (bytes_of s) = length s"
  by (simp add: bytes_of_def)

lemma length_string_of [simp]: "length (string_of bs) = length bs"
  by (simp add: string_of_def)

lemma bytes_of_eq_iff [simp]: "bytes_of s = bytes_of t \<longleftrightarrow> s = t"
  by (metis string_of_bytes_of)

text \<open>The nil slice and the contents of a slice that may be nil.\<close>

definition slice_bytes :: "byte list option \<Rightarrow> byte list" where
  "slice_bytes sl = (case sl of None \<Rightarrow> [] | Some bs \<Rightarrow> bs)"

lemma slice_bytes_simps [simp]:
  "slice_bytes None = []" "slice_bytes (Some bs) = bs"
  by (simp_all add: slice_bytes_def)

lemma slice_bytes_Nil_iff: "slice_bytes sl = [] \<longleftrightarrow> sl = None \<or> sl = Some []"
  by (cases sl) auto

section \<open>Words\<close>

lemma unat_byte_less [simp]: "unat (b :: byte) < 256"
  using unsigned_less [of b, where ?'a = nat] by simp

lemma unat_u16_less [simp]: "unat (v :: u16) < 65536"
  using unsigned_less [of v, where ?'a = nat] by simp

lemma unat_of_nat_u16: "n < 65536 \<Longrightarrow> unat (word_of_nat n :: u16) = n"
  by (simp add: unat_of_nat)

text \<open>The two bytes of a 16-bit value, most significant first, and back.\<close>

definition hi_byte :: "u16 \<Rightarrow> byte" where "hi_byte v = ucast (drop_bit 8 v)"
definition lo_byte :: "u16 \<Rightarrow> byte" where "lo_byte v = ucast v"

definition big_endian16 :: "byte \<Rightarrow> byte \<Rightarrow> u16" where
  "big_endian16 hi lo = ucast lo OR push_bit 8 (ucast hi)"

lemma big_endian16_bytes [simp]: "big_endian16 (hi_byte v) (lo_byte v) = v"
  unfolding big_endian16_def hi_byte_def lo_byte_def
  by (rule bit_word_eqI) (auto simp: bit_simps)

lemma hi_byte_big_endian16 [simp]: "hi_byte (big_endian16 h l) = h"
  unfolding big_endian16_def hi_byte_def
  by (rule bit_word_eqI) (auto simp: bit_simps dest: bit_imp_le_length)

lemma lo_byte_big_endian16 [simp]: "lo_byte (big_endian16 h l) = l"
  unfolding big_endian16_def lo_byte_def
  by (rule bit_word_eqI) (auto simp: bit_simps)

lemma bit_byte_80 [go_bits]: "bit (0x80 :: byte) n \<longleftrightarrow> n = 7"
proof -
  have e: "(0x80 :: byte) = push_bit 7 1" by simp
  show ?thesis unfolding e by (auto simp: bit_simps simp del: push_bit_of_1 push_bit_numeral)
qed

section \<open>Splitting at a separator\<close>

text \<open>Go's \<open>strings.Split\<close> with a one-byte separator: always at least one field.\<close>

fun split_on :: "'a \<Rightarrow> 'a list \<Rightarrow> 'a list list" where
  "split_on c [] = [[]]"
| "split_on c (x # xs) =
     (if x = c then [] # split_on c xs
      else case split_on c xs of [] \<Rightarrow> [[x]] | f # fs \<Rightarrow> (x # f) # fs)"

fun join_with :: "'a \<Rightarrow> 'a list list \<Rightarrow> 'a list" where
  "join_with c [] = []"
| "join_with c [f] = f"
| "join_with c (f # fs) = f @ c # join_with c fs"

lemma split_on_nonempty [simp]: "split_on c xs \<noteq> []"
  by (cases xs) (auto split: list.splits)

lemma join_split_on [simp]: "join_with c (split_on c xs) = xs"
proof (induction xs)
  case (Cons x xs)
  obtain f fs where f: "split_on c xs = f # fs" by (meson neq_Nil_conv split_on_nonempty)
  with Cons show ?case by (cases fs) auto
qed simp

lemma split_on_fields: "f \<in> set (split_on c xs) \<Longrightarrow> c \<notin> set f"
  by (induction xs arbitrary: f) (auto split: list.splits if_splits)

lemma split_on_subset: "f \<in> set (split_on c xs) \<Longrightarrow> set f \<subseteq> set xs"
proof (induction xs arbitrary: f)
  case (Cons x xs)
  obtain g gs where g: "split_on c xs = g # gs" by (meson neq_Nil_conv split_on_nonempty)
  with Cons.IH have "\<forall>h \<in> set (g # gs). set h \<subseteq> set xs" by simp
  with g Cons.prems show ?case by (auto split: if_splits)
qed simp

lemma split_on_append:
  "c \<notin> set f \<Longrightarrow> split_on c (f @ c # xs) = f # split_on c xs"
  by (induction f) auto

lemma split_on_field [simp]: "c \<notin> set f \<Longrightarrow> split_on c f = [f]"
  by (induction f) auto

lemma split_join_with: "fs \<noteq> [] \<Longrightarrow> \<forall>f \<in> set fs. c \<notin> set f \<Longrightarrow> split_on c (join_with c fs) = fs"
  by (induction c fs rule: join_with.induct) (simp_all add: split_on_append)

lemma join_with_Cons: "fs \<noteq> [] \<Longrightarrow> join_with c (f # fs) = f @ c # join_with c fs"
  by (cases fs) auto

lemma join_with_append:
  "fs \<noteq> [] \<Longrightarrow> gs \<noteq> [] \<Longrightarrow> join_with c (fs @ gs) = join_with c fs @ c # join_with c gs"
  by (induction c fs rule: join_with.induct) (auto simp: join_with_Cons)

section \<open>Sums\<close>

lemma sum_case_Inr_eq_Inr [simp]:
  "(case x of Inl e \<Rightarrow> Inl e | Inr y \<Rightarrow> f y) = Inr z \<longleftrightarrow> (\<exists>y. x = Inr y \<and> f y = Inr z)"
  by (cases x) auto

end
