(* ===== verification/Wire.thy ===== *)
theory Wire
  imports Bridge_Prelude
begin

text \<open>
  The wire primitives of \<open>mqtt/reader.go\<close> and \<open>mqtt/writer.go\<close>: an MQTT reader over a
  byte source and an MQTT writer over a byte buffer, with the interface \<open>codec\<close> that the
  packet theories rely on and its interpretations.

  A reader wraps either a \<open>bytes.Reader\<close> (a slice: after its last byte it reports EOF and
  it knows its remaining length) or a connection, seen as the bytes the peer sends and the
  error that follows them.  A writer is a \<open>bytes.Buffer\<close>, seen as its contents.
\<close>

section \<open>Reader\<close>

datatype source = Slice | Conn go_error

record reader =
  rbuf :: "byte list"
  rsrc :: source

definition slice_reader :: "byte list \<Rightarrow> reader" where
  "slice_reader bs = \<lparr>rbuf = bs, rsrc = Slice\<rparr>"

lemma slice_reader_simps [simp]:
  "rbuf (slice_reader bs) = bs" "rsrc (slice_reader bs) = Slice"
  "(slice_reader bs)\<lparr>rbuf := cs\<rparr> = slice_reader cs"
  by (simp_all add: slice_reader_def)

lemma slice_reader_inject [simp]: "slice_reader bs = slice_reader cs \<longleftrightarrow> bs = cs"
  by (simp add: slice_reader_def)

definition src_err :: "reader \<Rightarrow> go_error" where
  "src_err r = (case rsrc r of Slice \<Rightarrow> EOF | Conn e \<Rightarrow> e)"

definition eof_unexpected :: "go_error \<Rightarrow> go_error" where
  "eof_unexpected e = (if e = EOF then ErrUnexpectedEOF else e)"

definition read_byte :: "reader \<Rightarrow> go_error + byte \<times> reader" where
  "read_byte r = (case rbuf r of
      [] \<Rightarrow> Inl (src_err r)
    | b # bs \<Rightarrow> Inr (b, r\<lparr>rbuf := bs\<rparr>))"

lemma read_byte_shrinks:
  "read_byte r = Inr (b, r') \<Longrightarrow> length (rbuf r') < length (rbuf r)"
  by (auto simp: read_byte_def split: list.splits)

text \<open>
  \<open>ReadVarInt\<close>: the loop carries the multiplier \<open>m\<close> and the value \<open>v\<close>; every turn
  consumes a byte, so it ends on every source.
\<close>

function read_var_int_loop :: "int \<Rightarrow> int \<Rightarrow> reader \<Rightarrow> go_error + int \<times> reader" where
  "read_var_int_loop m v r =
     (case read_byte r of
        Inl e \<Rightarrow> Inl (eof_unexpected e)
      | Inr (b, r1) \<Rightarrow>
          (let v1 = v + uint (b AND 0x7f) * m
           in if b AND 0x80 = 0 then Inr (v1, r1)
              else let m1 = m * 0x80
                   in if m1 > 0x200000 then Inl (ErrorString ''malformed compressed int'')
                      else read_var_int_loop m1 v1 r1))"
  by pat_completeness auto
termination
  by (relation "measure (\<lambda>(m, v, r). length (rbuf r))") (auto dest: read_byte_shrinks)

declare read_var_int_loop.simps [simp del]

definition read_var_int :: "reader \<Rightarrow> go_error + int \<times> reader" where
  "read_var_int r = read_var_int_loop 1 0 r"

text \<open>
  \<open>ReadExact\<close>: \<open>make([]byte, n)\<close> panics on a negative length; \<open>io.ReadFull\<close> reads nothing
  for an empty slice, and an early EOF becomes \<open>io.ErrUnexpectedEOF\<close>.
\<close>

definition read_exact :: "int \<Rightarrow> reader \<Rightarrow> go_error + byte list \<times> reader" where
  "read_exact n r =
     (if n < 0 then Inl (Panic ''makeslice: len out of range'')
      else if nat n \<le> length (rbuf r)
           then Inr (take (nat n) (rbuf r), r\<lparr>rbuf := drop (nat n) (rbuf r)\<rparr>)
      else Inl (eof_unexpected (src_err r)))"

definition read_uint16 :: "reader \<Rightarrow> go_error + u16 \<times> reader" where
  "read_uint16 r = (case read_exact 2 r of
      Inl e \<Rightarrow> Inl e
    | Inr (bs, r1) \<Rightarrow> Inr (big_endian16 (bs ! 0) (bs ! 1), r1))"

definition read_bytes :: "reader \<Rightarrow> go_error + byte list option \<times> reader" where
  "read_bytes r = (case read_uint16 r of
      Inl e \<Rightarrow> Inl e
    | Inr (l, r1) \<Rightarrow>
        if l > 0 then
          (case read_exact (uint l) r1 of
             Inl e \<Rightarrow> Inl e
           | Inr (bs, r2) \<Rightarrow> Inr (Some bs, r2))
        else Inr (None, r1))"

definition read_string :: "reader \<Rightarrow> go_error + string \<times> reader" where
  "read_string r = (case read_bytes r of
      Inl e \<Rightarrow> Inl e
    | Inr (bs, r1) \<Rightarrow> Inr (string_of (slice_bytes bs), r1))"

definition reader_len :: "reader \<Rightarrow> go_error + int" where
  "reader_len r = (case rsrc r of
      Slice \<Rightarrow> Inr (int (length (rbuf r)))
    | Conn _ \<Rightarrow> Inl (Panic ''unsupported operation: Len''))"

definition read_remaining_bytes :: "reader \<Rightarrow> go_error + byte list \<times> reader" where
  "read_remaining_bytes r = (case reader_len r of
      Inl e \<Rightarrow> Inl e
    | Inr n \<Rightarrow> read_exact n r)"

text \<open>\<open>ReadPacket\<close> returns a new reader over the packet's bytes, and the outer reader.\<close>

definition read_packet :: "int \<Rightarrow> reader \<Rightarrow> go_error + reader \<times> reader" where
  "read_packet pk_len r = (case read_exact pk_len r of
      Inl e \<Rightarrow> Inl e
    | Inr (pk, r1) \<Rightarrow> Inr (slice_reader pk, r1))"

section \<open>Writer\<close>

type_synonym writer = "byte list"

definition write_u8 :: "byte \<Rightarrow> writer \<Rightarrow> writer" where
  "write_u8 i w = w @ [i]"

definition write_u16 :: "u16 \<Rightarrow> writer \<Rightarrow> writer" where
  "write_u16 i w = write_u8 (ucast i) (write_u8 (ucast (drop_bit 8 i)) w)"

definition write_raw :: "byte list \<Rightarrow> writer \<Rightarrow> writer" where
  "write_raw bs w = w @ bs"

definition write_string :: "string \<Rightarrow> writer \<Rightarrow> writer" where
  "write_string s w =
     (let t = length s
      in fold (\<lambda>i w. write_u8 (bytes_of s ! i) w) [0..<t] (write_u16 (word_of_nat t) w))"

definition write_bytes :: "byte list \<Rightarrow> writer \<Rightarrow> writer" where
  "write_bytes bs w = (let t = length bs in write_raw bs (write_u16 (word_of_nat t) w))"

text \<open>
  \<open>WriteVarInt\<close> ends only when the shifted value reaches zero, which the arithmetic shift
  of a negative value never does; the loop is therefore a partial function.
\<close>

partial_function (option) write_var_int_loop :: "int \<Rightarrow> writer \<Rightarrow> writer option" where
  "write_var_int_loop v w =
     (if drop_bit 7 v = 0
      then Some (write_u8 (word_of_int (v AND 0x7f)) w)
      else write_var_int_loop (drop_bit 7 v)
             (write_u8 (if drop_bit 7 v > 0 then word_of_int (v AND 0x7f) OR 0x80
                        else word_of_int (v AND 0x7f)) w))"

definition write_var_int :: "int \<Rightarrow> writer \<Rightarrow> go_error + writer" where
  "write_var_int v w = (case write_var_int_loop v w of None \<Rightarrow> Inl Diverges | Some w' \<Rightarrow> Inr w')"

text \<open>The bytes that the writers append, as functions of the value alone.\<close>

definition u16_bytes :: "u16 \<Rightarrow> byte list" where
  "u16_bytes v = [hi_byte v, lo_byte v]"

definition lp_bytes :: "byte list \<Rightarrow> byte list" where
  "lp_bytes bs = u16_bytes (word_of_nat (length bs)) @ bs"

definition str_bytes :: "string \<Rightarrow> byte list" where
  "str_bytes s = lp_bytes (bytes_of s)"

fun var_int_bytes :: "nat \<Rightarrow> byte list" where
  "var_int_bytes n = (if n < 128 then [word_of_nat n]
     else (word_of_nat (n mod 128) OR 0x80) # var_int_bytes (n div 128))"

declare var_int_bytes.simps [simp del]

named_theorems writes \<open>what each writer operation appends\<close>

lemma write_u8 [writes]: "write_u8 b w = w @ [b]"
  by (simp add: write_u8_def)

lemma write_raw [writes]: "write_raw bs w = w @ bs"
  by (simp add: write_raw_def)

lemma write_u16 [writes]: "write_u16 v w = w @ u16_bytes v"
  by (simp add: write_u16_def write_u8_def u16_bytes_def hi_byte_def lo_byte_def)

lemma fold_write_u8: "fold (\<lambda>i w. w @ [bs ! i]) [0..<n] w = w @ map (\<lambda>i. bs ! i) [0..<n]"
  by (induction n) auto

lemma write_string [writes]: "write_string s w = w @ str_bytes s"
  using map_nth [of "bytes_of s"]
  by (simp add: write_string_def Let_def writes fold_write_u8 str_bytes_def lp_bytes_def)

lemma write_bytes [writes]: "write_bytes bs w = w @ lp_bytes bs"
  by (simp add: write_bytes_def Let_def writes lp_bytes_def)

lemma length_u16_bytes [simp]: "length (u16_bytes v) = 2"
  by (simp add: u16_bytes_def)

lemma length_lp_bytes [simp]: "length (lp_bytes bs) = 2 + length bs"
  by (simp add: lp_bytes_def)

lemma length_str_bytes [simp]: "length (str_bytes s) = 2 + length s"
  by (simp add: str_bytes_def)


section \<open>Variable length integers\<close>

lemma byte_and_7f [go_bits]: "(b :: byte) AND 0x7f = take_bit 7 b"
  by (simp add: take_bit_eq_mask mask_eq_exp_minus_1)

lemma byte_and_80 [go_bits]: "(b :: byte) AND 0x80 = 0 \<longleftrightarrow> \<not> bit b 7"
proof
  assume "b AND 0x80 = 0"
  then have "\<not> bit (b AND 0x80) 7" by simp
  then show "\<not> bit b 7" by (simp add: bit_and_iff)
next
  assume "\<not> bit b 7"
  then show "b AND 0x80 = 0"
    by (intro bit_word_eqI) (metis bit_0_eq bit_and_iff bit_byte_80 bot_apply bot_bool_def)
qed

lemma small_byte_bit_7 [simp]: "k < 128 \<Longrightarrow> \<not> bit (word_of_nat k :: byte) 7"
  by (simp add: bit_of_nat_iff bit_iff_odd [of k])

lemma small_byte_take_bit [simp]: "k < 128 \<Longrightarrow> uint (take_bit 7 (word_of_nat k :: byte)) = int k"
  by (simp add: unsigned_take_bit_eq unsigned_of_nat take_bit_nat_eq_self take_bit_of_nat)

lemma cont_byte [simp]:
  "bit (b OR 0x80 :: byte) 7"
  "take_bit 7 (b OR 0x80 :: byte) = take_bit 7 b"
  by (auto intro!: bit_word_eqI simp: bit_or_iff bit_take_bit_iff bit_byte_80)

lemma int_and_7f [go_bits]: "(v :: int) AND 0x7f = v mod 128"
  using take_bit_eq_mask [of 7 v] by (simp add: mask_eq_exp_minus_1 take_bit_eq_mod)

lemma write_var_int_loop_nat:
  "write_var_int_loop (int n) w = Some (w @ var_int_bytes n)"
proof (induction n arbitrary: w rule: var_int_bytes.induct)
  case (1 n)
  have byte: "(word_of_int (int n mod 128) :: byte) = word_of_nat (n mod 128)"
    by (metis of_int_of_nat_eq of_nat_mod of_nat_numeral)
  have shift: "drop_bit 7 (int n) = int (n div 128)"
    by (simp add: drop_bit_eq_div zdiv_int)
  show ?case
  proof (cases "n < 128")
    case True
    then show ?thesis
      by (simp add: write_var_int_loop.simps [of "int n"] var_int_bytes.simps [of n] shift
          int_and_7f byte write_u8)
  next
    case False
    then have "n div 128 > 0" by (simp add: div_greater_zero_iff)
    with False 1 show ?thesis
      by (simp add: write_var_int_loop.simps [of "int n"] var_int_bytes.simps [of n] shift
          int_and_7f byte write_u8)
  qed
qed

lemma write_var_int_loop_nonneg:
  assumes "write_var_int_loop v w = Some w'"
  shows "0 \<le> v"
proof (rule write_var_int_loop.raw_induct [where P = "\<lambda>v w w'. 0 \<le> v", OF _ assms])
  fix f v w w'
  assume IH: "\<And>v w w'. f v w = Some w' \<Longrightarrow> 0 \<le> v"
    and eq: "(if drop_bit 7 v = 0 then Some (write_u8 (word_of_int (v AND 0x7f)) w)
       else f (drop_bit 7 v) (write_u8 (if drop_bit 7 v > 0 then word_of_int (v AND 0x7f) OR 0x80
                        else word_of_int (v AND 0x7f)) w)) = Some w'"
  show "0 \<le> (v :: int)"
  proof (cases "drop_bit 7 v = 0")
    case True
    then show ?thesis using drop_bit_nonnegative_int_iff [of 7 v] by simp
  next
    case False
    with eq have "0 \<le> drop_bit 7 v" by (intro IH) simp
    then show ?thesis by (simp only: drop_bit_nonnegative_int_iff)
  qed
qed

lemma write_var_int [writes]: "0 \<le> v \<Longrightarrow> write_var_int v w = Inr (w @ var_int_bytes (nat v))"
  using write_var_int_loop_nat [of "nat v" w] by (simp add: write_var_int_def)

lemma write_var_int_of_nat [writes]: "write_var_int (int n) w = Inr (w @ var_int_bytes n)"
  using write_var_int [of "int n" w] by simp

lemma write_var_int_negative: "v < 0 \<Longrightarrow> write_var_int v w = Inl Diverges"
  using write_var_int_loop_nonneg [of v w]
  by (force simp: write_var_int_def split: option.splits)

lemma read_byte_Cons [simp]: "rbuf r = b # bs \<Longrightarrow> read_byte r = Inr (b, r\<lparr>rbuf := bs\<rparr>)"
  by (simp add: read_byte_def)

lemma read_var_int_loop_bytes:
  assumes "i < 4" "rbuf r = var_int_bytes n @ rest"
  shows "read_var_int_loop (128 ^ i) v r =
    (if n < 128 ^ (4 - i) then Inr (v + int n * 128 ^ i, r\<lparr>rbuf := rest\<rparr>)
     else Inl (ErrorString ''malformed compressed int''))"
  using assms
proof (induction n arbitrary: i v r rule: var_int_bytes.induct)
  case (1 n)
  have last: "(128::nat) \<le> 128 ^ (4 - i)"
    using \<open>i < 4\<close> power_increasing [of 1 "4 - i" "128::nat"] by simp
  show ?case
  proof (cases "n < 128")
    case True
    then show ?thesis using "1.prems" last
      by (simp add: read_var_int_loop.simps [of "128 ^ i"] var_int_bytes.simps [of n] go_bits)
  next
    case False
    let ?r = "r\<lparr>rbuf := var_int_bytes (n div 128) @ rest\<rparr>"
    have step: "read_var_int_loop (128 ^ i) v r =
      (if 128 ^ i * 0x80 > (0x200000 :: int) then Inl (ErrorString ''malformed compressed int'')
       else read_var_int_loop (128 ^ Suc i) (v + int (n mod 128) * 128 ^ i) ?r)"
      using "1.prems" False
      by (simp add: read_var_int_loop.simps [of "128 ^ i"] var_int_bytes.simps [of n] go_bits
          Let_def mult.commute)
    show ?thesis
    proof (cases "i = 3")
      case True
      then show ?thesis using False step by simp
    next
      case False': False
      with \<open>i < 4\<close> have i: "i \<in> {0, 1, 2}" by auto
      have rec: "read_var_int_loop (128 ^ Suc i) v' ?r =
         (if n div 128 < 128 ^ (4 - Suc i) then Inr (v' + int (n div 128) * 128 ^ Suc i, r\<lparr>rbuf := rest\<rparr>)
          else Inl (ErrorString ''malformed compressed int''))" for v'
        using "1.IH" [OF False, of "Suc i" ?r v'] False' \<open>i < 4\<close> by simp
      have "int n = int (n div 128 * 128 + n mod 128)"
        by (simp only: div_mult_mod_eq)
      then have "int n = int (n div 128) * 128 + int (n mod 128)"
        by (simp only: of_nat_add of_nat_mult of_nat_numeral)
      then have val: "int n * 128 ^ i = int (n mod 128) * 128 ^ i + int (n div 128) * 128 ^ Suc i"
        by (simp only: distrib_left distrib_right power_Suc ac_simps)
      have lim: "n div 128 < 128 ^ (4 - Suc i) \<longleftrightarrow> n < 128 ^ (4 - i)"
        using i by (elim insertE emptyE; simp add: div_less_iff_less_mult)
      have "\<not> 128 ^ i * 0x80 > (0x200000 :: int)" using i by auto
      with step have "read_var_int_loop (128 ^ i) v r =
          read_var_int_loop (128 ^ Suc i) (v + int (n mod 128) * 128 ^ i) ?r" by simp
      then show ?thesis unfolding rec lim val by (simp only: add.assoc)
    qed
  qed
qed

lemma read_var_int_bytes:
  assumes "rbuf r = var_int_bytes n @ rest"
  shows "read_var_int r = (if n \<le> 0x0FFFFFFF then Inr (int n, r\<lparr>rbuf := rest\<rparr>)
     else Inl (ErrorString ''malformed compressed int''))"
  using read_var_int_loop_bytes [of 0 r n rest 0] assms by (auto simp: read_var_int_def)

lemma read_var_int_loop_bounds:
  assumes "read_var_int_loop (128 ^ i) v r = Inr (n, r')" "i < 4" "0 \<le> v" "v < 128 ^ i"
  shows "0 \<le> n \<and> n < 128 ^ 4"
  using assms
proof (induction "128 ^ i :: int" v r arbitrary: i rule: read_var_int_loop.induct)
  case (1 v r)
  from "1.prems"(1) obtain b r1 where b: "read_byte r = Inr (b, r1)"
    by (subst (asm) read_var_int_loop.simps) (auto split: sum.splits)
  let ?v = "v + uint (b AND 0x7f) * 128 ^ i"
  have "uint (b AND 0x7f) \<le> 127"
    using take_bit_int_less_exp [of 7 "uint b"] by (simp add: byte_and_7f unsigned_take_bit_eq)
  then have "uint (b AND 0x7f) * 128 ^ i \<le> 127 * 128 ^ i"
    by (rule mult_right_mono) simp
  with "1.prems"(3,4) have "?v < 128 * 128 ^ i" by linarith
  with "1.prems"(3) have v: "0 \<le> ?v" "?v < 128 ^ Suc i" by auto
  show ?case
  proof (cases "b AND 0x80 = 0 \<or> 128 ^ i * 0x80 > (0x200000 :: int)")
    case True
    have "(128 :: int) ^ Suc i \<le> 128 ^ 4"
      using \<open>i < 4\<close> by (intro power_increasing) auto
    with v True b "1.prems"(1) show ?thesis
      by (subst (asm) read_var_int_loop.simps) (auto simp: Let_def split: if_splits)
  next
    case False
    then have "i < 3"
      using \<open>i < 4\<close> by (cases "i = 3") auto
    moreover from False b "1.prems"(1) have "read_var_int_loop (128 ^ Suc i) ?v r1 = Inr (n, r')"
      by (subst (asm) read_var_int_loop.simps) (auto simp: Let_def mult.commute)
    ultimately show ?thesis
      using "1.hyps" [OF b refl refl, of "Suc i"] False v by (simp add: mult.commute)
  qed
qed

lemma read_var_int_bounds: "read_var_int r = Inr (n, r') \<Longrightarrow> 0 \<le> n \<and> n \<le> 0x0FFFFFFF"
  using read_var_int_loop_bounds [of 0 0 r n r'] by (simp add: read_var_int_def)


section \<open>The codec interface\<close>

text \<open>
  What the packet parsers rely on: an item reader \<open>rd\<close> undoes the encoding \<open>enc\<close> of every
  encodable value whatever follows it (\<open>rd_enc\<close>), leaving the source untouched behind it.
  For a canonical codec the bytes consumed are the encoding of the value returned.
\<close>

locale codec =
  fixes enc :: "'a \<Rightarrow> byte list"
    and rd :: "reader \<Rightarrow> go_error + 'a \<times> reader"
    and ok :: "'a \<Rightarrow> bool"
  assumes rd_enc: "ok x \<Longrightarrow> rbuf r = enc x @ rest \<Longrightarrow> rd r = Inr (x, r\<lparr>rbuf := rest\<rparr>)"
begin

lemma unique_decoding:
  assumes "ok x" "ok y" "enc x @ us = enc y @ vs"
  shows "x = y \<and> us = vs"
proof -
  let ?r = "slice_reader (enc x @ us)"
  have "rd ?r = Inr (x, ?r\<lparr>rbuf := us\<rparr>)"
    using assms(1) by (intro rd_enc) (simp_all add: slice_reader_def)
  moreover have "rd ?r = Inr (y, ?r\<lparr>rbuf := vs\<rparr>)"
    using assms(2,3) by (intro rd_enc) (simp_all add: slice_reader_def)
  ultimately show ?thesis by (simp add: slice_reader_def)
qed

text \<open>The law as rewrite rules for a reader over a slice.\<close>

lemma slice_enc:
  "ok x \<Longrightarrow> rd (slice_reader (enc x @ rest)) = Inr (x, slice_reader rest)"
  "ok x \<Longrightarrow> rd (slice_reader (enc x)) = Inr (x, slice_reader [])"
  using rd_enc [of x "slice_reader (enc x @ rest)" rest] rd_enc [of x "slice_reader (enc x)" "[]"]
  by simp_all

lemma inj_on_enc: "inj_on enc {x. ok x}"
  using unique_decoding [of _ _ "[]" "[]"] by (auto intro!: inj_onI)

end

locale canonical_codec = codec +
  assumes enc_rd:
    "rd r = Inr (x, r') \<Longrightarrow> ok x \<and> rbuf r = enc x @ rbuf r' \<and> rsrc r' = rsrc r"
begin

lemma rd_shrinks: "rd r = Inr (x, r') \<Longrightarrow> length (rbuf r') + length (enc x) = length (rbuf r)"
  using enc_rd by (metis add.commute length_append)

lemma rd_iff:
  "rd r = Inr (x, r') \<longleftrightarrow> ok x \<and> rbuf r = enc x @ rbuf r' \<and> rsrc r' = rsrc r"
proof
  assume *: "ok x \<and> rbuf r = enc x @ rbuf r' \<and> rsrc r' = rsrc r"
  then have "rd r = Inr (x, r\<lparr>rbuf := rbuf r'\<rparr>)" by (intro rd_enc) auto
  moreover have "r\<lparr>rbuf := rbuf r'\<rparr> = r'" using * by (cases r; cases r') simp
  ultimately show "rd r = Inr (x, r')" by simp
qed (rule enc_rd)

end

text \<open>
  The loops \<open>for r.Len() > 0 {...}\<close> of the parsers, which collect items until the packet's
  slice is used up.
\<close>

locale item_loop = canonical_codec +
  fixes loop :: "'a list \<Rightarrow> reader \<Rightarrow> go_error + 'a list"
  assumes enc_nonempty: "enc x \<noteq> []"
    and loop_done: "rbuf r = [] \<Longrightarrow> rsrc r = Slice \<Longrightarrow> loop acc r = Inr acc"
    and loop_step: "rbuf r \<noteq> [] \<Longrightarrow> rsrc r = Slice \<Longrightarrow>
      loop acc r = (case rd r of Inl e \<Rightarrow> Inl e | Inr (x, r') \<Rightarrow> loop (acc @ [x]) r')"
begin

lemma loop_items:
  "\<forall>x \<in> set xs. ok x \<Longrightarrow> rbuf r = concat (map enc xs) \<Longrightarrow> rsrc r = Slice \<Longrightarrow>
   loop acc r = Inr (acc @ xs)"
proof (induction xs arbitrary: acc r)
  case Nil
  then show ?case by (simp add: loop_done)
next
  case (Cons x xs)
  have "rd r = Inr (x, r\<lparr>rbuf := concat (map enc xs)\<rparr>)"
    using Cons.prems by (intro rd_enc) auto
  with Cons show ?case by (simp add: loop_step enc_nonempty)
qed

lemma loop_parsed:
  "loop acc r = Inr ys \<Longrightarrow> rsrc r = Slice \<Longrightarrow>
   \<exists>xs. ys = acc @ xs \<and> rbuf r = concat (map enc xs) \<and> (\<forall>x \<in> set xs. ok x)"
proof (induction "length (rbuf r)" arbitrary: acc r rule: less_induct)
  case less
  show ?case
  proof (cases "rbuf r = []")
    case True
    with less.prems show ?thesis by (auto simp: loop_done intro: exI [of _ "[]"])
  next
    case False
    with less.prems obtain x r' where x: "rd r = Inr (x, r')" "loop (acc @ [x]) r' = Inr ys"
      by (auto simp: loop_step)
    have r: "ok x" "rbuf r = enc x @ rbuf r'" "rsrc r' = Slice"
      using enc_rd [OF x(1)] less.prems by auto
    then have "length (rbuf r') < length (rbuf r)" using enc_nonempty [of x] by simp
    with less.hyps x(2) r(3) obtain xs where "ys = (acc @ [x]) @ xs"
      "rbuf r' = concat (map enc xs)" "\<forall>x \<in> set xs. ok x" by blast
    with r show ?thesis by (intro exI [of _ "x # xs"]) auto
  qed
qed

end

section \<open>The primitive codecs\<close>

lemma read_byte_canonical: "canonical_codec (\<lambda>b. [b]) read_byte (\<lambda>_. True)"
  by unfold_locales (auto simp: read_byte_def split: list.splits)

interpretation u8: canonical_codec "\<lambda>b. [b]" read_byte "\<lambda>_. True"
  by (rule read_byte_canonical)

lemma read_exact_append [simp]:
  "rbuf r = bs @ rest \<Longrightarrow> n = int (length bs) \<Longrightarrow> read_exact n r = Inr (bs, r\<lparr>rbuf := rest\<rparr>)"
  by (simp add: read_exact_def)

lemma read_exact_Inr:
  "read_exact n r = Inr (bs, r') \<Longrightarrow>
   0 \<le> n \<and> length bs = nat n \<and> rbuf r = bs @ rbuf r' \<and> rsrc r' = rsrc r"
  by (auto simp: read_exact_def split: if_splits)

interpretation u16: canonical_codec u16_bytes read_uint16 "\<lambda>_. True"
proof unfold_locales
  fix v rest and r :: reader
  assume "rbuf r = u16_bytes v @ rest"
  then have "read_exact 2 r = Inr (u16_bytes v, r\<lparr>rbuf := rest\<rparr>)" by simp
  then show "read_uint16 r = Inr (v, r\<lparr>rbuf := rest\<rparr>)"
    by (simp add: read_uint16_def) (simp add: u16_bytes_def)
next
  fix r v r'
  assume "read_uint16 r = Inr (v, r')"
  then obtain bs where bs: "read_exact 2 r = Inr (bs, r')" "v = big_endian16 (bs ! 0) (bs ! 1)"
    by (auto simp: read_uint16_def)
  have "length bs = 2" and rest: "rbuf r = bs @ rbuf r'" "rsrc r' = rsrc r"
    using read_exact_Inr [OF bs(1)] by auto
  then have "u16_bytes v = bs"
    using bs(2) by (auto simp: u16_bytes_def numeral_2_eq_2 length_Suc_conv)
  with rest show "True \<and> rbuf r = u16_bytes v @ rbuf r' \<and> rsrc r' = rsrc r" by simp
qed

text \<open>A length-prefixed slice: the nil slice stands for length zero.\<close>

definition lp_slice_bytes :: "byte list option \<Rightarrow> byte list" where
  "lp_slice_bytes sl = lp_bytes (slice_bytes sl)"

definition lp_slice_ok :: "byte list option \<Rightarrow> bool" where
  "lp_slice_ok sl = (sl \<noteq> Some [] \<and> length (slice_bytes sl) < 65536)"

lemma uint_u16_of_nat: "n < 65536 \<Longrightarrow> uint (word_of_nat n :: u16) = int n"
  by (simp add: unsigned_of_nat take_bit_nat_eq_self)

lemma u16_of_nat_pos: "n < 65536 \<Longrightarrow> (word_of_nat n :: u16) > 0 \<longleftrightarrow> n > 0"
  by (simp add: word_less_nat_alt unat_of_nat_u16)

interpretation bytes: canonical_codec lp_slice_bytes read_bytes lp_slice_ok
proof unfold_locales
  fix sl rest and r :: reader
  assume ok: "lp_slice_ok sl" and r: "rbuf r = lp_slice_bytes sl @ rest"
  let ?bs = "slice_bytes sl"
  have len: "length ?bs < 65536" using ok by (simp add: lp_slice_ok_def)
  have "read_uint16 r = Inr (word_of_nat (length ?bs), r\<lparr>rbuf := ?bs @ rest\<rparr>)"
    using r by (intro u16.rd_enc) (simp_all add: lp_slice_bytes_def lp_bytes_def)
  then show "read_bytes r = Inr (sl, r\<lparr>rbuf := rest\<rparr>)"
    using ok len by (cases sl)
      (auto simp: read_bytes_def lp_slice_ok_def u16_of_nat_pos uint_u16_of_nat)
next
  fix r sl r'
  assume "read_bytes r = Inr (sl, r')"
  then obtain l r1 where l: "read_uint16 r = Inr (l, r1)"
    and sl: "(if l > 0 then (case read_exact (uint l) r1 of Inl e \<Rightarrow> Inl e
        | Inr (bs, r2) \<Rightarrow> Inr (Some bs, r2)) else Inr (None, r1)) = Inr (sl, r')"
    by (auto simp: read_bytes_def)
  have u: "rbuf r = u16_bytes l @ rbuf r1" "rsrc r1 = rsrc r" using u16.enc_rd [OF l] by auto
  show "lp_slice_ok sl \<and> rbuf r = lp_slice_bytes sl @ rbuf r' \<and> rsrc r' = rsrc r"
  proof (cases "l > 0")
    case True
    with sl obtain bs where bs: "read_exact (uint l) r1 = Inr (bs, r')" "sl = Some bs" by auto
    have e: "length bs = unat l" "rbuf r1 = bs @ rbuf r'" "rsrc r' = rsrc r1"
      using read_exact_Inr [OF bs(1)] by auto
    moreover have "bs \<noteq> []" using True e(1) by (auto simp: word_less_nat_alt)
    ultimately show ?thesis
      using bs(2) u by (simp add: lp_slice_ok_def lp_slice_bytes_def lp_bytes_def)
  next
    case False
    with sl u show ?thesis
      by (auto simp: lp_slice_ok_def lp_slice_bytes_def lp_bytes_def word_gt_0)
  qed
qed

definition str_ok :: "string \<Rightarrow> bool" where
  "str_ok s \<longleftrightarrow> length s < 65536"

interpretation str: canonical_codec str_bytes read_string str_ok
proof unfold_locales
  fix s rest and r :: reader
  assume ok: "str_ok s" and r: "rbuf r = str_bytes s @ rest"
  let ?sl = "if s = [] then None else Some (bytes_of s)"
  have "read_bytes r = Inr (?sl, r\<lparr>rbuf := rest\<rparr>)"
    using ok r by (intro bytes.rd_enc)
      (auto simp: lp_slice_ok_def str_ok_def lp_slice_bytes_def str_bytes_def bytes_of_def)
  then show "read_string r = Inr (s, r\<lparr>rbuf := rest\<rparr>)"
    by (cases "s = []") (simp_all add: read_string_def string_of_Nil)
next
  fix r s r'
  assume "read_string r = Inr (s, r')"
  then obtain sl where sl: "read_bytes r = Inr (sl, r')" "s = string_of (slice_bytes sl)"
    by (auto simp: read_string_def)
  with bytes.enc_rd [OF sl(1)] show "str_ok s \<and> rbuf r = str_bytes s @ rbuf r' \<and> rsrc r' = rsrc r"
    by (simp add: lp_slice_ok_def str_ok_def lp_slice_bytes_def str_bytes_def)
qed

text \<open>The variable length integer decodes its own encoding up to the protocol's bound.\<close>

interpretation var_int: codec "\<lambda>v. var_int_bytes (nat v)" read_var_int
  "\<lambda>v. 0 \<le> v \<and> v \<le> 0x0FFFFFFF"
  by unfold_locales (simp add: read_var_int_bytes nat_le_iff)

lemma read_packet_append:
  "rbuf r = pk @ rest \<Longrightarrow> n = int (length pk) \<Longrightarrow>
   read_packet n r = Inr (slice_reader pk, r\<lparr>rbuf := rest\<rparr>)"
  by (simp add: read_packet_def)

lemma read_packet_Inr:
  "read_packet n r = Inr (pr, r') \<Longrightarrow>
   \<exists>pk. pr = slice_reader pk \<and> rbuf r = pk @ rbuf r' \<and> n = int (length pk) \<and> rsrc r' = rsrc r"
  by (auto simp: read_packet_def dest: read_exact_Inr)

lemma reader_len_slice [simp]: "rsrc r = Slice \<Longrightarrow> reader_len r = Inr (int (length (rbuf r)))"
  by (simp add: reader_len_def)

lemma read_remaining_slice [simp]:
  "rsrc r = Slice \<Longrightarrow> read_remaining_bytes r = Inr (rbuf r, r\<lparr>rbuf := []\<rparr>)"
  by (simp add: read_remaining_bytes_def read_exact_def)

text \<open>The reader rules that the packet theories rewrite with, and their inversions.\<close>

lemma read_byte_slice: "read_byte (slice_reader (b # rest)) = Inr (b, slice_reader rest)"
  by simp

lemma read_remaining_slice_reader:
  "read_remaining_bytes (slice_reader bs) = Inr (bs, slice_reader [])"
  by simp

lemmas reads = read_byte_slice u16.slice_enc [OF TrueI] bytes.slice_enc str.slice_enc
  read_remaining_slice_reader

lemmas read_inversions = u8.enc_rd u16.enc_rd bytes.enc_rd str.enc_rd

section \<open>Properties\<close>

text \<open>C22: Reading what \<open>WriteVarInt\<close> wrote for a value that is not negative returns the value and
  leaves the rest of the input, up to 0x0FFFFFFF; larger values are rejected as malformed.\<close>

theorem var_int_round_trip:
  assumes "0 \<le> v" "write_var_int v [] = Inr bs" "rbuf r = bs @ rest"
  shows "read_var_int r = (if v \<le> 0x0FFFFFFF then Inr (v, r\<lparr>rbuf := rest\<rparr>)
    else Inl (ErrorString ''malformed compressed int''))"
proof -
  have "rbuf r = var_int_bytes (nat v) @ rest" using assms by (simp add: write_var_int)
  then show ?thesis using assms(1) by (simp add: read_var_int_bytes nat_le_iff)
qed

theorem var_int_round_trip_witness:
  "\<exists>bs. write_var_int 321 [] = Inr bs \<and> read_var_int (slice_reader (bs @ [7])) = Inr (321, slice_reader [7])"
proof -
  have w: "write_var_int 321 [] = Inr (var_int_bytes 321)" by (simp add: write_var_int)
  from var_int_round_trip [OF _ w, of "slice_reader (var_int_bytes 321 @ [7])" "[7]"] w
  show ?thesis by simp
qed

text \<open>Writing a variable length integer returns for every value that is not negative, and never
  returns for a negative one.\<close>

theorem write_var_int_returns:
  "(write_var_int v w = Inl Diverges \<longleftrightarrow> v < 0) \<and> (\<exists>w'. write_var_int v w = Inr w') = (0 \<le> v)"
proof (cases "v < 0")
  case True
  then show ?thesis by (simp add: write_var_int_negative)
next
  case False
  then show ?thesis by (simp add: write_var_int)
qed

text \<open>A variable length integer that is read is between zero and 0x0FFFFFFF, on every input.\<close>

theorem read_var_int_range:
  assumes "read_var_int r = Inr (n, r')"
  shows "0 \<le> n \<and> n \<le> 0x0FFFFFFF"
  using read_var_int_bounds [OF assms] .

theorem read_var_int_range_witness:
  "\<exists>n r'. read_var_int (slice_reader [0xFF, 0x7F]) = Inr (n, r') \<and> n \<le> 0x0FFFFFFF \<and> n = 16383"
proof -
  have "[0xFF, 0x7F] = var_int_bytes 16383" by (simp add: var_int_bytes.simps)
  then have r: "read_var_int (slice_reader [0xFF, 0x7F]) = Inr (16383, slice_reader [])"
    using read_var_int_bytes [of "slice_reader [0xFF, 0x7F]" 16383 "[]"] by simp
  from read_var_int_range [OF this] r show ?thesis by simp
qed

end
