(* ===== verification/Packet_Frame.thy ===== *)
theory Packet_Frame
  imports Wire
begin

text \<open>
  The control packet types of \<open>mqtt/pkg/packet.go\<close>, the byte masks they are built with, and
  the interface \<open>framed_packet\<close> of the Go interface \<open>Packet\<close> together with its parse
  function: a fixed header byte, the remaining length and a body.
\<close>

section \<open>Packet types\<close>

definition TpConnect :: byte where "TpConnect = 0x10"
definition TpConnAck :: byte where "TpConnAck = 0x20"
definition TpPublish :: byte where "TpPublish = 0x30"
definition TpPubAck :: byte where "TpPubAck = 0x40"
definition TpPubRec :: byte where "TpPubRec = 0x50"
definition TpPubRel :: byte where "TpPubRel = 0x60"
definition TpPubComp :: byte where "TpPubComp = 0x70"
definition TpSubscribe :: byte where "TpSubscribe = 0x80"
definition TpSubAck :: byte where "TpSubAck = 0x90"
definition TpUnsubscribe :: byte where "TpUnsubscribe = 0xa0"
definition TpUnsubAck :: byte where "TpUnsubAck = 0xb0"
definition TpPing :: byte where "TpPing = 0xc0"
definition TpPingResp :: byte where "TpPingResp = 0xd0"
definition TpDisconnect :: byte where "TpDisconnect = 0xe0"
definition TpMask :: byte where "TpMask = 0xf0"

lemmas tp_defs = TpConnect_def TpConnAck_def TpPublish_def TpPubAck_def TpPubRec_def TpPubRel_def
  TpPubComp_def TpSubscribe_def TpSubAck_def TpUnsubscribe_def TpUnsubAck_def TpPing_def
  TpPingResp_def TpDisconnect_def TpMask_def

section \<open>Bits of a header byte\<close>

lemma byte_eqI:
  fixes a b :: byte
  assumes "bit a 0 = bit b 0" "bit a 1 = bit b 1" "bit a 2 = bit b 2" "bit a 3 = bit b 3"
    "bit a 4 = bit b 4" "bit a 5 = bit b 5" "bit a 6 = bit b 6" "bit a 7 = bit b 7"
  shows "a = b"
proof (rule bit_word_eqI)
  fix n assume "n < LENGTH(8)"
  then have "n \<in> {0, 1, 2, 3, 4, 5, 6, 7}" by auto
  with assms show "bit a n = bit b n" by auto
qed

lemma byte_eq_iff:
  fixes a b :: byte
  shows "a = b \<longleftrightarrow> bit a 0 = bit b 0 \<and> bit a 1 = bit b 1 \<and> bit a 2 = bit b 2 \<and> bit a 3 = bit b 3
    \<and> bit a 4 = bit b 4 \<and> bit a 5 = bit b 5 \<and> bit a 6 = bit b 6 \<and> bit a 7 = bit b 7"
  using byte_eqI by blast

lemmas byte_bits = byte_eq_iff bit_and_iff bit_or_iff bit_not_iff bit_push_bit_iff bit_drop_bit_eq
  possible_bit_def

text \<open>A byte whose high nibble is clear, as every flags nibble is.\<close>

definition low_nibble :: "byte \<Rightarrow> bool" where
  "low_nibble f \<longleftrightarrow> f AND 0xf0 = 0"

lemma low_nibble_and_0f [simp]: "low_nibble (f AND 0xf)"
  by (simp add: low_nibble_def byte_bits)

lemma publish_header [go_bits]:
  "low_nibble f \<Longrightarrow> (0x30 OR f) AND 0xf = f"
  "low_nibble f \<Longrightarrow> (0x30 OR f) AND 0xf0 = 0x30"
  by (auto simp: low_nibble_def byte_bits)

section \<open>The packet interface\<close>

definition frame :: "byte \<Rightarrow> byte list \<Rightarrow> byte list" where
  "frame b body = b # var_int_bytes (length body) @ body"

text \<open>The caller of a parse function has read the header byte and the remaining length.\<close>

definition read_header :: "reader \<Rightarrow> go_error + byte \<times> int \<times> reader" where
  "read_header r = (case read_byte r of
      Inl e \<Rightarrow> Inl e
    | Inr (b, r1) \<Rightarrow>
        (case read_var_int r1 of
           Inl e \<Rightarrow> Inl e
         | Inr (rl, r2) \<Rightarrow> Inr (b, rl, r2)))"

lemma read_header_frame:
  assumes "rbuf r = frame b body @ rest" "length body \<le> 0x0FFFFFFF"
  shows "read_header r = Inr (b, int (length body), r\<lparr>rbuf := body @ rest\<rparr>)"
proof -
  have "read_byte r = Inr (b, r\<lparr>rbuf := var_int_bytes (length body) @ body @ rest\<rparr>)"
    using assms(1) by (simp add: frame_def)
  moreover have "read_var_int (r\<lparr>rbuf := var_int_bytes (length body) @ body @ rest\<rparr>)
      = Inr (int (length body), r\<lparr>rbuf := body @ rest\<rparr>)"
    using assms(2) by (simp add: read_var_int_bytes)
  ultimately show ?thesis by (simp add: read_header_def)
qed

lemma read_header_Inr:
  assumes "read_header r = Inr (b, n, r')"
  shows "0 \<le> n \<and> n \<le> 0x0FFFFFFF"
  using assms read_var_int_bounds by (fastforce simp: read_header_def)

locale framed_packet =
  fixes tp :: byte
    and wr :: "'p \<Rightarrow> writer \<Rightarrow> go_error + writer"
    and parse :: "byte \<Rightarrow> int \<Rightarrow> reader \<Rightarrow> go_error + 'p \<times> reader"
    and hdr :: "'p \<Rightarrow> byte"
    and body :: "'p \<Rightarrow> byte list"
    and ok :: "'p \<Rightarrow> bool"
  assumes wr_frame: "ok p \<Longrightarrow> wr p w = Inr (w @ frame (hdr p) (body p))"
    and parse_body: "ok p \<Longrightarrow> rbuf r = body p @ rest \<Longrightarrow>
      parse (hdr p) (int (length (body p))) r = Inr (p, r\<lparr>rbuf := rest\<rparr>)"
    and body_len: "ok p \<Longrightarrow> length (body p) \<le> 0x0FFFFFFF"
    and hdr_tp: "ok p \<Longrightarrow> hdr p AND TpMask = tp"
begin

lemma wr_then_parse:
  assumes "ok p" "rbuf r = frame (hdr p) (body p) @ rest"
  shows "read_header r = Inr (hdr p, int (length (body p)), r\<lparr>rbuf := body p @ rest\<rparr>)"
    and "parse (hdr p) (int (length (body p))) (r\<lparr>rbuf := body p @ rest\<rparr>) = Inr (p, r\<lparr>rbuf := rest\<rparr>)"
  using assms read_header_frame [OF assms(2)] parse_body [OF assms(1)] body_len [OF assms(1)]
  by simp_all

lemma frame_unique:
  assumes "ok p" "ok q" "frame (hdr p) (body p) @ us = frame (hdr q) (body q) @ vs"
  shows "p = q \<and> us = vs"
proof -
  let ?r = "slice_reader (frame (hdr p) (body p) @ us)"
  from assms(3) have q: "rbuf ?r = frame (hdr q) (body q) @ vs" by simp
  have p: "rbuf ?r = frame (hdr p) (body p) @ us" by simp
  from wr_then_parse(1) [OF assms(1) p] wr_then_parse(1) [OF assms(2) q]
  have same: "hdr p = hdr q" "length (body p) = length (body q)" "body p @ us = body q @ vs"
    by simp_all
  from parse_body [OF assms(1), of "slice_reader (body p @ us)" us]
    parse_body [OF assms(2), of "slice_reader (body p @ us)" vs]
  show ?thesis by (simp add: same)
qed

end

end
