(* ===== verification/Packet_Publish.thy ===== *)
theory Packet_Publish
  imports Packet_Frame
begin

text \<open>
  \<open>mqtt/pkg/publish.go\<close>: the PUBLISH packet with its flags, parser and writer, and the
  four acknowledgement packets that carry only a packet identifier.
\<close>

section \<open>PUBLISH\<close>

definition PublishRetain :: byte where "PublishRetain = 0x01"
definition PublishQoS :: byte where "PublishQoS = 0x06"
definition PublishDup :: byte where "PublishDup = 0x08"

lemmas publish_flag_defs = PublishRetain_def PublishQoS_def PublishDup_def

record publish =
  pub_name :: string
  pub_reply_to :: string
  pub_payload :: "byte list"
  pub_id :: u16
  pub_flags :: byte
  pub_sent_by_us :: bool

definition simple_publish :: "string \<Rightarrow> byte list \<Rightarrow> publish" where
  "simple_publish topic payload =
     \<lparr>pub_name = topic, pub_reply_to = [], pub_payload = payload, pub_id = 0, pub_flags = 0,
      pub_sent_by_us = False\<rparr>"

definition new_publish ::
  "u16 \<Rightarrow> string \<Rightarrow> byte \<Rightarrow> byte list \<Rightarrow> bool \<Rightarrow> string \<Rightarrow> publish" where
  "new_publish i topic flags payload sent_by_us nats_reply_to =
     \<lparr>pub_name = topic, pub_reply_to = nats_reply_to, pub_payload = payload, pub_id = i,
      pub_flags = flags, pub_sent_by_us = sent_by_us\<rparr>"

definition new_publish2 ::
  "u16 \<Rightarrow> string \<Rightarrow> byte list \<Rightarrow> byte \<Rightarrow> bool \<Rightarrow> bool \<Rightarrow> publish" where
  "new_publish2 i topic payload qos dup retain =
     (let flags = 0;
          flags = (if qos > 0 then flags OR push_bit 1 qos else flags);
          flags = (if dup then flags OR PublishDup else flags);
          flags = (if retain then flags OR PublishRetain else flags)
      in \<lparr>pub_name = topic, pub_reply_to = [], pub_payload = payload, pub_id = i,
          pub_flags = flags, pub_sent_by_us = False\<rparr>)"

definition qos_level :: "publish \<Rightarrow> byte" where
  "qos_level p = drop_bit 1 (pub_flags p AND PublishQoS)"

definition is_dup :: "publish \<Rightarrow> bool" where
  "is_dup p \<longleftrightarrow> pub_flags p AND PublishDup \<noteq> 0"

definition set_dup :: "publish \<Rightarrow> publish" where
  "set_dup p = p\<lparr>pub_flags := pub_flags p OR PublishDup\<rparr>"

definition retain_flag :: "publish \<Rightarrow> bool" where
  "retain_flag p \<longleftrightarrow> pub_flags p AND PublishRetain \<noteq> 0"

definition reset_retain :: "publish \<Rightarrow> publish" where
  "reset_retain p = p\<lparr>pub_flags := pub_flags p AND NOT PublishRetain\<rparr>"

definition is_printable_ascii :: "byte list \<Rightarrow> bool" where
  "is_printable_ascii bs \<longleftrightarrow> (\<forall>c \<in> set bs. \<not> (c < 32 \<or> c > 127))"

text \<open>\<open>ParsePublish\<close> works on a reader over the packet's own bytes.\<close>

definition parse_publish :: "byte \<Rightarrow> int \<Rightarrow> reader \<Rightarrow> go_error + publish \<times> reader" where
  "parse_publish flags pk_len r0 =
     (case read_packet pk_len r0 of
        Inl e \<Rightarrow> Inl e
      | Inr (r, r0') \<Rightarrow>
          (let pp = \<lparr>pub_name = [], pub_reply_to = [], pub_payload = [], pub_id = 0,
                     pub_flags = flags AND 0xf, pub_sent_by_us = False\<rparr>
           in case read_string r of
                Inl e \<Rightarrow> Inl e
              | Inr (nm, r1) \<Rightarrow>
                  (let pp = pp\<lparr>pub_name := nm\<rparr>
                   in case (if qos_level pp > 0 then read_uint16 r1 else Inr (0, r1)) of
                        Inl e \<Rightarrow> Inl e
                      | Inr (i, r2) \<Rightarrow>
                          (case read_remaining_bytes r2 of
                             Inl e \<Rightarrow> Inl e
                           | Inr (pl, r3) \<Rightarrow> Inr (pp\<lparr>pub_id := i, pub_payload := pl\<rparr>, r0')))))"

definition write_publish :: "publish \<Rightarrow> writer \<Rightarrow> go_error + writer" where
  "write_publish p w =
     (let w = write_u8 (TpPublish OR pub_flags p) w;
          pk_len = 2 + int (length (pub_name p)) + int (length (pub_payload p));
          pk_len = (if qos_level p > 0 then pk_len + 2 else pk_len)
      in case write_var_int pk_len w of
           Inl e \<Rightarrow> Inl e
         | Inr w \<Rightarrow>
             (let w = write_string (pub_name p) w;
                  w = (if qos_level p > 0 then write_u16 (pub_id p) w else w)
              in Inr (write_raw (pub_payload p) w)))"

text \<open>What a PUBLISH packet on the wire can say: everything else is lost by writing it.\<close>

definition publish_body :: "publish \<Rightarrow> byte list" where
  "publish_body p = str_bytes (pub_name p)
     @ (if qos_level p > 0 then u16_bytes (pub_id p) else []) @ pub_payload p"

definition publish_parsed :: "publish \<Rightarrow> bool" where
  "publish_parsed p \<longleftrightarrow> low_nibble (pub_flags p) \<and> str_ok (pub_name p) \<and> pub_reply_to p = []
     \<and> \<not> pub_sent_by_us p \<and> (qos_level p = 0 \<longrightarrow> pub_id p = 0)"

definition publish_ok :: "publish \<Rightarrow> bool" where
  "publish_ok p \<longleftrightarrow> publish_parsed p \<and> length (publish_body p) \<le> 0x0FFFFFFF"

lemma qos_level_update [simp]:
  "qos_level (p\<lparr>pub_name := nm\<rparr>) = qos_level p"
  "qos_level (p\<lparr>pub_id := i\<rparr>) = qos_level p"
  "qos_level (p\<lparr>pub_payload := pl\<rparr>) = qos_level p"
  by (simp_all add: qos_level_def)

lemma qos_level_pos: "qos_level p > 0 \<longleftrightarrow> qos_level p \<noteq> 0"
  by (simp add: word_gt_0)

lemma write_publish_frame:
  "write_publish p w = Inr (w @ frame (TpPublish OR pub_flags p) (publish_body p))"
proof -
  have len: "(if qos_level p > 0 then 2 + int (length (pub_name p)) + int (length (pub_payload p)) + 2
      else 2 + int (length (pub_name p)) + int (length (pub_payload p))) = int (length (publish_body p))"
    by (simp add: publish_body_def)
  show ?thesis
    unfolding write_publish_def Let_def len write_var_int_of_nat
    by (simp add: writes frame_def publish_body_def del: length_append)
qed

text \<open>Building a record field by field and replacing its fields again is the identity.\<close>

lemma publish_eqI:
  "pub_name p = a \<Longrightarrow> pub_reply_to p = b \<Longrightarrow> pub_payload p = c \<Longrightarrow> pub_id p = d \<Longrightarrow> pub_flags p = e
   \<Longrightarrow> pub_sent_by_us p = f \<Longrightarrow>
   \<lparr>pub_name = a, pub_reply_to = b, pub_payload = c, pub_id = d, pub_flags = e, pub_sent_by_us = f\<rparr> = p"
  by simp

lemma qos_level_make [simp]:
  "qos_level \<lparr>pub_name = a, pub_reply_to = b, pub_payload = c, pub_id = d, pub_flags = pub_flags p,
     pub_sent_by_us = f\<rparr> = qos_level p"
  by (simp add: qos_level_def)

lemma parse_publish_body:
  assumes "publish_parsed p" "rbuf r = publish_body p @ rest"
    and b: "b AND 0xf = pub_flags p" and n: "n = int (length (publish_body p))"
  shows "parse_publish b n r = Inr (p, r\<lparr>rbuf := rest\<rparr>)"
proof -
  have rd: "read_packet n r = Inr (slice_reader (publish_body p), r\<lparr>rbuf := rest\<rparr>)"
    using assms(2) n by (rule read_packet_append)
  show ?thesis
    using assms(1)
    by (auto simp: parse_publish_def Let_def rd b publish_parsed_def publish_body_def reads
        qos_level_pos intro!: publish_eqI)
qed

lemma parse_publish_Inr:
  assumes "parse_publish b n r = Inr (p, r')"
  shows "publish_parsed p \<and> pub_flags p = b AND 0xf \<and> rbuf r = publish_body p @ rbuf r'
    \<and> n = int (length (publish_body p)) \<and> rsrc r' = rsrc r"
proof -
  let ?pp = "\<lparr>pub_name = [], pub_reply_to = [], pub_payload = [], pub_id = 0,
     pub_flags = b AND 0xf, pub_sent_by_us = False\<rparr>"
  from assms obtain pr nm r1 i r2 pl r3 where
    steps: "read_packet n r = Inr (pr, r')" "read_string pr = Inr (nm, r1)"
      "(if qos_level (?pp\<lparr>pub_name := nm\<rparr>) > 0 then read_uint16 r1 else Inr (0, r1)) = Inr (i, r2)"
      "read_remaining_bytes r2 = Inr (pl, r3)"
    and p: "p = ?pp\<lparr>pub_name := nm, pub_id := i, pub_payload := pl\<rparr>"
    by (auto simp: parse_publish_def Let_def)
  from read_packet_Inr [OF steps(1)] obtain pk where
    pk: "pr = slice_reader pk" "rbuf r = pk @ rbuf r'" "n = int (length pk)" "rsrc r' = rsrc r"
    by blast
  have nm: "str_ok nm" "pk = str_bytes nm @ rbuf r1" "rsrc r1 = Slice"
    using str.enc_rd [OF steps(2)] pk(1) by auto
  have q: "qos_level (?pp\<lparr>pub_name := nm\<rparr>) = qos_level p" by (simp add: p qos_level_def)
  have i: "rbuf r1 = (if qos_level p > 0 then u16_bytes i else []) @ rbuf r2"
    "qos_level p = 0 \<longrightarrow> i = 0" "rsrc r2 = Slice"
    using steps(3) [unfolded q] nm(3) u16.enc_rd [of r1 i r2]
    by (auto simp: qos_level_pos split: if_splits)
  have fields: "pub_name p = nm" "pub_id p = i" "pub_payload p = pl" "pub_reply_to p = []"
    "pub_flags p = b AND 0xf" "\<not> pub_sent_by_us p"
    by (simp_all add: p)
  have "rbuf r2 = pl" using steps(4) i(3) by simp
  then have "pk = publish_body p"
    unfolding publish_body_def fields by (simp only: nm(2) i(1))
  with pk nm(1) i(2) show ?thesis by (simp add: publish_parsed_def fields)
qed

interpretation publish: framed_packet TpPublish write_publish parse_publish
  "\<lambda>p. TpPublish OR pub_flags p" publish_body publish_ok
proof unfold_locales
  fix p rest and r :: reader
  assume "publish_ok p" "rbuf r = publish_body p @ rest"
  then show "parse_publish (TpPublish OR pub_flags p) (int (length (publish_body p))) r
    = Inr (p, r\<lparr>rbuf := rest\<rparr>)"
    by (intro parse_publish_body)
      (simp_all add: publish_ok_def publish_parsed_def TpPublish_def publish_header)
qed (auto simp: write_publish_frame publish_ok_def publish_parsed_def tp_defs publish_header)

section \<open>Acknowledgements\<close>

text \<open>
  PUBACK, PUBREC, PUBREL and PUBCOMP are a packet identifier each; their parsers and
  writers differ in the type byte and the message of the error only.
\<close>

definition parse_pub_ack :: "byte \<Rightarrow> int \<Rightarrow> reader \<Rightarrow> go_error + u16 \<times> reader" where
  "parse_pub_ack b pk_len r =
     (if pk_len \<noteq> 2 then Inl (ErrorString ''malformed PUBACK'') else read_uint16 r)"

definition parse_pub_rec :: "byte \<Rightarrow> int \<Rightarrow> reader \<Rightarrow> go_error + u16 \<times> reader" where
  "parse_pub_rec b pk_len r =
     (if pk_len \<noteq> 2 then Inl (ErrorString ''malformed PUBREC'') else read_uint16 r)"

definition parse_pub_rel :: "byte \<Rightarrow> int \<Rightarrow> reader \<Rightarrow> go_error + u16 \<times> reader" where
  "parse_pub_rel b pk_len r =
     (if pk_len \<noteq> 2 then Inl (ErrorString ''malformed PUBREL'') else read_uint16 r)"

definition parse_pub_comp :: "byte \<Rightarrow> int \<Rightarrow> reader \<Rightarrow> go_error + u16 \<times> reader" where
  "parse_pub_comp b pk_len r =
     (if pk_len \<noteq> 2 then Inl (ErrorString ''malformed PUBCOMP'') else read_uint16 r)"

definition write_pub_ack :: "u16 \<Rightarrow> writer \<Rightarrow> go_error + writer" where
  "write_pub_ack p w = Inr (write_u16 p (write_u8 2 (write_u8 TpPubAck w)))"

definition write_pub_rec :: "u16 \<Rightarrow> writer \<Rightarrow> go_error + writer" where
  "write_pub_rec p w = Inr (write_u16 p (write_u8 2 (write_u8 TpPubRec w)))"

definition write_pub_rel :: "u16 \<Rightarrow> writer \<Rightarrow> go_error + writer" where
  "write_pub_rel p w = Inr (write_u16 p (write_u8 2 (write_u8 TpPubRel w)))"

definition write_pub_comp :: "u16 \<Rightarrow> writer \<Rightarrow> go_error + writer" where
  "write_pub_comp p w = Inr (write_u16 p (write_u8 2 (write_u8 TpPubComp w)))"

lemma frame_two_bytes: "length bs = 2 \<Longrightarrow> frame b bs = [b, 2] @ bs"
  by (simp add: frame_def var_int_bytes.simps)

lemmas ack_defs = parse_pub_ack_def parse_pub_rec_def parse_pub_rel_def parse_pub_comp_def
  write_pub_ack_def write_pub_rec_def write_pub_rel_def write_pub_comp_def

interpretation pub_ack: framed_packet TpPubAck write_pub_ack parse_pub_ack
  "\<lambda>_. TpPubAck" u16_bytes "\<lambda>_. True"
  by unfold_locales (auto simp: ack_defs writes frame_two_bytes u16.rd_enc tp_defs)

interpretation pub_rec: framed_packet TpPubRec write_pub_rec parse_pub_rec
  "\<lambda>_. TpPubRec" u16_bytes "\<lambda>_. True"
  by unfold_locales (auto simp: ack_defs writes frame_two_bytes u16.rd_enc tp_defs)

interpretation pub_rel: framed_packet TpPubRel write_pub_rel parse_pub_rel
  "\<lambda>_. TpPubRel" u16_bytes "\<lambda>_. True"
  by unfold_locales (auto simp: ack_defs writes frame_two_bytes u16.rd_enc tp_defs)

interpretation pub_comp: framed_packet TpPubComp write_pub_comp parse_pub_comp
  "\<lambda>_. TpPubComp" u16_bytes "\<lambda>_. True"
  by unfold_locales (auto simp: ack_defs writes frame_two_bytes u16.rd_enc tp_defs)

section \<open>Properties\<close>

text \<open>C23: A PUBLISH packet is accepted only if its body is exactly the encoding of the parsed packet:
  nothing of the input is skipped or invented, the flags are the low bits of the header byte,
  and a packet without quality of service has no identifier.\<close>

theorem publish_parse_exact:
  assumes "parse_publish b n r = Inr (p, r')"
  shows "rbuf r = publish_body p @ rbuf r' \<and> n = int (length (publish_body p))
    \<and> pub_flags p = b AND 0xf \<and> (qos_level p = 0 \<longrightarrow> pub_id p = 0) \<and> length (pub_name p) < 65536"
  using parse_publish_Inr [OF assms] by (auto simp: publish_parsed_def str_ok_def)

theorem publish_parse_exact_witness:
  "\<exists>p. parse_publish 0x30 4 (slice_reader [0, 1, 0x61, 9, 8]) = Inr (p, slice_reader [8])
    \<and> publish_body p = [0, 1, 0x61, 9]"
proof -
  let ?p = "simple_publish ''a'' [9]"
  have b: "publish_body ?p = [0, 1, 0x61, 9]" and ok: "publish_parsed ?p"
    by (simp_all add: publish_body_def simple_publish_def qos_level_def str_bytes_def lp_bytes_def
      u16_bytes_def hi_byte_def lo_byte_def bytes_of_def byte_of_char_def publish_parsed_def low_nibble_def str_ok_def)
  have "parse_publish 0x30 4 (slice_reader [0, 1, 0x61, 9, 8]) = Inr (?p, slice_reader [8])"
    using publish.parse_body [of ?p "slice_reader [0, 1, 0x61, 9, 8]" "[8]"] ok b
    by (simp add: publish_ok_def) (simp add: simple_publish_def tp_defs)
  from publish_parse_exact [OF this] this show ?thesis by auto
qed

end
