(* ===== verification/Packet_Connect.thy ===== *)
theory Packet_Connect
  imports Packet_Frame
begin

text \<open>
  \<open>mqtt/pkg/connect.go\<close>, \<open>will.go\<close> and the data of \<open>credentials.go\<close>: the CONNECT packet with
  its flags byte, optional will and credentials, the CONNACK packet and DISCONNECT.
  Pointers that may be nil are options, so a nil dereference is a branch that panics.
\<close>

section \<open>Data\<close>

record will =
  will_topic :: string
  will_message :: "byte list"
  will_qos :: byte
  will_retain :: bool

record credentials =
  cr_user :: string
  cr_password :: "byte list option"

record connect =
  client_id :: string
  creds :: "credentials option"
  conn_will :: "will option"
  conn_keep_alive :: u16
  client_level :: byte
  conn_flags :: byte

definition proto_name :: string where "proto_name = ''MQTT''"
definition cleanSessionFlag :: byte where "cleanSessionFlag = 0x02"
definition willFlag :: byte where "willFlag = 0x04"
definition willQoS :: byte where "willQoS = 0x18"
definition willRetainFlag :: byte where "willRetainFlag = 0x20"
definition passwordFlag :: byte where "passwordFlag = 0x40"
definition userNameFlag :: byte where "userNameFlag = 0x80"

lemmas connect_flag_defs = cleanSessionFlag_def willFlag_def willQoS_def willRetainFlag_def
  passwordFlag_def userNameFlag_def

definition RtAccepted :: byte where "RtAccepted = 0"
definition RtUnacceptableProtocolVersion :: byte where "RtUnacceptableProtocolVersion = 1"
definition RtIdentifierRejected :: byte where "RtIdentifierRejected = 2"
definition RtServerUnavailable :: byte where "RtServerUnavailable = 3"
definition RtBadUserNameOrPassword :: byte where "RtBadUserNameOrPassword = 4"
definition RtNotAuthorized :: byte where "RtNotAuthorized = 5"

definition return_code_error :: "byte \<Rightarrow> string" where
  "return_code_error r =
     (if r = RtAccepted then ''accepted''
      else if r = RtUnacceptableProtocolVersion then ''unacceptable protocol version''
      else if r = RtIdentifierRejected then ''identifier rejected''
      else if r = RtServerUnavailable then ''server unavailable''
      else if r = RtBadUserNameOrPassword then ''bad user name or password''
      else if r = RtNotAuthorized then ''not authorized''
      else ''unknown error'')"

section \<open>Constructors and accessors\<close>

definition new_connect ::
  "string \<Rightarrow> bool \<Rightarrow> u16 \<Rightarrow> will option \<Rightarrow> credentials option \<Rightarrow> connect" where
  "new_connect cid clean_session keep_alive wl cr =
     (let flags = 0;
          flags = (if clean_session then flags OR cleanSessionFlag else flags);
          flags = (case wl of
              None \<Rightarrow> flags
            | Some w \<Rightarrow>
                (let flags = flags OR (willFlag OR push_bit 3 (will_qos w))
                 in if will_retain w then flags OR willRetainFlag else flags));
          flags = (case cr of
              None \<Rightarrow> flags
            | Some c \<Rightarrow>
                (let flags = (if length (slice_bytes (cr_password c)) > 0
                              then flags OR passwordFlag else flags)
                 in if length (cr_user c) > 0 then flags OR userNameFlag else flags))
      in \<lparr>client_id = cid, creds = cr, conn_will = wl, conn_keep_alive = keep_alive,
          client_level = 0x4, conn_flags = flags\<rparr>)"

definition clean_session :: "connect \<Rightarrow> bool" where
  "clean_session c \<longleftrightarrow> conn_flags c AND cleanSessionFlag \<noteq> 0"

definition has_password :: "connect \<Rightarrow> bool" where
  "has_password c \<longleftrightarrow> conn_flags c AND passwordFlag \<noteq> 0"

definition has_user_name :: "connect \<Rightarrow> bool" where
  "has_user_name c \<longleftrightarrow> conn_flags c AND userNameFlag \<noteq> 0"

definition has_will :: "connect \<Rightarrow> bool" where
  "has_will c \<longleftrightarrow> conn_flags c AND willFlag \<noteq> 0"

text \<open>A \<open>time.Duration\<close> in nanoseconds; 65535 seconds are far below its 64-bit bound.\<close>

definition keep_alive :: "connect \<Rightarrow> int" where
  "keep_alive c = uint (conn_keep_alive c) * 1000000000"

definition delete_will :: "connect \<Rightarrow> connect" where
  "delete_will c = c\<lparr>conn_flags := conn_flags c AND NOT (willFlag OR willQoS OR willRetainFlag),
                     conn_will := None\<rparr>"

definition will_equals :: "will \<Rightarrow> will \<Rightarrow> bool" where
  "will_equals w ow \<longleftrightarrow> will_retain w = will_retain ow \<and> will_qos w = will_qos ow
     \<and> will_topic w = will_topic ow \<and> will_message w = will_message ow"

definition credentials_equals :: "credentials \<Rightarrow> credentials \<Rightarrow> bool" where
  "credentials_equals c oc \<longleftrightarrow> cr_user c = cr_user oc
     \<and> slice_bytes (cr_password c) = slice_bytes (cr_password oc)"

section \<open>Parser and writer\<close>

definition read_will :: "byte \<Rightarrow> reader \<Rightarrow> go_error + will \<times> reader" where
  "read_will flags r =
     (case read_string r of
        Inl e \<Rightarrow> Inl e
      | Inr (topic, r1) \<Rightarrow>
          (case read_bytes r1 of
             Inl e \<Rightarrow> Inl e
           | Inr (msg, r2) \<Rightarrow>
               Inr (\<lparr>will_topic = topic, will_message = slice_bytes msg,
                     will_qos = drop_bit 3 (flags AND willQoS),
                     will_retain = (flags AND willRetainFlag \<noteq> 0)\<rparr>, r2)))"

definition read_credentials :: "connect \<Rightarrow> reader \<Rightarrow> go_error + credentials \<times> reader" where
  "read_credentials c r =
     (case (if has_user_name c then read_string r else Inr ([], r)) of
        Inl e \<Rightarrow> Inl e
      | Inr (user, r1) \<Rightarrow>
          (case (if has_password c then read_bytes r1 else Inr (None, r1)) of
             Inl e \<Rightarrow> Inl e
           | Inr (pw, r2) \<Rightarrow> Inr (\<lparr>cr_user = user, cr_password = pw\<rparr>, r2)))"

definition read_opt_will :: "connect \<Rightarrow> reader \<Rightarrow> go_error + will option \<times> reader" where
  "read_opt_will c r =
     (if has_will c
      then (case read_will (conn_flags c) r of Inl e \<Rightarrow> Inl e | Inr (w, r) \<Rightarrow> Inr (Some w, r))
      else Inr (None, r))"

definition read_opt_credentials :: "connect \<Rightarrow> reader \<Rightarrow> go_error + credentials option \<times> reader" where
  "read_opt_credentials c r =
     (if conn_flags c AND (userNameFlag OR passwordFlag) \<noteq> 0
      then (case read_credentials c r of Inl e \<Rightarrow> Inl e | Inr (k, r) \<Rightarrow> Inr (Some k, r))
      else Inr (None, r))"

definition parse_connect :: "byte \<Rightarrow> int \<Rightarrow> reader \<Rightarrow> go_error + connect \<times> reader" where
  "parse_connect b pk_len r0 =
     (case read_packet pk_len r0 of Inl e \<Rightarrow> Inl e | Inr (r, r0') \<Rightarrow>
     (case read_string r of Inl e \<Rightarrow> Inl e | Inr (proto, r) \<Rightarrow>
      if proto \<noteq> proto_name
      then Inl (ErrorString (''expected connect packet with protocol name \"MQTT\", got \"''
                             @ proto @ ''\"''))
      else
     (case read_byte r of Inl e \<Rightarrow> Inl e | Inr (level, r) \<Rightarrow>
      if level \<noteq> 0x4 then Inl (RetCode RtUnacceptableProtocolVersion)
      else
     (case read_byte r of Inl e \<Rightarrow> Inl e | Inr (flags, r) \<Rightarrow>
     (case read_uint16 r of Inl e \<Rightarrow> Inl e | Inr (ka, r) \<Rightarrow>
     (case read_string r of Inl e \<Rightarrow> Inl e | Inr (cid, r) \<Rightarrow>
     (let c = \<lparr>client_id = cid, creds = None, conn_will = None, conn_keep_alive = ka,
               client_level = level, conn_flags = flags\<rparr>
      in case read_opt_will c r of Inl e \<Rightarrow> Inl e | Inr (wl, r) \<Rightarrow>
        (case read_opt_credentials c r of Inl e \<Rightarrow> Inl e | Inr (cr, r) \<Rightarrow>
         Inr (c\<lparr>conn_will := wl, creds := cr\<rparr>, r0')))))))))"

text \<open>\<open>deref\<close> is the dereference of a pointer: nil panics.\<close>

definition deref :: "'a option \<Rightarrow> ('a \<Rightarrow> go_error + 'b) \<Rightarrow> go_error + 'b" where
  "deref p f = (case p of
      None \<Rightarrow> Inl (Panic ''invalid memory address or nil pointer dereference'')
    | Some x \<Rightarrow> f x)"

definition connect_len :: "connect \<Rightarrow> go_error + int" where
  "connect_len c =
     (let pk_len = 2 + int (length proto_name) + 1 + 1 + 2 + 2 + int (length (client_id c))
      in case (if has_will c
               then deref (conn_will c) (\<lambda>w. Inr (pk_len + (2 + int (length (will_topic w)))
                       + (2 + int (length (will_message w)))))
               else Inr pk_len) of
           Inl e \<Rightarrow> Inl e
         | Inr pk_len \<Rightarrow>
             (case (if has_user_name c
                    then deref (creds c) (\<lambda>k. Inr (pk_len + (2 + int (length (cr_user k)))))
                    else Inr pk_len) of
                Inl e \<Rightarrow> Inl e
              | Inr pk_len \<Rightarrow>
                  (if has_password c
                   then deref (creds c) (\<lambda>k. Inr (pk_len +
                          (2 + int (length (slice_bytes (cr_password k))))))
                   else Inr pk_len)))"

definition write_connect :: "connect \<Rightarrow> writer \<Rightarrow> go_error + writer" where
  "write_connect c w =
     (case connect_len c of Inl e \<Rightarrow> Inl e | Inr pk_len \<Rightarrow>
     (case write_var_int pk_len (write_u8 TpConnect w) of Inl e \<Rightarrow> Inl e | Inr w \<Rightarrow>
     (let w = write_string proto_name w;
          w = write_u8 (client_level c) w;
          w = write_u8 (conn_flags c) w;
          w = write_u16 (conn_keep_alive c) w;
          w = write_string (client_id c) w
      in case (if has_will c
               then deref (conn_will c) (\<lambda>wl. Inr (write_bytes (will_message wl)
                      (write_string (will_topic wl) w)))
               else Inr w) of
           Inl e \<Rightarrow> Inl e
         | Inr w \<Rightarrow>
             (case (if has_user_name c
                    then deref (creds c) (\<lambda>k. Inr (write_string (cr_user k) w))
                    else Inr w) of
                Inl e \<Rightarrow> Inl e
              | Inr w \<Rightarrow>
                  (if has_password c
                   then deref (creds c) (\<lambda>k. Inr (write_bytes (slice_bytes (cr_password k)) w))
                   else Inr w)))))"

section \<open>Well-formed CONNECT packets\<close>

definition will_body :: "will \<Rightarrow> byte list" where
  "will_body w = str_bytes (will_topic w) @ lp_bytes (will_message w)"

definition credentials_body :: "connect \<Rightarrow> credentials \<Rightarrow> byte list" where
  "credentials_body c k = (if has_user_name c then str_bytes (cr_user k) else [])
     @ (if has_password c then lp_slice_bytes (cr_password k) else [])"

definition connect_body :: "connect \<Rightarrow> byte list" where
  "connect_body c = str_bytes proto_name @ [client_level c, conn_flags c]
     @ u16_bytes (conn_keep_alive c) @ str_bytes (client_id c)
     @ (case conn_will c of None \<Rightarrow> [] | Some w \<Rightarrow> will_body w)
     @ (case creds c of None \<Rightarrow> [] | Some k \<Rightarrow> credentials_body c k)"

text \<open>The flags byte and the optional parts agree, and the strings fit their length prefix.\<close>

definition will_ok :: "byte \<Rightarrow> will \<Rightarrow> bool" where
  "will_ok flags w \<longleftrightarrow> str_ok (will_topic w) \<and> length (will_message w) < 65536
     \<and> will_qos w = drop_bit 3 (flags AND willQoS)
     \<and> will_retain w = (flags AND willRetainFlag \<noteq> 0)"

definition credentials_ok :: "connect \<Rightarrow> credentials \<Rightarrow> bool" where
  "credentials_ok c k \<longleftrightarrow> str_ok (cr_user k) \<and> lp_slice_ok (cr_password k)
     \<and> (\<not> has_user_name c \<longrightarrow> cr_user k = []) \<and> (\<not> has_password c \<longrightarrow> cr_password k = None)"

definition connect_ok :: "connect \<Rightarrow> bool" where
  "connect_ok c \<longleftrightarrow> client_level c = 0x4 \<and> str_ok (client_id c)
     \<and> (has_will c \<longleftrightarrow> conn_will c \<noteq> None) \<and> (\<forall>w. conn_will c = Some w \<longrightarrow> will_ok (conn_flags c) w)
     \<and> ((has_user_name c \<or> has_password c) \<longleftrightarrow> creds c \<noteq> None)
     \<and> (\<forall>k. creds c = Some k \<longrightarrow> credentials_ok c k)"

text \<open>The two credential bits are tested together by the parser.\<close>

lemma credential_bits:
  "conn_flags c AND (userNameFlag OR passwordFlag) \<noteq> 0 \<longleftrightarrow> has_user_name c \<or> has_password c"
  by (auto simp: has_user_name_def has_password_def connect_flag_defs byte_bits)

lemma flag_tests_update [simp]:
  "has_user_name (c\<lparr>conn_will := x, creds := y\<rparr>) = has_user_name c"
  "has_password (c\<lparr>conn_will := x, creds := y\<rparr>) = has_password c"
  "has_will (c\<lparr>conn_will := x, creds := y\<rparr>) = has_will c"
  by (simp_all add: has_user_name_def has_password_def has_will_def)

lemma credentials_body_update [simp]:
  "credentials_body (c\<lparr>conn_will := x, creds := y\<rparr>) k = credentials_body c k"
  "credentials_ok (c\<lparr>conn_will := x, creds := y\<rparr>) k = credentials_ok c k"
  by (simp_all add: credentials_body_def credentials_ok_def)

lemma length_lp_slice_bytes [simp]: "length (lp_slice_bytes sl) = 2 + length (slice_bytes sl)"
  by (simp add: lp_slice_bytes_def)

lemma length_proto_name [simp]: "length proto_name = 4"
  by (simp add: proto_name_def)

lemma connect_len_ok: "connect_ok c \<Longrightarrow> connect_len c = Inr (int (length (connect_body c)))"
  by (cases "conn_will c"; cases "creds c")
    (auto simp: connect_len_def deref_def Let_def connect_body_def connect_ok_def will_body_def
      credentials_body_def)

lemma write_connect_frame:
  assumes "connect_ok c"
  shows "write_connect c w = Inr (w @ frame TpConnect (connect_body c))"
  unfolding write_connect_def connect_len_ok [OF assms] frame_def
  using assms
  by (cases "conn_will c"; cases "creds c")
    (auto simp: writes deref_def connect_body_def connect_ok_def will_body_def
      credentials_body_def lp_slice_bytes_def simp del: length_append)

lemma connect_body_len: "connect_ok c \<Longrightarrow> length (connect_body c) \<le> 0x0FFFFFFF"
  by (cases "conn_will c"; cases "creds c")
    (auto simp: connect_body_def connect_ok_def will_body_def credentials_body_def will_ok_def
      credentials_ok_def str_ok_def lp_slice_ok_def)

lemma read_will_body:
  assumes "will_ok flags w"
  shows "read_will flags (slice_reader (will_body w @ rest)) = Inr (w, slice_reader rest)"
proof -
  let ?sl = "if will_message w = [] then None else Some (will_message w)"
  have "read_bytes (slice_reader (lp_slice_bytes ?sl @ rest)) = Inr (?sl, slice_reader rest)"
    using assms by (intro bytes.slice_enc) (simp add: lp_slice_ok_def will_ok_def)
  moreover have "lp_slice_bytes ?sl = lp_bytes (will_message w)" "slice_bytes ?sl = will_message w"
    by (simp_all add: lp_slice_bytes_def)
  ultimately show ?thesis
    using assms by (simp add: read_will_def will_body_def reads will_ok_def)
qed

lemma read_credentials_body:
  assumes "credentials_ok c k"
  shows "read_credentials c (slice_reader (credentials_body c k)) = Inr (k, slice_reader [])"
  using assms by (auto simp: read_credentials_def credentials_body_def credentials_ok_def reads)

definition opt_will_body :: "will option \<Rightarrow> byte list" where
  "opt_will_body wl = (case wl of None \<Rightarrow> [] | Some w \<Rightarrow> will_body w)"

definition opt_credentials_body :: "connect \<Rightarrow> credentials option \<Rightarrow> byte list" where
  "opt_credentials_body c cr = (case cr of None \<Rightarrow> [] | Some k \<Rightarrow> credentials_body c k)"

definition opt_will_ok :: "connect \<Rightarrow> will option \<Rightarrow> bool" where
  "opt_will_ok c wl \<longleftrightarrow> (has_will c \<longleftrightarrow> wl \<noteq> None) \<and> (\<forall>w. wl = Some w \<longrightarrow> will_ok (conn_flags c) w)"

definition opt_credentials_ok :: "connect \<Rightarrow> credentials option \<Rightarrow> bool" where
  "opt_credentials_ok c cr \<longleftrightarrow> ((has_user_name c \<or> has_password c) \<longleftrightarrow> cr \<noteq> None)
     \<and> (\<forall>k. cr = Some k \<longrightarrow> credentials_ok c k)"

lemma read_opt_will_body:
  "opt_will_ok c wl \<Longrightarrow>
   read_opt_will c (slice_reader (opt_will_body wl @ rest)) = Inr (wl, slice_reader rest)"
  by (cases wl) (auto simp: read_opt_will_def opt_will_body_def opt_will_ok_def read_will_body)

lemma read_opt_credentials_body:
  "opt_credentials_ok c cr \<Longrightarrow>
   read_opt_credentials c (slice_reader (opt_credentials_body c cr)) = Inr (cr, slice_reader [])"
  using credential_bits [of c]
  by (cases cr) (auto simp: read_opt_credentials_def opt_credentials_body_def opt_credentials_ok_def
      read_credentials_body)

text \<open>The packet before its optional parts are filled in behaves like the packet.\<close>

definition bare_connect :: "string \<Rightarrow> u16 \<Rightarrow> byte \<Rightarrow> byte \<Rightarrow> connect" where
  "bare_connect cid ka level flags = \<lparr>client_id = cid, creds = None, conn_will = None,
     conn_keep_alive = ka, client_level = level, conn_flags = flags\<rparr>"

lemma connect_ok_parts:
  "connect_ok (bare_connect cid ka level flags\<lparr>conn_will := wl, creds := cr\<rparr>) \<longleftrightarrow>
   level = 4 \<and> str_ok cid \<and> opt_will_ok (bare_connect cid ka level flags) wl
   \<and> opt_credentials_ok (bare_connect cid ka level flags) cr"
  by (auto simp: connect_ok_def opt_will_ok_def opt_credentials_ok_def) (auto simp: bare_connect_def)

lemma connect_body_parts:
  "connect_body (bare_connect cid ka level flags\<lparr>conn_will := wl, creds := cr\<rparr>) =
   str_bytes proto_name @ [level, flags] @ u16_bytes ka @ str_bytes cid @ opt_will_body wl
   @ opt_credentials_body (bare_connect cid ka level flags) cr"
  by (cases cr) (simp_all add: connect_body_def opt_will_body_def opt_credentials_body_def,
    simp_all add: bare_connect_def)

lemma bare_connect_of:
  assumes "connect_ok c"
  obtains cid ka level flags wl cr where "c = bare_connect cid ka level flags\<lparr>conn_will := wl, creds := cr\<rparr>"
proof -
  have "c = bare_connect (client_id c) (conn_keep_alive c) (client_level c) (conn_flags c)
      \<lparr>conn_will := conn_will c, creds := creds c\<rparr>"
    using assms by (simp add: bare_connect_def connect_ok_def)
  then show thesis by (rule that)
qed

lemma parse_connect_bare:
  "parse_connect b n r0 =
     (case read_packet n r0 of Inl e \<Rightarrow> Inl e | Inr (r, r0') \<Rightarrow>
     (case read_string r of Inl e \<Rightarrow> Inl e | Inr (proto, r) \<Rightarrow>
      if proto \<noteq> proto_name
      then Inl (ErrorString (''expected connect packet with protocol name \"MQTT\", got \"''
                             @ proto @ ''\"''))
      else
     (case read_byte r of Inl e \<Rightarrow> Inl e | Inr (level, r) \<Rightarrow>
      if level \<noteq> 0x4 then Inl (RetCode RtUnacceptableProtocolVersion)
      else
     (case read_byte r of Inl e \<Rightarrow> Inl e | Inr (flags, r) \<Rightarrow>
     (case read_uint16 r of Inl e \<Rightarrow> Inl e | Inr (ka, r) \<Rightarrow>
     (case read_string r of Inl e \<Rightarrow> Inl e | Inr (cid, r) \<Rightarrow>
     (case read_opt_will (bare_connect cid ka level flags) r of Inl e \<Rightarrow> Inl e | Inr (wl, r) \<Rightarrow>
     (case read_opt_credentials (bare_connect cid ka level flags) r of Inl e \<Rightarrow> Inl e | Inr (cr, r) \<Rightarrow>
      Inr (bare_connect cid ka level flags\<lparr>conn_will := wl, creds := cr\<rparr>, r0')))))))))"
  by (simp only: parse_connect_def bare_connect_def Let_def)

lemma parse_connect_body:
  assumes ok: "connect_ok c" and r: "rbuf r = connect_body c @ rest"
    and n: "n = int (length (connect_body c))"
  shows "parse_connect b n r = Inr (c, r\<lparr>rbuf := rest\<rparr>)"
proof -
  obtain cid ka level flags wl cr where c: "c = bare_connect cid ka level flags\<lparr>conn_will := wl, creds := cr\<rparr>"
    using ok by (rule bare_connect_of)
  have rd: "read_packet n r = Inr (slice_reader (connect_body c), r\<lparr>rbuf := rest\<rparr>)"
    using r n by (rule read_packet_append)
  have "str_ok proto_name" by (simp add: str_ok_def)
  then show ?thesis
    using ok unfolding c connect_ok_parts
    by (clarsimp simp: parse_connect_bare rd [unfolded c] connect_body_parts reads read_opt_will_body
        read_opt_credentials_body)
qed

interpretation connect: framed_packet TpConnect write_connect parse_connect
  "\<lambda>_. TpConnect" connect_body connect_ok
  by unfold_locales (auto simp: write_connect_frame parse_connect_body connect_body_len tp_defs)

text \<open>Whatever the parser accepts is well-formed and was spelled out by the packet's bytes.\<close>

lemma read_will_Inr:
  "read_will flags r = Inr (w, r') \<Longrightarrow>
   will_ok flags w \<and> rbuf r = will_body w @ rbuf r' \<and> rsrc r' = rsrc r"
  by (auto simp: read_will_def will_ok_def will_body_def lp_slice_ok_def lp_slice_bytes_def
      dest!: str.enc_rd bytes.enc_rd)

lemma read_credentials_Inr:
  "read_credentials c r = Inr (k, r') \<Longrightarrow>
   credentials_ok c k \<and> rbuf r = credentials_body c k @ rbuf r' \<and> rsrc r' = rsrc r"
  by (auto simp: read_credentials_def credentials_ok_def credentials_body_def str_ok_def
      lp_slice_ok_def dest!: str.enc_rd bytes.enc_rd split: if_splits)

lemma read_opt_will_Inr:
  "read_opt_will c r = Inr (wl, r') \<Longrightarrow>
   opt_will_ok c wl \<and> rbuf r = opt_will_body wl @ rbuf r' \<and> rsrc r' = rsrc r"
  by (auto simp: read_opt_will_def opt_will_ok_def opt_will_body_def dest!: read_will_Inr
      split: if_splits)

lemma read_opt_credentials_Inr:
  "read_opt_credentials c r = Inr (cr, r') \<Longrightarrow>
   opt_credentials_ok c cr \<and> rbuf r = opt_credentials_body c cr @ rbuf r' \<and> rsrc r' = rsrc r"
  using credential_bits [of c]
  by (auto simp: read_opt_credentials_def opt_credentials_ok_def opt_credentials_body_def
      dest!: read_credentials_Inr split: if_splits)

lemma parse_connect_Inr:
  assumes "parse_connect b n r = Inr (c, r')"
  shows "connect_ok c \<and> (\<exists>extra. rbuf r = connect_body c @ extra @ rbuf r')"
proof -
  from assms obtain pr r1 r2 r3 r4 r5 flags ka cid wl r6 cr r7 where
    steps: "read_packet n r = Inr (pr, r')" "read_string pr = Inr (proto_name, r1)"
      "read_byte r1 = Inr (4, r2)" "read_byte r2 = Inr (flags, r3)"
      "read_uint16 r3 = Inr (ka, r4)" "read_string r4 = Inr (cid, r5)"
      "read_opt_will (bare_connect cid ka 4 flags) r5 = Inr (wl, r6)"
      "read_opt_credentials (bare_connect cid ka 4 flags) r6 = Inr (cr, r7)"
    and c: "c = bare_connect cid ka 4 flags\<lparr>conn_will := wl, creds := cr\<rparr>"
    unfolding parse_connect_bare by (auto split: if_splits)
  from read_packet_Inr [OF steps(1)] obtain pk where
    pk: "pr = slice_reader pk" "rbuf r = pk @ rbuf r'" by blast
  have "pk = connect_body c @ rbuf r7"
    using str.enc_rd [OF steps(2)] u8.enc_rd [OF steps(3)] u8.enc_rd [OF steps(4)]
      u16.enc_rd [OF steps(5)] str.enc_rd [OF steps(6)] read_opt_will_Inr [OF steps(7)]
      read_opt_credentials_Inr [OF steps(8)]
    by (simp add: c connect_body_parts pk(1))
  moreover have "connect_ok c"
    using str.enc_rd [OF steps(6)] read_opt_will_Inr [OF steps(7)]
      read_opt_credentials_Inr [OF steps(8)]
    by (simp add: c connect_ok_parts)
  ultimately show ?thesis using pk(2) by auto
qed

section \<open>NewConnect builds well-formed packets\<close>

text \<open>
  The conditions under which the flags byte says all there is: a quality of service of two
  bits, strings and slices below 65536 bytes, and credentials with something in them.
\<close>

definition connect_args_ok :: "string \<Rightarrow> will option \<Rightarrow> credentials option \<Rightarrow> bool" where
  "connect_args_ok cid wl cr \<longleftrightarrow> str_ok cid
     \<and> (\<forall>w. wl = Some w \<longrightarrow> str_ok (will_topic w) \<and> length (will_message w) < 65536 \<and> will_qos w \<le> 3)
     \<and> (\<forall>k. cr = Some k \<longrightarrow> str_ok (cr_user k) \<and> lp_slice_ok (cr_password k)
          \<and> (cr_user k \<noteq> [] \<or> cr_password k \<noteq> None))"

lemma byte_le_3: "(q :: byte) \<le> 3 \<Longrightarrow> q = 0 \<or> q = 1 \<or> q = 2 \<or> q = 3"
proof -
  assume "q \<le> 3"
  then have "unat q = 0 \<or> unat q = 1 \<or> unat q = 2 \<or> unat q = 3" by (auto simp: word_le_nat_alt)
  then show ?thesis by (simp add: word_unat_eq_iff)
qed

definition flag_union :: "bool \<Rightarrow> bool \<Rightarrow> byte \<Rightarrow> bool \<Rightarrow> bool \<Rightarrow> bool \<Rightarrow> byte" where
  "flag_union cs hw q rt pw un =
     (if cs then 0x02 else 0) OR (if hw then 0x04 OR push_bit 3 q else 0)
     OR (if rt then 0x20 else 0) OR (if pw then 0x40 else 0) OR (if un then 0x80 else 0)"

lemma flag_union_bits:
  assumes "q \<le> 3"
  shows "flag_union cs hw q rt pw un AND 0x80 = 0 \<longleftrightarrow> \<not> un"
    and "flag_union cs hw q rt pw un AND 0x40 = 0 \<longleftrightarrow> \<not> pw"
    and "flag_union cs hw q rt pw un AND 0x20 = 0 \<longleftrightarrow> \<not> rt"
    and "flag_union cs hw q rt pw un AND 0x04 = 0 \<longleftrightarrow> \<not> hw"
    and "hw \<Longrightarrow> drop_bit 3 (flag_union cs hw q rt pw un) AND 3 = q"
    and "flag_union cs hw q rt pw un AND 0x02 = 0 \<longleftrightarrow> \<not> cs"
  using byte_le_3 [OF assms]
  by (elim disjE; cases cs; cases hw; cases rt; cases pw; cases un; simp add: flag_union_def)+

lemma new_connect_flags:
  "conn_flags (new_connect cid cs ka wl cr) =
     flag_union cs (wl \<noteq> None) (case wl of None \<Rightarrow> 0 | Some w \<Rightarrow> will_qos w)
       (case wl of None \<Rightarrow> False | Some w \<Rightarrow> will_retain w)
       (case cr of None \<Rightarrow> False | Some k \<Rightarrow> slice_bytes (cr_password k) \<noteq> [])
       (case cr of None \<Rightarrow> False | Some k \<Rightarrow> cr_user k \<noteq> [])"
  by (simp add: new_connect_def Let_def flag_union_def connect_flag_defs or.assoc split: option.splits)

lemma new_connect_fields [simp]:
  "client_id (new_connect cid cs ka wl cr) = cid" "creds (new_connect cid cs ka wl cr) = cr"
  "conn_will (new_connect cid cs ka wl cr) = wl" "client_level (new_connect cid cs ka wl cr) = 4"
  "conn_keep_alive (new_connect cid cs ka wl cr) = ka"
  by (simp_all add: new_connect_def Let_def)

lemma new_connect_ok:
  "connect_args_ok cid wl cr \<Longrightarrow> connect_ok (new_connect cid cs ka wl cr)"
  by (cases wl; cases cr)
    (auto simp: connect_ok_def has_will_def has_user_name_def has_password_def connect_flag_defs
      new_connect_flags flag_union_bits connect_args_ok_def will_ok_def credentials_ok_def
      lp_slice_ok_def slice_bytes_Nil_iff split: option.splits)


section \<open>CONNACK and DISCONNECT\<close>

record conn_ack =
  ack_flags :: byte
  ack_return_code :: byte

definition new_conn_ack :: "bool \<Rightarrow> byte \<Rightarrow> conn_ack" where
  "new_conn_ack session_present return_code =
     (let flags = 0x00;
          flags = (if session_present then flags OR 0x01 else flags)
      in \<lparr>ack_flags = flags, ack_return_code = return_code\<rparr>)"

definition parse_conn_ack :: "byte \<Rightarrow> int \<Rightarrow> reader \<Rightarrow> go_error + conn_ack \<times> reader" where
  "parse_conn_ack b pk_len r =
     (if pk_len \<noteq> 2 then Inl (ErrorString ''malformed CONNACK'')
      else case read_exact 2 r of
          Inl e \<Rightarrow> Inl e
        | Inr (bs, r1) \<Rightarrow> Inr (\<lparr>ack_flags = bs ! 0, ack_return_code = bs ! 1\<rparr>, r1))"

definition write_conn_ack :: "conn_ack \<Rightarrow> writer \<Rightarrow> go_error + writer" where
  "write_conn_ack a w =
     Inr (write_u8 (ack_return_code a) (write_u8 (ack_flags a) (write_u8 2 (write_u8 TpConnAck w))))"

definition write_disconnect :: "writer \<Rightarrow> go_error + writer" where
  "write_disconnect w = Inr (write_u8 0 (write_u8 TpDisconnect w))"

interpretation conn_ack: framed_packet TpConnAck write_conn_ack parse_conn_ack
  "\<lambda>_. TpConnAck" "\<lambda>a. [ack_flags a, ack_return_code a]" "\<lambda>_. True"
  by unfold_locales
    (auto simp: write_conn_ack_def parse_conn_ack_def writes frame_def var_int_bytes.simps tp_defs
      read_exact_def)

section \<open>Properties\<close>

text \<open>C24: A CONNECT packet is accepted only with protocol level 4, with a will exactly if the will flag
  is set, whose quality of service and retain bit are those of the flags, and with credentials
  exactly if one of their flags is set; its encoding begins the body that was read.\<close>

theorem connect_accepted:
  assumes "parse_connect b n r = Inr (c, r')"
  shows "client_level c = 4 \<and> (has_will c \<longleftrightarrow> conn_will c \<noteq> None)
    \<and> ((has_user_name c \<or> has_password c) \<longleftrightarrow> creds c \<noteq> None)
    \<and> (conn_will c = Some w \<longrightarrow> will_ok (conn_flags c) w)
    \<and> (\<exists>extra. rbuf r = connect_body c @ extra @ rbuf r')"
  using parse_connect_Inr [OF assms] by (simp add: connect_ok_def)

theorem connect_accepted_witness:
  "\<exists>c. parse_connect TpConnect (int (length (connect_body c))) (slice_reader (connect_body c)) = Inr (c, slice_reader [])
    \<and> conn_will c = Some \<lparr>will_topic = ''t'', will_message = [1], will_qos = 1, will_retain = True\<rparr>
    \<and> has_will c"
proof -
  let ?w = "\<lparr>will_topic = ''t'', will_message = [1], will_qos = 1, will_retain = True\<rparr>"
  let ?c = "new_connect ''me'' True 30 (Some ?w) None"
  have "connect_ok ?c" by (rule new_connect_ok) (simp add: connect_args_ok_def str_ok_def)
  then have p: "parse_connect TpConnect (int (length (connect_body ?c))) (slice_reader (connect_body ?c)) = Inr (?c, slice_reader [])"
    using connect.parse_body [of ?c "slice_reader (connect_body ?c)" "[]"] by simp
  have w: "conn_will ?c = Some ?w" by (simp add: new_connect_def Let_def)
  with connect_accepted [OF p] have "has_will ?c" by simp
  with p w show ?thesis by blast
qed

text \<open>The packet that \<open>NewConnect\<close> builds from arguments that fit their length prefixes is written
  and parsed back to itself.\<close>

theorem new_connect_round_trip:
  assumes "connect_args_ok cid wl cr"
  shows "\<exists>body. write_connect (new_connect cid cs ka wl cr) [] = Inr (frame TpConnect body)
    \<and> parse_connect TpConnect (int (length body)) (slice_reader (body @ rest))
        = Inr (new_connect cid cs ka wl cr, slice_reader rest)"
proof -
  have ok: "connect_ok (new_connect cid cs ka wl cr)" using assms by (rule new_connect_ok)
  show ?thesis
    using connect.wr_frame [OF ok, of "[]"]
      connect.parse_body [OF ok, of "slice_reader (connect_body (new_connect cid cs ka wl cr) @ rest)" rest]
    by auto
qed

theorem new_connect_round_trip_witness:
  "\<exists>body. write_connect (new_connect ''me'' True 30 None (Some \<lparr>cr_user = ''u'', cr_password = Some [1, 2]\<rparr>)) []
      = Inr (frame TpConnect body)
    \<and> parse_connect TpConnect (int (length body)) (slice_reader (body @ [5]))
      = Inr (new_connect ''me'' True 30 None (Some \<lparr>cr_user = ''u'', cr_password = Some [1, 2]\<rparr>), slice_reader [5])"
  by (rule new_connect_round_trip) (simp add: connect_args_ok_def str_ok_def lp_slice_ok_def)

end
