(* ===== verification/Packet_Subscribe.thy ===== *)
theory Packet_Subscribe
  imports Packet_Frame
begin

text \<open>
  \<open>mqtt/pkg/subscribe.go\<close> and \<open>unsubscribe.go\<close>: the SUBSCRIBE and UNSUBSCRIBE packets with
  their loops over the topics of a packet, SUBACK and UNSUBACK.
\<close>

section \<open>SUBSCRIBE\<close>

record topic =
  topic_name :: string
  topic_qos :: byte

record subscribe =
  sub_id :: u16
  sub_topics :: "topic list"

definition fixedSubscribeFlags :: byte where "fixedSubscribeFlags = 2"

text \<open>One turn of the loop of \<open>ParseSubscribe\<close>.\<close>

definition read_topic :: "reader \<Rightarrow> go_error + topic \<times> reader" where
  "read_topic r =
     (case read_string r of
        Inl e \<Rightarrow> Inl e
      | Inr (nm, r1) \<Rightarrow>
          (case read_byte r1 of
             Inl e \<Rightarrow> Inl e
           | Inr (q, r2) \<Rightarrow>
               if q > 2 then Inl (ErrorString ''malformed subscribed topic QoS'')
               else Inr (\<lparr>topic_name = nm, topic_qos = q\<rparr>, r2)))"

definition topic_bytes :: "topic \<Rightarrow> byte list" where
  "topic_bytes t = str_bytes (topic_name t) @ [topic_qos t]"

definition topic_ok :: "topic \<Rightarrow> bool" where
  "topic_ok t \<longleftrightarrow> str_ok (topic_name t) \<and> topic_qos t \<le> 2"

lemma read_topic_canonical: "canonical_codec topic_bytes read_topic topic_ok"
proof unfold_locales
  fix t rest and r :: reader
  assume ok: "topic_ok t" and r: "rbuf r = topic_bytes t @ rest"
  have "read_string r = Inr (topic_name t, r\<lparr>rbuf := topic_qos t # rest\<rparr>)"
    using ok r by (intro str.rd_enc) (simp_all add: topic_ok_def topic_bytes_def)
  with ok show "read_topic r = Inr (t, r\<lparr>rbuf := rest\<rparr>)"
    by (auto simp: read_topic_def topic_ok_def)
next
  fix r t r'
  assume "read_topic r = Inr (t, r')"
  then show "topic_ok t \<and> rbuf r = topic_bytes t @ rbuf r' \<and> rsrc r' = rsrc r"
    by (auto simp: read_topic_def topic_ok_def topic_bytes_def dest!: str.enc_rd u8.enc_rd
        split: if_splits)
qed

interpretation topic: canonical_codec topic_bytes read_topic topic_ok
  by (rule read_topic_canonical)

lemma topic_bytes_nonempty [simp]: "topic_bytes t \<noteq> []"
  by (simp add: topic_bytes_def)

lemma topic_shrinks: "read_topic r = Inr (t, r') \<Longrightarrow> length (rbuf r') < length (rbuf r)"
  using topic.rd_shrinks [of r t r'] by (simp add: topic_bytes_def)

function subscribe_topics :: "topic list \<Rightarrow> reader \<Rightarrow> go_error + topic list" where
  "subscribe_topics acc r =
     (case reader_len r of
        Inl e \<Rightarrow> Inl e
      | Inr n \<Rightarrow>
          if n > 0
          then (case read_topic r of
                  Inl e \<Rightarrow> Inl e
                | Inr (t, r1) \<Rightarrow> subscribe_topics (acc @ [t]) r1)
          else Inr acc)"
  by pat_completeness auto
termination
  by (relation "measure (\<lambda>(acc, r). length (rbuf r))") (auto dest: topic_shrinks)

declare subscribe_topics.simps [simp del]

interpretation topics: item_loop topic_bytes read_topic topic_ok subscribe_topics
  by unfold_locales (auto simp: subscribe_topics.simps [of _ "_ :: reader"])

definition parse_subscribe :: "byte \<Rightarrow> int \<Rightarrow> reader \<Rightarrow> go_error + subscribe \<times> reader" where
  "parse_subscribe b pk_len r0 =
     (if b AND 0xf \<noteq> fixedSubscribeFlags then Inl (ErrorString ''malformed subscribe header'')
      else case read_packet pk_len r0 of
          Inl e \<Rightarrow> Inl e
        | Inr (r, r0') \<Rightarrow>
            (case read_uint16 r of
               Inl e \<Rightarrow> Inl e
             | Inr (i, r1) \<Rightarrow>
                 (case subscribe_topics [] r1 of
                    Inl e \<Rightarrow> Inl e
                  | Inr ts \<Rightarrow> Inr (\<lparr>sub_id = i, sub_topics = ts\<rparr>, r0'))))"

definition write_subscribe :: "subscribe \<Rightarrow> writer \<Rightarrow> go_error + writer" where
  "write_subscribe s w =
     (let pk_len = fold (\<lambda>t n. n + (3 + int (length (topic_name t)))) (sub_topics s) 2
      in case write_var_int pk_len (write_u8 (TpSubscribe OR fixedSubscribeFlags) w) of
           Inl e \<Rightarrow> Inl e
         | Inr w \<Rightarrow>
             Inr (fold (\<lambda>t w. write_u8 (topic_qos t) (write_string (topic_name t) w))
                    (sub_topics s) (write_u16 (sub_id s) w)))"

definition subscribe_body :: "subscribe \<Rightarrow> byte list" where
  "subscribe_body s = u16_bytes (sub_id s) @ concat (map topic_bytes (sub_topics s))"

definition subscribe_ok :: "subscribe \<Rightarrow> bool" where
  "subscribe_ok s \<longleftrightarrow> (\<forall>t \<in> set (sub_topics s). topic_ok t) \<and> length (subscribe_body s) \<le> 0x0FFFFFFF"

lemma fold_write_items:
  assumes "\<And>x w. f x w = w @ enc x"
  shows "fold f xs w = w @ concat (map enc xs)"
  by (induction xs arbitrary: w) (simp_all add: assms)

lemma fold_add_lengths:
  assumes "\<And>x n. f x n = n + int (length (enc x))"
  shows "fold f xs n = n + int (length (concat (map enc xs)))"
  by (induction xs arbitrary: n) (simp_all add: assms)

lemma write_subscribe_frame:
  "write_subscribe s w = Inr (w @ frame (TpSubscribe OR fixedSubscribeFlags) (subscribe_body s))"
proof -
  have "fold (\<lambda>t n. n + (3 + int (length (topic_name t)))) (sub_topics s) 2
      = 2 + int (length (concat (map topic_bytes (sub_topics s))))"
    by (rule fold_add_lengths) (simp add: topic_bytes_def)
  then have len: "fold (\<lambda>t n. n + (3 + int (length (topic_name t)))) (sub_topics s) 2
      = int (length (subscribe_body s))"
    by (simp add: subscribe_body_def)
  have items: "fold (\<lambda>t w. w @ str_bytes (topic_name t) @ [topic_qos t]) (sub_topics s) w'
      = w' @ concat (map topic_bytes (sub_topics s))" for w'
    by (rule fold_write_items) (simp add: topic_bytes_def)
  show ?thesis
    unfolding write_subscribe_def Let_def len write_var_int_of_nat
    by (simp add: items writes frame_def subscribe_body_def del: length_append)
qed

lemma parse_subscribe_body:
  assumes "subscribe_ok s" "rbuf r = subscribe_body s @ rest"
    and "b AND 0xf = fixedSubscribeFlags" "n = int (length (subscribe_body s))"
  shows "parse_subscribe b n r = Inr (s, r\<lparr>rbuf := rest\<rparr>)"
proof -
  have rd: "read_packet n r = Inr (slice_reader (subscribe_body s), r\<lparr>rbuf := rest\<rparr>)"
    using assms(2,4) by (rule read_packet_append)
  have "subscribe_topics [] (slice_reader (concat (map topic_bytes (sub_topics s))))
      = Inr ([] @ sub_topics s)"
    using assms(1) by (intro topics.loop_items) (simp_all add: subscribe_ok_def)
  then show ?thesis
    by (simp add: parse_subscribe_def assms(3) rd subscribe_body_def reads)
qed

lemma parse_subscribe_Inr:
  assumes "parse_subscribe b n r = Inr (s, r')"
  shows "(\<forall>t \<in> set (sub_topics s). topic_ok t) \<and> b AND 0xf = fixedSubscribeFlags
    \<and> rbuf r = subscribe_body s @ rbuf r' \<and> n = int (length (subscribe_body s))"
proof -
  from assms obtain pr i r1 ts where
    steps: "read_packet n r = Inr (pr, r')" "read_uint16 pr = Inr (i, r1)"
      "subscribe_topics [] r1 = Inr ts" "s = \<lparr>sub_id = i, sub_topics = ts\<rparr>"
    and b: "b AND 0xf = fixedSubscribeFlags"
    by (auto simp: parse_subscribe_def split: if_splits)
  from read_packet_Inr [OF steps(1)] obtain pk where
    pk: "pr = slice_reader pk" "rbuf r = pk @ rbuf r'" "n = int (length pk)" by blast
  have i: "pk = u16_bytes i @ rbuf r1" "rsrc r1 = Slice"
    using u16.enc_rd [OF steps(2)] pk(1) by auto
  from topics.loop_parsed [OF steps(3) i(2)]
  have ts: "rbuf r1 = concat (map topic_bytes ts)" "\<forall>t \<in> set ts. topic_ok t" by auto
  have "pk = subscribe_body s" unfolding i(1) ts(1) by (simp add: subscribe_body_def steps(4))
  with pk ts(2) b show ?thesis by (simp add: steps(4))
qed

lemma subscribe_header:
  "(TpSubscribe OR fixedSubscribeFlags) AND 0xf = fixedSubscribeFlags"
  "(TpSubscribe OR fixedSubscribeFlags) AND TpMask = TpSubscribe"
  by (simp_all add: tp_defs fixedSubscribeFlags_def)

interpretation subscribe: framed_packet TpSubscribe write_subscribe parse_subscribe
  "\<lambda>_. TpSubscribe OR fixedSubscribeFlags" subscribe_body subscribe_ok
  by unfold_locales
    (auto simp: write_subscribe_frame subscribe_header subscribe_ok_def intro!: parse_subscribe_body)

section \<open>SUBACK\<close>

record sub_ack =
  sub_ack_id :: u16
  topic_returns :: "byte list"

definition parse_sub_ack :: "byte \<Rightarrow> int \<Rightarrow> reader \<Rightarrow> go_error + sub_ack \<times> reader" where
  "parse_sub_ack b pk_len r0 =
     (case read_packet pk_len r0 of
        Inl e \<Rightarrow> Inl e
      | Inr (r, r0') \<Rightarrow>
          (case read_uint16 r of
             Inl e \<Rightarrow> Inl e
           | Inr (i, r1) \<Rightarrow>
               (case read_exact (pk_len - 2) r1 of
                  Inl e \<Rightarrow> Inl e
                | Inr (rs, r2) \<Rightarrow> Inr (\<lparr>sub_ack_id = i, topic_returns = rs\<rparr>, r0'))))"

definition write_sub_ack :: "sub_ack \<Rightarrow> writer \<Rightarrow> go_error + writer" where
  "write_sub_ack s w =
     (case write_var_int (2 + int (length (topic_returns s))) (write_u8 TpSubAck w) of
        Inl e \<Rightarrow> Inl e
      | Inr w \<Rightarrow> Inr (write_raw (topic_returns s) (write_u16 (sub_ack_id s) w)))"

definition sub_ack_body :: "sub_ack \<Rightarrow> byte list" where
  "sub_ack_body s = u16_bytes (sub_ack_id s) @ topic_returns s"

lemma write_sub_ack_frame: "write_sub_ack s w = Inr (w @ frame TpSubAck (sub_ack_body s))"
proof -
  have len: "2 + int (length (topic_returns s)) = int (length (sub_ack_body s))"
    by (simp add: sub_ack_body_def)
  show ?thesis
    unfolding write_sub_ack_def len write_var_int_of_nat
    by (simp add: writes frame_def sub_ack_body_def del: length_append)
qed

lemma parse_sub_ack_body:
  assumes "rbuf r = sub_ack_body s @ rest" "n = int (length (sub_ack_body s))"
  shows "parse_sub_ack b n r = Inr (s, r\<lparr>rbuf := rest\<rparr>)"
proof -
  have rd: "read_packet n r = Inr (slice_reader (sub_ack_body s), r\<lparr>rbuf := rest\<rparr>)"
    using assms by (rule read_packet_append)
  have "read_exact (n - 2) (slice_reader (topic_returns s)) = Inr (topic_returns s, slice_reader [])"
    using assms(2) by (simp add: sub_ack_body_def read_exact_def)
  then show ?thesis by (simp add: parse_sub_ack_def rd sub_ack_body_def reads)
qed

interpretation sub_ack: framed_packet TpSubAck write_sub_ack parse_sub_ack
  "\<lambda>_. TpSubAck" sub_ack_body "\<lambda>s. length (topic_returns s) \<le> 0x0FFFFFFD"
  by unfold_locales (auto simp: write_sub_ack_frame parse_sub_ack_body sub_ack_body_def tp_defs)

section \<open>UNSUBSCRIBE and UNSUBACK\<close>

record unsubscribe =
  unsub_id :: u16
  unsub_topics :: "string list"

lemma string_shrinks: "read_string r = Inr (s, r') \<Longrightarrow> length (rbuf r') < length (rbuf r)"
  using str.rd_shrinks [of r s r'] by simp

function unsubscribe_topics :: "string list \<Rightarrow> reader \<Rightarrow> go_error + string list" where
  "unsubscribe_topics acc r =
     (case reader_len r of
        Inl e \<Rightarrow> Inl e
      | Inr n \<Rightarrow>
          if n > 0
          then (case read_string r of
                  Inl e \<Rightarrow> Inl e
                | Inr (nm, r1) \<Rightarrow> unsubscribe_topics (acc @ [nm]) r1)
          else Inr acc)"
  by pat_completeness auto
termination
  by (relation "measure (\<lambda>(acc, r). length (rbuf r))") (auto dest: string_shrinks)

declare unsubscribe_topics.simps [simp del]

lemma str_bytes_nonempty [simp]: "str_bytes s \<noteq> []"
  by (simp add: str_bytes_def lp_bytes_def u16_bytes_def)

interpretation topic_names: item_loop str_bytes read_string str_ok unsubscribe_topics
  by unfold_locales (auto simp: unsubscribe_topics.simps [of _ "_ :: reader"])

definition parse_unsubscribe :: "byte \<Rightarrow> int \<Rightarrow> reader \<Rightarrow> go_error + unsubscribe \<times> reader" where
  "parse_unsubscribe b pk_len r0 =
     (if b AND 0xf \<noteq> 2 then Inl (ErrorString ''malformed unsubscribe header'')
      else case read_packet pk_len r0 of
          Inl e \<Rightarrow> Inl e
        | Inr (r, r0') \<Rightarrow>
            (case read_uint16 r of
               Inl e \<Rightarrow> Inl e
             | Inr (i, r1) \<Rightarrow>
                 (case unsubscribe_topics [] r1 of
                    Inl e \<Rightarrow> Inl e
                  | Inr ts \<Rightarrow> Inr (\<lparr>unsub_id = i, unsub_topics = ts\<rparr>, r0'))))"

definition write_unsubscribe :: "unsubscribe \<Rightarrow> writer \<Rightarrow> go_error + writer" where
  "write_unsubscribe u w =
     (let pk_len = fold (\<lambda>t n. n + (2 + int (length t))) (unsub_topics u) 2
      in case write_var_int pk_len (write_u8 (TpUnsubscribe OR 2) w) of
           Inl e \<Rightarrow> Inl e
         | Inr w \<Rightarrow> Inr (fold write_string (unsub_topics u) (write_u16 (unsub_id u) w)))"

definition unsubscribe_body :: "unsubscribe \<Rightarrow> byte list" where
  "unsubscribe_body u = u16_bytes (unsub_id u) @ concat (map str_bytes (unsub_topics u))"

definition unsubscribe_ok :: "unsubscribe \<Rightarrow> bool" where
  "unsubscribe_ok u \<longleftrightarrow> (\<forall>t \<in> set (unsub_topics u). str_ok t)
     \<and> length (unsubscribe_body u) \<le> 0x0FFFFFFF"

lemma write_unsubscribe_frame:
  "write_unsubscribe u w = Inr (w @ frame (TpUnsubscribe OR 2) (unsubscribe_body u))"
proof -
  have "fold (\<lambda>t n. n + (2 + int (length t))) (unsub_topics u) 2
      = 2 + int (length (concat (map str_bytes (unsub_topics u))))"
    by (rule fold_add_lengths) simp
  then have len: "fold (\<lambda>t n. n + (2 + int (length t))) (unsub_topics u) 2
      = int (length (unsubscribe_body u))"
    by (simp add: unsubscribe_body_def)
  have items: "fold write_string (unsub_topics u) w' = w' @ concat (map str_bytes (unsub_topics u))"
    for w' by (rule fold_write_items) (rule writes)
  show ?thesis
    unfolding write_unsubscribe_def Let_def len write_var_int_of_nat
    by (simp add: items writes frame_def unsubscribe_body_def del: length_append)
qed

lemma parse_unsubscribe_body:
  assumes "unsubscribe_ok u" "rbuf r = unsubscribe_body u @ rest"
    and "b AND 0xf = 2" "n = int (length (unsubscribe_body u))"
  shows "parse_unsubscribe b n r = Inr (u, r\<lparr>rbuf := rest\<rparr>)"
proof -
  have rd: "read_packet n r = Inr (slice_reader (unsubscribe_body u), r\<lparr>rbuf := rest\<rparr>)"
    using assms(2,4) by (rule read_packet_append)
  have "unsubscribe_topics [] (slice_reader (concat (map str_bytes (unsub_topics u))))
      = Inr ([] @ unsub_topics u)"
    using assms(1) by (intro topic_names.loop_items) (simp_all add: unsubscribe_ok_def)
  then show ?thesis
    by (simp add: parse_unsubscribe_def assms(3) rd unsubscribe_body_def reads)
qed

interpretation unsubscribe: framed_packet TpUnsubscribe write_unsubscribe parse_unsubscribe
  "\<lambda>_. TpUnsubscribe OR 2" unsubscribe_body unsubscribe_ok
  by unfold_locales
    (auto simp: write_unsubscribe_frame unsubscribe_ok_def tp_defs intro!: parse_unsubscribe_body)

definition parse_unsub_ack :: "byte \<Rightarrow> int \<Rightarrow> reader \<Rightarrow> go_error + u16 \<times> reader" where
  "parse_unsub_ack b pk_len r =
     (if pk_len \<noteq> 2 then Inl (ErrorString ''malformed UNSUBACK'') else read_uint16 r)"

definition write_unsub_ack :: "u16 \<Rightarrow> writer \<Rightarrow> go_error + writer" where
  "write_unsub_ack u w = Inr (write_u16 u (write_u8 2 (write_u8 TpUnsubAck w)))"

interpretation unsub_ack: framed_packet TpUnsubAck write_unsub_ack parse_unsub_ack
  "\<lambda>_. TpUnsubAck" u16_bytes "\<lambda>_. True"
  by unfold_locales (auto simp: parse_unsub_ack_def write_unsub_ack_def writes frame_def
      var_int_bytes.simps u16.rd_enc tp_defs)

section \<open>Properties\<close>

text \<open>A SUBSCRIBE packet is accepted only with the reserved flags of the standard and with a
  quality of service of at most 2 for every topic, and its body is exactly the encoding of what
  was parsed.\<close>

theorem subscribe_parse_exact:
  assumes "parse_subscribe b n r = Inr (s, r')"
  shows "b AND 0xf = 2 \<and> list_all (\<lambda>t. topic_qos t \<le> 2) (sub_topics s)
    \<and> rbuf r = subscribe_body s @ rbuf r' \<and> n = int (length (subscribe_body s))"
  using parse_subscribe_Inr [OF assms]
  by (auto simp: fixedSubscribeFlags_def list_all_iff topic_ok_def)

theorem subscribe_parse_exact_witness:
  "\<exists>s. parse_subscribe 0x82 (int (length (subscribe_body s))) (slice_reader (subscribe_body s)) = Inr (s, slice_reader [])
    \<and> sub_topics s = [\<lparr>topic_name = ''a'', topic_qos = 1\<rparr>, \<lparr>topic_name = ''b/#'', topic_qos = 2\<rparr>]
    \<and> list_all (\<lambda>t. topic_qos t \<le> 2) (sub_topics s)"
proof -
  let ?s = "\<lparr>sub_id = 9, sub_topics = [\<lparr>topic_name = ''a'', topic_qos = 1\<rparr>, \<lparr>topic_name = ''b/#'', topic_qos = 2\<rparr>]\<rparr>"
  have "subscribe_ok ?s" by (simp add: subscribe_ok_def topic_ok_def str_ok_def subscribe_body_def topic_bytes_def)
  then have p: "parse_subscribe 0x82 (int (length (subscribe_body ?s))) (slice_reader (subscribe_body ?s)) = Inr (?s, slice_reader [])"
    using subscribe.parse_body [of ?s "slice_reader (subscribe_body ?s)" "[]"]
    by (simp add: tp_defs fixedSubscribeFlags_def)
  from subscribe_parse_exact [OF p] p show ?thesis by (intro exI [of _ ?s]) simp
qed

end
