(* ===== verification/Decimal.thy ===== *)
theory Decimal
  imports Bridge_Prelude
begin

text \<open>
  The decimal conversions of the Go standard library that the program uses: printing an
  integer (\<open>strconv.Itoa\<close>, the verb \<open>%d\<close>) and reading one (\<open>strconv.Atoi\<close>: an optional sign,
  at least one digit, a value of 64 bits).
\<close>

definition digit_char :: "nat \<Rightarrow> char" where
  "digit_char d = char_of (48 + d)"

definition char_digit :: "char \<Rightarrow> nat option" where
  "char_digit c = (let k = of_char c :: nat in if 48 \<le> k \<and> k \<le> 57 then Some (k - 48) else None)"

fun itoa_nat :: "nat \<Rightarrow> string" where
  "itoa_nat n = (if n < 10 then [digit_char n] else itoa_nat (n div 10) @ [digit_char (n mod 10)])"

declare itoa_nat.simps [simp del]

definition itoa :: "int \<Rightarrow> string" where
  "itoa i = (if i < 0 then CHR ''-'' # itoa_nat (nat (- i)) else itoa_nat (nat i))"

fun digits_value :: "nat \<Rightarrow> string \<Rightarrow> nat option" where
  "digits_value v [] = Some v"
| "digits_value v (c # cs) =
     (case char_digit c of None \<Rightarrow> None | Some d \<Rightarrow> digits_value (10 * v + d) cs)"

definition atoi :: "string \<Rightarrow> int option" where
  "atoi s =
     (let (neg, ds) = (case s of
            [] \<Rightarrow> (False, [])
          | c # cs \<Rightarrow> if c = CHR ''-'' then (True, cs)
                      else if c = CHR ''+'' then (False, cs) else (False, s))
      in if ds = [] then None
         else case digits_value 0 ds of
             None \<Rightarrow> None
           | Some v \<Rightarrow>
               (let i = (if neg then - int v else int v)
                in if - (2 ^ 63) \<le> i \<and> i < 2 ^ 63 then Some i else None))"

lemma char_digit_char [simp]: "d < 10 \<Longrightarrow> char_digit (digit_char d) = Some d"
  by (simp add: char_digit_def digit_char_def)

lemma digits_value_append:
  "digits_value v (s @ t) = (case digits_value v s of None \<Rightarrow> None | Some u \<Rightarrow> digits_value u t)"
  by (induction v s rule: digits_value.induct) (auto split: option.splits)

lemma itoa_nat_nonempty [simp]: "itoa_nat n \<noteq> []"
  by (subst itoa_nat.simps) simp

lemma digits_value_itoa_nat: "digits_value 0 (itoa_nat n) = Some n"
proof (induction n rule: itoa_nat.induct)
  case (1 n)
  then show ?case
    by (cases "n < 10") (simp_all add: itoa_nat.simps [of n] digits_value_append)
qed

lemma itoa_nat_digits: "c \<in> set (itoa_nat n) \<Longrightarrow> 48 \<le> (of_char c :: nat) \<and> (of_char c :: nat) \<le> 57"
proof (induction n rule: itoa_nat.induct)
  case (1 n)
  have "n mod 10 < 10" by simp
  with 1 show ?case
    by (subst (asm) (2) itoa_nat.simps) (auto simp: digit_char_def split: if_splits)
qed

lemma sign_chars: "c \<in> {CHR ''-'', CHR ''+'', CHR ''.''} \<Longrightarrow> (of_char c :: nat) < 48"
  by (elim insertE emptyE; hypsubst; simp)

lemma itoa_nat_not_sign:
  assumes "c \<in> set (itoa_nat n)"
  shows "c \<notin> {CHR ''-'', CHR ''+'', CHR ''.''}"
proof
  assume "c \<in> {CHR ''-'', CHR ''+'', CHR ''.''}"
  then have "(of_char c :: nat) < 48" by (rule sign_chars)
  moreover have "48 \<le> (of_char c :: nat)" using itoa_nat_digits [OF assms] by (rule conjunct1)
  ultimately show False by (rule leD [THEN notE, rotated])
qed

lemma atoi_itoa:
  assumes "- (2 ^ 63) \<le> i" "i < 2 ^ 63"
  shows "atoi (itoa i) = Some i"
proof (cases "i < 0")
  case True
  with assms show ?thesis by (simp add: itoa_def atoi_def digits_value_itoa_nat)
next
  case False
  obtain c cs where s: "itoa_nat (nat i) = c # cs" by (meson itoa_nat_nonempty neq_Nil_conv)
  have "c \<noteq> CHR ''-''" "c \<noteq> CHR ''+''"
    using itoa_nat_not_sign [of c "nat i"] s by simp_all
  with False assms s digits_value_itoa_nat [of "nat i"] show ?thesis
    by (simp add: itoa_def atoi_def)
qed

lemma inj_itoa_nat: "itoa_nat m = itoa_nat n \<Longrightarrow> m = n"
  by (metis digits_value_itoa_nat option.inject)

lemma itoa_uint: "itoa (uint w) = itoa_nat (unat w)"
  by (simp add: itoa_def)

end
