(* ===== verification/Packet.thy ===== *)
theory Packet
  imports Packet_Publish Packet_Connect Packet_Subscribe Decimal
begin

text \<open>
  All control packets as one type: the dynamic types behind the Go interface \<open>Packet\<close>, the
  writer dispatch of \<open>p.Write(w)\<close>, and the complete parser of \<open>test/packet/parse.go\<close> that the
  tests of the program read packets with.  \<open>ping.go\<close> is here: PINGREQ, PINGRESP and
  DISCONNECT are singletons without a body.
\<close>

datatype packet =
    PConnect connect
  | PConnAck conn_ack
  | PPublish publish
  | PPubAck u16
  | PPubRec u16
  | PPubRel u16
  | PPubComp u16
  | PSubscribe subscribe
  | PSubAck sub_ack
  | PUnsubscribe unsubscribe
  | PUnsubAck u16
  | PPingRequest
  | PPingResponse
  | PDisconnect

definition write_ping_request :: "writer \<Rightarrow> go_error + writer" where
  "write_ping_request w = Inr (write_u8 0 (write_u8 TpPing w))"

definition write_ping_response :: "writer \<Rightarrow> go_error + writer" where
  "write_ping_response w = Inr (write_u8 0 (write_u8 TpPingResp w))"

fun write_packet :: "packet \<Rightarrow> writer \<Rightarrow> go_error + writer" where
  "write_packet (PConnect c) = write_connect c"
| "write_packet (PConnAck a) = write_conn_ack a"
| "write_packet (PPublish p) = write_publish p"
| "write_packet (PPubAck i) = write_pub_ack i"
| "write_packet (PPubRec i) = write_pub_rec i"
| "write_packet (PPubRel i) = write_pub_rel i"
| "write_packet (PPubComp i) = write_pub_comp i"
| "write_packet (PSubscribe s) = write_subscribe s"
| "write_packet (PSubAck s) = write_sub_ack s"
| "write_packet (PUnsubscribe u) = write_unsubscribe u"
| "write_packet (PUnsubAck i) = write_unsub_ack i"
| "write_packet PPingRequest = write_ping_request"
| "write_packet PPingResponse = write_ping_response"
| "write_packet PDisconnect = write_disconnect"

definition parsed :: "('a \<Rightarrow> packet) \<Rightarrow> go_error + 'a \<times> reader \<Rightarrow> go_error + packet \<times> reader" where
  "parsed mk res = (case res of Inl e \<Rightarrow> Inl e | Inr (x, r) \<Rightarrow> Inr (mk x, r))"

definition parse_body_of :: "byte \<Rightarrow> int \<Rightarrow> reader \<Rightarrow> go_error + packet \<times> reader" where
  "parse_body_of b rl r =
     (let pkg_type = b AND TpMask
      in if pkg_type = TpConnAck then parsed PConnAck (parse_conn_ack b rl r)
         else if pkg_type = TpDisconnect then Inr (PDisconnect, r)
         else if pkg_type = TpPing then Inr (PPingRequest, r)
         else if pkg_type = TpPingResp then Inr (PPingResponse, r)
         else if pkg_type = TpConnect then parsed PConnect (parse_connect b rl r)
         else if pkg_type = TpPublish then parsed PPublish (parse_publish b rl r)
         else if pkg_type = TpPubAck then parsed PPubAck (parse_pub_ack b rl r)
         else if pkg_type = TpPubRec then parsed PPubRec (parse_pub_rec b rl r)
         else if pkg_type = TpPubRel then parsed PPubRel (parse_pub_rel b rl r)
         else if pkg_type = TpPubComp then parsed PPubComp (parse_pub_comp b rl r)
         else if pkg_type = TpSubscribe then parsed PSubscribe (parse_subscribe b rl r)
         else if pkg_type = TpSubAck then parsed PSubAck (parse_sub_ack b rl r)
         else if pkg_type = TpUnsubscribe then parsed PUnsubscribe (parse_unsubscribe b rl r)
         else if pkg_type = TpUnsubAck then parsed PUnsubAck (parse_unsub_ack b rl r)
         else Inl (ErrorString (''received unknown packet type '' @ itoa (uint (drop_bit 4 pkg_type)))))"

definition parse_packet :: "reader \<Rightarrow> go_error + packet \<times> reader" where
  "parse_packet r = (case read_header r of
      Inl e \<Rightarrow> Inl e
    | Inr (b, rl, r1) \<Rightarrow> parse_body_of b rl r1)"

text \<open>The packets that have a faithful encoding.\<close>

fun packet_ok :: "packet \<Rightarrow> bool" where
  "packet_ok (PConnect c) = connect_ok c"
| "packet_ok (PPublish p) = publish_ok p"
| "packet_ok (PSubscribe s) = subscribe_ok s"
| "packet_ok (PSubAck s) = (length (topic_returns s) \<le> 0x0FFFFFFD)"
| "packet_ok (PUnsubscribe u) = unsubscribe_ok u"
| "packet_ok _ = True"

fun packet_hdr :: "packet \<Rightarrow> byte" where
  "packet_hdr (PConnect c) = TpConnect"
| "packet_hdr (PConnAck a) = TpConnAck"
| "packet_hdr (PPublish p) = TpPublish OR pub_flags p"
| "packet_hdr (PPubAck i) = TpPubAck"
| "packet_hdr (PPubRec i) = TpPubRec"
| "packet_hdr (PPubRel i) = TpPubRel"
| "packet_hdr (PPubComp i) = TpPubComp"
| "packet_hdr (PSubscribe s) = TpSubscribe OR fixedSubscribeFlags"
| "packet_hdr (PSubAck s) = TpSubAck"
| "packet_hdr (PUnsubscribe u) = TpUnsubscribe OR 2"
| "packet_hdr (PUnsubAck i) = TpUnsubAck"
| "packet_hdr PPingRequest = TpPing"
| "packet_hdr PPingResponse = TpPingResp"
| "packet_hdr PDisconnect = TpDisconnect"

fun packet_body :: "packet \<Rightarrow> byte list" where
  "packet_body (PConnect c) = connect_body c"
| "packet_body (PConnAck a) = [ack_flags a, ack_return_code a]"
| "packet_body (PPublish p) = publish_body p"
| "packet_body (PPubAck i) = u16_bytes i"
| "packet_body (PPubRec i) = u16_bytes i"
| "packet_body (PPubRel i) = u16_bytes i"
| "packet_body (PPubComp i) = u16_bytes i"
| "packet_body (PSubscribe s) = subscribe_body s"
| "packet_body (PSubAck s) = sub_ack_body s"
| "packet_body (PUnsubscribe u) = unsubscribe_body u"
| "packet_body (PUnsubAck i) = u16_bytes i"
| "packet_body PPingRequest = []"
| "packet_body PPingResponse = []"
| "packet_body PDisconnect = []"

definition packet_bytes :: "packet \<Rightarrow> byte list" where
  "packet_bytes p = frame (packet_hdr p) (packet_body p)"

lemma frame_Nil: "frame b [] = [b, 0]"
  by (simp add: frame_def var_int_bytes.simps)

lemmas body_less_writers = write_ping_request_def write_ping_response_def write_disconnect_def

lemma write_packet_bytes: "packet_ok p \<Longrightarrow> write_packet p w = Inr (w @ packet_bytes p)"
  by (cases p) (simp_all add: packet_bytes_def connect.wr_frame conn_ack.wr_frame publish.wr_frame
    pub_ack.wr_frame pub_rec.wr_frame pub_rel.wr_frame pub_comp.wr_frame subscribe.wr_frame
    sub_ack.wr_frame unsubscribe.wr_frame unsub_ack.wr_frame body_less_writers frame_Nil writes)

lemma packet_body_len: "packet_ok p \<Longrightarrow> length (packet_body p) \<le> 0x0FFFFFFF"
  by (cases p) (simp_all add: connect.body_len publish.body_len subscribe.body_len
    unsubscribe.body_len sub_ack_body_def)

lemma packet_hdr_type:
  "packet_ok p \<Longrightarrow> packet_hdr p AND TpMask = (case p of
     PConnect _ \<Rightarrow> TpConnect | PConnAck _ \<Rightarrow> TpConnAck | PPublish _ \<Rightarrow> TpPublish
   | PPubAck _ \<Rightarrow> TpPubAck | PPubRec _ \<Rightarrow> TpPubRec | PPubRel _ \<Rightarrow> TpPubRel | PPubComp _ \<Rightarrow> TpPubComp
   | PSubscribe _ \<Rightarrow> TpSubscribe | PSubAck _ \<Rightarrow> TpSubAck | PUnsubscribe _ \<Rightarrow> TpUnsubscribe
   | PUnsubAck _ \<Rightarrow> TpUnsubAck | PPingRequest \<Rightarrow> TpPing | PPingResponse \<Rightarrow> TpPingResp
   | PDisconnect \<Rightarrow> TpDisconnect)"
  by (cases p) (simp_all add: publish.hdr_tp, simp_all add: tp_defs fixedSubscribeFlags_def)

lemma parse_body_of_packet:
  assumes "packet_ok p" "rbuf r = packet_body p @ rest"
  shows "parse_body_of (packet_hdr p) (int (length (packet_body p))) r = Inr (p, r\<lparr>rbuf := rest\<rparr>)"
proof -
  have same: "r\<lparr>rbuf := rest\<rparr> = r" if "rbuf r = rest" using that by simp
  show ?thesis
    using assms unfolding parse_body_of_def Let_def packet_hdr_type [OF assms(1)]
    by (cases p)
      (simp_all add: connect.parse_body conn_ack.parse_body [simplified] publish.parse_body pub_ack.parse_body [simplified]
        pub_rec.parse_body [simplified] pub_rel.parse_body [simplified] pub_comp.parse_body [simplified] subscribe.parse_body
        sub_ack.parse_body unsubscribe.parse_body unsub_ack.parse_body [simplified] parsed_def same,
       simp_all add: tp_defs)
qed

lemma parse_packet_bytes:
  assumes "packet_ok p" "rbuf r = packet_bytes p @ rest"
  shows "parse_packet r = Inr (p, r\<lparr>rbuf := rest\<rparr>)"
proof -
  have "read_header r = Inr (packet_hdr p, int (length (packet_body p)),
      r\<lparr>rbuf := packet_body p @ rest\<rparr>)"
    using assms packet_body_len by (intro read_header_frame) (simp_all add: packet_bytes_def)
  with parse_body_of_packet [OF assms(1), of "r\<lparr>rbuf := packet_body p @ rest\<rparr>" rest]
  show ?thesis by (simp add: parse_packet_def)
qed

interpretation packet: codec packet_bytes parse_packet packet_ok
  by unfold_locales (rule parse_packet_bytes)

section \<open>Properties\<close>

text \<open>C5: Every packet whose fields fit the wire format is written, and parsing what was written, with
  any bytes behind it, returns the packet and leaves those bytes.\<close>

theorem packet_round_trip:
  assumes "packet_ok p"
  shows "\<exists>bs. write_packet p [] = Inr bs
    \<and> parse_packet (slice_reader (bs @ rest)) = Inr (p, slice_reader rest)"
  using write_packet_bytes [OF assms, of "[]"] packet.slice_enc(1) [OF assms, of rest] by simp

theorem packet_round_trip_witness:
  "\<exists>bs. write_packet (PUnsubscribe \<lparr>unsub_id = 3, unsub_topics = [''a'', ''b/c'']\<rparr>) [] = Inr bs
    \<and> parse_packet (slice_reader (bs @ [1, 2])) =
        Inr (PUnsubscribe \<lparr>unsub_id = 3, unsub_topics = [''a'', ''b/c'']\<rparr>, slice_reader [1, 2])"
  by (rule packet_round_trip) (simp add: unsubscribe_ok_def str_ok_def unsubscribe_body_def)

text \<open>A byte stream begins with at most one packet: two written packets whose encodings, with
  whatever follows, are the same stream are the same packet, followed by the same bytes.\<close>

theorem packet_stream_unambiguous:
  assumes "packet_ok p" "packet_ok q" "write_packet p [] = Inr xs" "write_packet q [] = Inr ys"
    and "xs @ us = ys @ vs"
  shows "p = q \<and> us = vs"
proof -
  have "packet_bytes p @ us = packet_bytes q @ vs" using assms write_packet_bytes by simp
  from packet.unique_decoding [OF assms(1,2) this] show ?thesis .
qed

theorem packet_stream_unambiguous_witness:
  "\<exists>xs. write_packet (PPubAck 7) [] = Inr xs \<and> PPubAck 7 = PPubAck 7 \<and> ([9] :: byte list) = [9]"
proof -
  have ok: "packet_ok (PPubAck 7)" by simp
  have w: "write_packet (PPubAck 7) [] = Inr (packet_bytes (PPubAck 7))"
    using write_packet_bytes [OF ok, of "[]"] by simp
  from packet_stream_unambiguous [OF ok ok w w refl, of "[9]"] w show ?thesis by blast
qed

end
