(* ===== verification/Packet_Text.thy ===== *)
theory Packet_Text
  imports Packet
begin

text \<open>
  What the packets offer beside reading and writing: the constructors \<open>NewSubscribe\<close>,
  \<open>NewUnsubscribe\<close> and \<open>NewSubAck\<close>, the comparison \<open>Equals\<close> of the interface \<open>Packet\<close>, and the
  \<open>String\<close> methods that the log lines are made of (\<open>mqtt/pkg\<close>).
\<close>

section \<open>Constructors\<close>

definition new_subscribe :: "u16 \<Rightarrow> topic list \<Rightarrow> subscribe" where
  "new_subscribe i topics = \<lparr>sub_id = i, sub_topics = topics\<rparr>"

definition new_unsubscribe :: "u16 \<Rightarrow> string list \<Rightarrow> unsubscribe" where
  "new_unsubscribe i topics = \<lparr>unsub_id = i, unsub_topics = topics\<rparr>"

definition new_sub_ack :: "u16 \<Rightarrow> byte list \<Rightarrow> sub_ack" where
  "new_sub_ack i rs = \<lparr>sub_ack_id = i, topic_returns = rs\<rparr>"

section \<open>Equality\<close>

text \<open>The loops of \<open>Equals\<close> over two slices of the same length.\<close>

fun same_elements :: "'a list \<Rightarrow> 'a list \<Rightarrow> bool" where
  "same_elements (x # xs) (y # ys) = (if x \<noteq> y then False else same_elements xs ys)"
| "same_elements _ _ = True"

definition subscribe_equals :: "subscribe \<Rightarrow> subscribe \<Rightarrow> bool" where
  "subscribe_equals s os =
     (if sub_id s = sub_id os \<and> length (sub_topics s) = length (sub_topics os)
      then same_elements (sub_topics s) (sub_topics os) else False)"

definition unsubscribe_equals :: "unsubscribe \<Rightarrow> unsubscribe \<Rightarrow> bool" where
  "unsubscribe_equals u os =
     (if unsub_id u = unsub_id os \<and> length (unsub_topics u) = length (unsub_topics os)
      then same_elements (unsub_topics u) (unsub_topics os) else False)"

definition sub_ack_equals :: "sub_ack \<Rightarrow> sub_ack \<Rightarrow> bool" where
  "sub_ack_equals s os \<longleftrightarrow> sub_ack_id s = sub_ack_id os \<and> topic_returns s = topic_returns os"

definition publish_equals :: "publish \<Rightarrow> publish \<Rightarrow> bool" where
  "publish_equals p op \<longleftrightarrow> pub_id p = pub_id op \<and> pub_flags p = pub_flags op \<and> pub_sent_by_us p = pub_sent_by_us op
     \<and> pub_name p = pub_name op \<and> pub_reply_to p = pub_reply_to op \<and> pub_payload p = pub_payload op"

definition conn_ack_equals :: "conn_ack \<Rightarrow> conn_ack \<Rightarrow> bool" where
  "conn_ack_equals a ac \<longleftrightarrow> a = ac"

text \<open>
  Two pointers: equal if both are nil; a pointer that is not nil is compared by the method of
  what it points to, which dereferences the other one.
\<close>

definition pointer_equals :: "('a \<Rightarrow> 'a \<Rightarrow> bool) \<Rightarrow> 'a option \<Rightarrow> 'a option \<Rightarrow> go_error + bool" where
  "pointer_equals eq p op =
     (case p of None \<Rightarrow> Inr (op = None) | Some x \<Rightarrow> deref op (\<lambda>y. Inr (eq x y)))"

definition connect_equals :: "connect \<Rightarrow> connect \<Rightarrow> go_error + bool" where
  "connect_equals c oc =
     (if \<not> (conn_keep_alive c = conn_keep_alive oc \<and> client_level c = client_level oc
            \<and> conn_flags c = conn_flags oc \<and> client_id c = client_id oc)
      then Inr False
      else case pointer_equals will_equals (conn_will c) (conn_will oc) of
             Inl e \<Rightarrow> Inl e
           | Inr False \<Rightarrow> Inr False
           | Inr True \<Rightarrow> pointer_equals credentials_equals (creds c) (creds oc))"

definition pub_ack_equals :: "u16 \<Rightarrow> u16 \<Rightarrow> bool" where
  "pub_ack_equals p other \<longleftrightarrow> p = other"

definition pub_rec_equals :: "u16 \<Rightarrow> u16 \<Rightarrow> bool" where
  "pub_rec_equals p other \<longleftrightarrow> p = other"

definition pub_rel_equals :: "u16 \<Rightarrow> u16 \<Rightarrow> bool" where
  "pub_rel_equals p other \<longleftrightarrow> p = other"

definition pub_comp_equals :: "u16 \<Rightarrow> u16 \<Rightarrow> bool" where
  "pub_comp_equals p other \<longleftrightarrow> p = other"

definition unsub_ack_equals :: "u16 \<Rightarrow> u16 \<Rightarrow> bool" where
  "unsub_ack_equals p other \<longleftrightarrow> p = other"

text \<open>The packets without a body have one value each.\<close>

definition ping_request_equals :: "packet \<Rightarrow> bool" where
  "ping_request_equals other \<longleftrightarrow> other = PPingRequest"

definition ping_response_equals :: "packet \<Rightarrow> bool" where
  "ping_response_equals other \<longleftrightarrow> other = PPingResponse"

definition disconnect_equals :: "packet \<Rightarrow> bool" where
  "disconnect_equals other \<longleftrightarrow> other = PDisconnect"

text \<open>The dynamic types are compared first, then the values.\<close>

fun packet_equals :: "packet \<Rightarrow> packet \<Rightarrow> go_error + bool" where
  "packet_equals (PConnect c) other = (case other of PConnect oc \<Rightarrow> connect_equals c oc | _ \<Rightarrow> Inr False)"
| "packet_equals (PConnAck a) other = (case other of PConnAck ac \<Rightarrow> Inr (conn_ack_equals a ac) | _ \<Rightarrow> Inr False)"
| "packet_equals (PPublish p) other = (case other of PPublish op \<Rightarrow> Inr (publish_equals p op) | _ \<Rightarrow> Inr False)"
| "packet_equals (PPubAck i) other = (case other of PPubAck j \<Rightarrow> Inr (pub_ack_equals i j) | _ \<Rightarrow> Inr False)"
| "packet_equals (PPubRec i) other = (case other of PPubRec j \<Rightarrow> Inr (pub_rec_equals i j) | _ \<Rightarrow> Inr False)"
| "packet_equals (PPubRel i) other = (case other of PPubRel j \<Rightarrow> Inr (pub_rel_equals i j) | _ \<Rightarrow> Inr False)"
| "packet_equals (PPubComp i) other = (case other of PPubComp j \<Rightarrow> Inr (pub_comp_equals i j) | _ \<Rightarrow> Inr False)"
| "packet_equals (PSubscribe s) other = (case other of PSubscribe os \<Rightarrow> Inr (subscribe_equals s os) | _ \<Rightarrow> Inr False)"
| "packet_equals (PSubAck s) other = (case other of PSubAck os \<Rightarrow> Inr (sub_ack_equals s os) | _ \<Rightarrow> Inr False)"
| "packet_equals (PUnsubscribe u) other = (case other of PUnsubscribe os \<Rightarrow> Inr (unsubscribe_equals u os) | _ \<Rightarrow> Inr False)"
| "packet_equals (PUnsubAck i) other = (case other of PUnsubAck j \<Rightarrow> Inr (unsub_ack_equals i j) | _ \<Rightarrow> Inr False)"
| "packet_equals PPingRequest other = Inr (ping_request_equals other)"
| "packet_equals PPingResponse other = Inr (ping_response_equals other)"
| "packet_equals PDisconnect other = Inr (disconnect_equals other)"

section \<open>Text\<close>

definition apostrophe :: string where "apostrophe = [CHR 0x27]"

abbreviation num :: "'a::len word \<Rightarrow> string" where "num w \<equiv> itoa (uint w)"

definition will_string :: "will \<Rightarrow> string" where
  "will_string w = ''w(r'' @ itoa (if will_retain w then 1 else 0) @ '', q'' @ num (will_qos w) @ '', ''
     @ apostrophe @ will_topic w @ apostrophe @ '', ... ('' @ itoa (int (length (will_message w))) @ '' bytes))''"

definition connect_string :: "connect \<Rightarrow> go_error + string" where
  "connect_string c =
     (case (if has_will c then deref (conn_will c) (\<lambda>w. Inr ('', '' @ will_string w)) else Inr []) of
        Inl e \<Rightarrow> Inl e
      | Inr wl \<Rightarrow>
          Inr (''CONNECT (c'' @ num (drop_bit 1 (conn_flags c AND cleanSessionFlag))
            @ '', k'' @ num (conn_keep_alive c)
            @ '', u'' @ num (drop_bit 7 (conn_flags c AND userNameFlag))
            @ '', p'' @ num (drop_bit 6 (conn_flags c AND passwordFlag)) @ wl @ '')''))"

definition conn_ack_string :: "conn_ack \<Rightarrow> string" where
  "conn_ack_string a = ''CONNACK (s'' @ num (ack_flags a) @ '', rt'' @ num (ack_return_code a) @ '')''"

text \<open>The verb \<open>%b\<close> prints one bit.\<close>

definition publish_string :: "publish \<Rightarrow> string" where
  "publish_string p = ''PUBLISH (d'' @ num (drop_bit 3 (pub_flags p AND 0x08)) @ '', q'' @ num (qos_level p)
     @ '', r'' @ num (pub_flags p AND 0x01) @ '', m'' @ num (pub_id p) @ '', ''
     @ apostrophe @ pub_name p @ apostrophe @ '', ... ('' @ itoa (int (length (pub_payload p))) @ '' bytes))''"

fun separated :: "nat \<Rightarrow> string list \<Rightarrow> string" where
  "separated i [] = []"
| "separated i (s # ss) = (if i > 0 then '', '' else []) @ s @ separated (i + 1) ss"

definition topic_string :: "topic \<Rightarrow> string" where
  "topic_string t = ''q'' @ num (topic_qos t) @ '', '' @ apostrophe @ topic_name t @ apostrophe"

definition subscribe_string :: "subscribe \<Rightarrow> string" where
  "subscribe_string s =
     ''SUBSCRIBE (m'' @ num (sub_id s) @ '', ''
     @ (if length (sub_topics s) \<noteq> 1
        then ''['' @ separated 0 (map (\<lambda>t. ''('' @ topic_string t @ '')'') (sub_topics s)) @ '']''
        else topic_string (hd (sub_topics s))) @ '')''"

definition sub_ack_string :: "sub_ack \<Rightarrow> string" where
  "sub_ack_string s =
     ''SUBACK (m'' @ num (sub_ack_id s) @ '', ''
     @ (if length (topic_returns s) \<noteq> 1
        then ''['' @ separated 0 (map (\<lambda>t. ''rc'' @ num t) (topic_returns s)) @ '']''
        else ''rc'' @ num (hd (topic_returns s))) @ '')''"

definition unsubscribe_string :: "unsubscribe \<Rightarrow> string" where
  "unsubscribe_string u =
     ''UNSUBSCRIBE (m'' @ num (unsub_id u) @ '', [''
     @ separated 0 (map (\<lambda>t. apostrophe @ t @ apostrophe) (unsub_topics u)) @ ''])''"

definition pub_ack_string :: "u16 \<Rightarrow> string" where
  "pub_ack_string p = ''PUBACK (m'' @ num p @ '')''"

definition pub_rec_string :: "u16 \<Rightarrow> string" where
  "pub_rec_string p = ''PUBREC (m'' @ num p @ '')''"

definition pub_rel_string :: "u16 \<Rightarrow> string" where
  "pub_rel_string p = ''PUBREL (m'' @ num p @ '')''"

definition pub_comp_string :: "u16 \<Rightarrow> string" where
  "pub_comp_string p = ''PUBCOMP (m'' @ num p @ '')''"

definition unsub_ack_string :: "u16 \<Rightarrow> string" where
  "unsub_ack_string p = ''UNSUBACK (m'' @ num p @ '')''"

definition ping_request_string :: string where "ping_request_string = ''PINGREQ''"
definition ping_response_string :: string where "ping_response_string = ''PINGRESP''"
definition disconnect_string :: string where "disconnect_string = ''DISCONNECT''"

fun packet_string :: "packet \<Rightarrow> go_error + string" where
  "packet_string (PConnect c) = connect_string c"
| "packet_string (PConnAck a) = Inr (conn_ack_string a)"
| "packet_string (PPublish p) = Inr (publish_string p)"
| "packet_string (PPubAck i) = Inr (pub_ack_string i)"
| "packet_string (PPubRec i) = Inr (pub_rec_string i)"
| "packet_string (PPubRel i) = Inr (pub_rel_string i)"
| "packet_string (PPubComp i) = Inr (pub_comp_string i)"
| "packet_string (PSubscribe s) = Inr (subscribe_string s)"
| "packet_string (PSubAck s) = Inr (sub_ack_string s)"
| "packet_string (PUnsubscribe u) = Inr (unsubscribe_string u)"
| "packet_string (PUnsubAck i) = Inr (unsub_ack_string i)"
| "packet_string PPingRequest = Inr ping_request_string"
| "packet_string PPingResponse = Inr ping_response_string"
| "packet_string PDisconnect = Inr disconnect_string"

section \<open>Lemmas\<close>

lemma same_elements_iff: "length xs = length ys \<Longrightarrow> same_elements xs ys \<longleftrightarrow> xs = ys"
  by (induction xs ys rule: list_induct2) auto

lemma subscribe_equals_iff: "subscribe_equals s os \<longleftrightarrow> s = os"
  by (cases s; cases os) (auto simp: subscribe_equals_def same_elements_iff)

lemma unsubscribe_equals_iff: "unsubscribe_equals u os \<longleftrightarrow> u = os"
  by (cases u; cases os) (auto simp: unsubscribe_equals_def same_elements_iff)

lemma sub_ack_equals_iff: "sub_ack_equals s os \<longleftrightarrow> s = os"
  by (cases s; cases os) (auto simp: sub_ack_equals_def)

lemma publish_equals_iff: "publish_equals p op \<longleftrightarrow> p = op"
  by (cases p; cases op) (auto simp: publish_equals_def)

lemma will_equals_iff: "will_equals w ow \<longleftrightarrow> w = ow"
  by (cases w; cases ow) (auto simp: will_equals_def)

lemmas equals_iff = subscribe_equals_iff unsubscribe_equals_iff sub_ack_equals_iff publish_equals_iff will_equals_iff
  conn_ack_equals_def pub_ack_equals_def pub_rec_equals_def pub_rel_equals_def pub_comp_equals_def unsub_ack_equals_def
  ping_request_equals_def ping_response_equals_def disconnect_equals_def

text \<open>A nil password and an empty one are not told apart.\<close>

definition plain_credentials :: "credentials \<Rightarrow> credentials" where
  "plain_credentials k = k\<lparr>cr_password := Some (slice_bytes (cr_password k))\<rparr>"

definition plain_connect :: "connect \<Rightarrow> connect" where
  "plain_connect c = c\<lparr>creds := map_option plain_credentials (creds c)\<rparr>"

fun plain_packet :: "packet \<Rightarrow> packet" where
  "plain_packet (PConnect c) = PConnect (plain_connect c)"
| "plain_packet p = p"

lemma credentials_equals_iff: "credentials_equals k ok \<longleftrightarrow> plain_credentials k = plain_credentials ok"
  by (cases k; cases ok) (auto simp: credentials_equals_def plain_credentials_def)

lemma pointer_equals_True: "pointer_equals eq p op = Inr True \<longleftrightarrow> rel_option eq p op"
  by (cases p; cases op) (simp_all add: pointer_equals_def deref_def)

lemma plain_connect_fields:
  "plain_connect c = plain_connect oc \<longleftrightarrow>
     conn_keep_alive c = conn_keep_alive oc \<and> client_level c = client_level oc \<and> conn_flags c = conn_flags oc
     \<and> client_id c = client_id oc \<and> conn_will c = conn_will oc
     \<and> rel_option (\<lambda>k ok. plain_credentials k = plain_credentials ok) (creds c) (creds oc)"
  by (cases c; cases oc; cases "creds c"; cases "creds oc") (auto simp: plain_connect_def)

lemma connect_equals_iff: "connect_equals c oc = Inr True \<longleftrightarrow> plain_connect c = plain_connect oc"
proof -
  have "rel_option will_equals w ow \<longleftrightarrow> w = ow" for w ow
    by (simp add: will_equals_iff option.rel_eq [unfolded fun_eq_iff] fun_eq_iff [symmetric] rel_option_iff split: option.split)
  then show ?thesis
    using pointer_equals_True [of will_equals "conn_will c" "conn_will oc"]
      pointer_equals_True [of credentials_equals "creds c" "creds oc"]
    by (auto simp: connect_equals_def plain_connect_fields credentials_equals_iff [abs_def]
        split: sum.splits bool.splits)
qed

lemma packet_equals_iff: "packet_equals p q = Inr True \<longleftrightarrow> plain_packet p = plain_packet q"
  by (cases p; cases q) (simp_all add: equals_iff connect_equals_iff)

text \<open>The bytes of a packet are those of its plain form.\<close>

lemma deref_map_option: "deref (map_option f p) g = deref p (\<lambda>x. g (f x))"
  by (cases p) (simp_all add: deref_def)

lemma plain_credentials_parts:
  "cr_user (plain_credentials k) = cr_user k" "slice_bytes (cr_password (plain_credentials k)) = slice_bytes (cr_password k)"
  by (simp_all add: plain_credentials_def)

lemma plain_connect_parts:
  "creds (plain_connect c) = map_option plain_credentials (creds c)" "conn_will (plain_connect c) = conn_will c"
  "conn_keep_alive (plain_connect c) = conn_keep_alive c" "client_level (plain_connect c) = client_level c"
  "conn_flags (plain_connect c) = conn_flags c" "client_id (plain_connect c) = client_id c"
  "has_will (plain_connect c) = has_will c" "has_user_name (plain_connect c) = has_user_name c"
  "has_password (plain_connect c) = has_password c"
  by (simp_all add: plain_connect_def has_will_def has_user_name_def has_password_def)

lemma write_plain: "write_packet (plain_packet p) w = write_packet p w"
  by (cases p)
    (simp_all only: plain_packet.simps write_packet.simps write_connect_def connect_len_def plain_connect_parts
      plain_credentials_parts deref_map_option cong del: sum.case_cong_weak)

text \<open>
  A CONNECT packet that was parsed has a will and credentials exactly as its flags say, so
  neither its text nor a comparison dereferences nil.
\<close>

definition no_dangling :: "packet \<Rightarrow> bool" where
  "no_dangling p \<longleftrightarrow> (\<forall>c. p = PConnect c \<longrightarrow> connect_ok c)"

lemma parsed_no_dangling:
  assumes "parse_packet r = Inr (p, r')"
  shows "no_dangling p"
proof -
  obtain b n r1 where "parse_body_of b n r1 = Inr (p, r')"
    using assms by (auto simp: parse_packet_def split: sum.splits prod.splits)
  then show ?thesis
    using parse_connect_Inr by (auto simp: parse_body_of_def parsed_def Let_def no_dangling_def split: if_splits sum.splits)
qed

lemma pointer_equals_total: "(x \<noteq> None \<longrightarrow> y \<noteq> None) \<Longrightarrow> \<exists>b. pointer_equals eq x y = Inr b"
  by (cases x; cases y) (auto simp: pointer_equals_def deref_def)

lemma connect_equals_total:
  assumes "connect_ok c" "connect_ok oc"
  shows "\<exists>b. connect_equals c oc = Inr b"
proof (cases "conn_flags c = conn_flags oc")
  case True
  then have "conn_will c \<noteq> None \<longrightarrow> conn_will oc \<noteq> None" "creds c \<noteq> None \<longrightarrow> creds oc \<noteq> None"
    using assms unfolding connect_ok_def has_will_def has_user_name_def has_password_def by argo+
  then obtain b b' where "pointer_equals will_equals (conn_will c) (conn_will oc) = Inr b"
    "pointer_equals credentials_equals (creds c) (creds oc) = Inr b'"
    using pointer_equals_total by metis
  then show ?thesis by (cases b) (auto simp: connect_equals_def)
qed (auto simp: connect_equals_def)

lemma packet_equals_total:
  assumes "no_dangling p" "no_dangling q"
  shows "\<exists>b. packet_equals p q = Inr b"
proof (cases p)
  case (PConnect c)
  with assms show ?thesis by (cases q) (auto simp: no_dangling_def connect_equals_total)
qed (cases q; auto)+

lemma packet_string_total: "no_dangling p \<Longrightarrow> \<exists>s. packet_string p = Inr s"
  by (cases p) (auto simp: no_dangling_def connect_string_def connect_ok_def deref_def)

section \<open>Properties\<close>

text \<open>Packets that compare as equal are the same packet up to a nil password for an empty one, and are
  written as the same bytes; the comparison finds every such pair.\<close>

theorem packet_equals_reference:
  "(packet_equals p q = Inr True \<longleftrightarrow> plain_packet p = plain_packet q)
   \<and> (packet_equals p q = Inr True \<longrightarrow> write_packet p w = write_packet q w)"
  using packet_equals_iff [of p q] write_plain [of p w] write_plain [of q w] by metis

theorem packet_equals_reference_witness:
  "write_packet (PConnect (new_connect ''c'' True 5 None (Some \<lparr>cr_user = ''u'', cr_password = None\<rparr>))) []
   = write_packet (PConnect (new_connect ''c'' True 5 None (Some \<lparr>cr_user = ''u'', cr_password = Some []\<rparr>))) []"
  (is "write_packet ?p [] = write_packet ?q []")
proof -
  have "packet_equals ?p ?q = Inr True"
    by (simp add: new_connect_def connect_equals_def pointer_equals_def deref_def credentials_equals_def)
  with packet_equals_reference [of ?p ?q "[]"] show ?thesis by blast
qed

text \<open>C33: The text of a packet that was read, and the comparison of two such packets, never dereference nil;
  two of them are equal exactly if they are the same up to a nil password for an empty one.  A packet
  that was built with empty credentials is not among them: compared with the same packet
  without credentials it panics, while the reverse comparison says that they differ.\<close>

theorem read_packets_comparable:
  assumes "parse_packet r = Inr (p, r1)" "parse_packet r' = Inr (q, r1')"
  shows "(\<exists>s. packet_string p = Inr s) \<and> packet_equals p q = Inr (plain_packet p = plain_packet q)
    \<and> (\<exists>e. packet_equals (PConnect (new_connect cid cs ka wl (Some \<lparr>cr_user = [], cr_password = None\<rparr>)))
              (PConnect (new_connect cid cs ka wl None)) = Inl (Panic e))
    \<and> packet_equals (PConnect (new_connect cid cs ka wl None))
        (PConnect (new_connect cid cs ka wl (Some \<lparr>cr_user = [], cr_password = None\<rparr>))) = Inr False"
proof -
  note ok = parsed_no_dangling [OF assms(1)] parsed_no_dangling [OF assms(2)]
  obtain b where b: "packet_equals p q = Inr b" using packet_equals_total [OF ok] by blast
  moreover have "b \<longleftrightarrow> plain_packet p = plain_packet q" using b packet_equals_iff [of p q] by simp
  moreover have "pointer_equals will_equals wl wl = Inr True"
    by (cases wl) (simp_all add: pointer_equals_def deref_def will_equals_iff)
  then have "(\<exists>e. packet_equals (PConnect (new_connect cid cs ka wl (Some \<lparr>cr_user = [], cr_password = None\<rparr>)))
              (PConnect (new_connect cid cs ka wl None)) = Inl (Panic e))
    \<and> packet_equals (PConnect (new_connect cid cs ka wl None))
        (PConnect (new_connect cid cs ka wl (Some \<lparr>cr_user = [], cr_password = None\<rparr>))) = Inr False"
    by (simp add: new_connect_def Let_def connect_equals_def pointer_equals_def [of credentials_equals] deref_def)
  ultimately show ?thesis using packet_string_total [OF ok(1)] by simp
qed

theorem read_packets_comparable_witness:
  "parse_packet (slice_reader [0xc0, 0]) = Inr (PPingRequest, slice_reader [])
   \<and> packet_equals PPingRequest PPingRequest = Inr True \<and> (\<exists>s. packet_string PPingRequest = Inr s)"
proof -
  have "packet_ok PPingRequest" by simp
  from parse_packet_bytes [OF this, of "slice_reader [0xc0, 0]" "[]"]
  have r: "parse_packet (slice_reader [0xc0, 0]) = Inr (PPingRequest, slice_reader [])"
    by (simp add: packet_bytes_def frame_Nil tp_defs)
  from read_packets_comparable [OF r r] r show ?thesis by (simp add: ping_request_equals_def)
qed

end
