(* ===== verification/Utf8.thy ===== *)
theory Utf8
  imports Bridge_Prelude
begin

text \<open>
  The UTF-8 conversions of the Go standard library that \<open>mqtt/topic.go\<close> uses:
  \<open>ReadRune\<close> decodes the next rune of a string and maps every ill-formed byte to U+FFFD of
  width one, \<open>WriteRune\<close> encodes a rune.  Code units and runes are natural numbers here.
\<close>

definition rune_error :: rune where "rune_error = 0xFFFD"

definition valid_rune :: "rune \<Rightarrow> bool" where
  "valid_rune r \<longleftrightarrow> r < 0xD800 \<or> (0xE000 \<le> r \<and> r \<le> 0x10FFFF)"

text \<open>Size of the sequence that a lead byte starts and the range of its second byte.\<close>

definition utf8_accept :: "nat \<Rightarrow> nat \<times> nat \<times> nat" where
  "utf8_accept x =
     (if x \<le> 0xDF then (2, 0x80, 0xBF)
      else if x = 0xE0 then (3, 0xA0, 0xBF)
      else if x = 0xED then (3, 0x80, 0x9F)
      else if x \<le> 0xEF then (3, 0x80, 0xBF)
      else if x = 0xF0 then (4, 0x90, 0xBF)
      else if x = 0xF4 then (4, 0x80, 0x8F)
      else (4, 0x80, 0xBF))"

fun decode_rune :: "nat list \<Rightarrow> rune \<times> nat" where
  "decode_rune [] = (rune_error, 0)"
| "decode_rune (x # xs) =
     (if x < 0x80 then (x, 1)
      else if x < 0xC2 \<or> 0xF4 < x then (rune_error, 1)
      else case utf8_accept x of (sz, lo, hi) \<Rightarrow>
        (case xs of
           [] \<Rightarrow> (rune_error, 1)
         | y # ys \<Rightarrow>
             if y < lo \<or> hi < y then (rune_error, 1)
             else if sz = 2 then (x mod 32 * 64 + y mod 64, 2)
             else (case ys of
                 [] \<Rightarrow> (rune_error, 1)
               | z # zs \<Rightarrow>
                   if z < 0x80 \<or> 0xBF < z then (rune_error, 1)
                   else if sz = 3 then (x mod 16 * 4096 + y mod 64 * 64 + z mod 64, 3)
                   else (case zs of
                       [] \<Rightarrow> (rune_error, 1)
                     | u # _ \<Rightarrow>
                         if u < 0x80 \<or> 0xBF < u then (rune_error, 1)
                         else (x mod 8 * 262144 + y mod 64 * 4096 + z mod 64 * 64 + u mod 64, 4)))))"

definition encode_rune :: "rune \<Rightarrow> nat list" where
  "encode_rune r0 =
     (let r = (if valid_rune r0 then r0 else rune_error)
      in if r < 0x80 then [r]
         else if r < 0x800 then [0xC0 + r div 64, 0x80 + r mod 64]
         else if r < 0x10000 then [0xE0 + r div 4096, 0x80 + r div 64 mod 64, 0x80 + r mod 64]
         else [0xF0 + r div 262144, 0x80 + r div 4096 mod 64, 0x80 + r div 64 mod 64,
               0x80 + r mod 64])"

text \<open>The code units of a string and back.\<close>

definition codes :: "string \<Rightarrow> nat list" where "codes s = map of_char s"
definition chars :: "nat list \<Rightarrow> string" where "chars ns = map char_of ns"

lemma chars_codes [simp]: "chars (codes s) = s"
  by (simp add: chars_def codes_def comp_def)

lemma codes_chars: "\<forall>n \<in> set ns. n < 256 \<Longrightarrow> codes (chars ns) = ns"
  by (induction ns) (auto simp: chars_def codes_def)

lemma codes_bound: "n \<in> set (codes s) \<Longrightarrow> n < 256"
  by (auto simp: codes_def)

lemma codes_Nil_iff [simp]: "codes s = [] \<longleftrightarrow> s = []"
  by (simp add: codes_def)

lemma decode_size_pos: "xs \<noteq> [] \<Longrightarrow> 0 < snd (decode_rune xs)"
  by (cases xs) (auto split: list.splits if_splits prod.splits)

text \<open>The runes of a string, as a loop over \<open>ReadRune\<close> sees them.\<close>

function runes :: "nat list \<Rightarrow> rune list" where
  "runes xs = (if xs = [] then [] else fst (decode_rune xs) # runes (drop (snd (decode_rune xs)) xs))"
  by pat_completeness auto
termination
  by (relation "measure length") (auto simp: decode_size_pos)

declare runes.simps [simp del]

text \<open>A string is valid UTF-8 if no rune of it is an ill-formed byte.\<close>

function utf8_valid :: "nat list \<Rightarrow> bool" where
  "utf8_valid xs = (if xs = [] then True
     else decode_rune xs \<noteq> (rune_error, 1) \<and> utf8_valid (drop (snd (decode_rune xs)) xs))"
  by pat_completeness auto
termination
  by (relation "measure length") (auto simp: decode_size_pos)

declare utf8_valid.simps [simp del]

definition encode_runes :: "rune list \<Rightarrow> nat list" where
  "encode_runes rs = concat (map encode_rune rs)"

lemma encode_runes_simps [simp]:
  "encode_runes [] = []" "encode_runes (r # rs) = encode_rune r @ encode_runes rs"
  "encode_runes (rs @ ss) = encode_runes rs @ encode_runes ss"
  by (simp_all add: encode_runes_def)

lemma rune_error_valid [simp]: "valid_rune rune_error"
  by (simp add: valid_rune_def rune_error_def)

lemma encode_rune_nonempty [simp]: "encode_rune r \<noteq> []"
  by (simp add: encode_rune_def Let_def)

lemma encode_rune_ascii [simp]: "r < 0x80 \<Longrightarrow> encode_rune r = [r]"
  by (simp add: encode_rune_def valid_rune_def)

lemma encode_rune_bound: "n \<in> set (encode_rune r) \<Longrightarrow> n < 256"
  by (auto simp: encode_rune_def Let_def valid_rune_def rune_error_def split: if_splits)

text \<open>The payload bits of lead and continuation bytes.\<close>

lemma utf8_bits [simp]:
  "a < 32 \<Longrightarrow> (0xC0 + a) mod 32 = (a :: nat)"
  "a < 16 \<Longrightarrow> (0xE0 + a) mod 16 = (a :: nat)"
  "a < 8 \<Longrightarrow> (0xF0 + a) mod 8 = (a :: nat)"
  "b < 64 \<Longrightarrow> (0x80 + b) mod 64 = (b :: nat)"
  using mod_mult_self1 [of a 6 32] mod_mult_self1 [of a 14 16] mod_mult_self1 [of a 30 8]
    mod_mult_self1 [of b 2 64] by (simp_all add: add.commute)

lemma decode_2:
  "2 \<le> a \<Longrightarrow> a < 32 \<Longrightarrow> b < 64 \<Longrightarrow> decode_rune ((0xC0 + a) # (0x80 + b) # rest) = (a * 64 + b, 2)"
  by (simp add: utf8_accept_def)

lemma decode_3:
  assumes "a < 16" "b < 64" "c < 64" "a = 0 \<Longrightarrow> 0x20 \<le> b" "a = 0xD \<Longrightarrow> b < 0x20"
  shows "decode_rune ((0xE0 + a) # (0x80 + b) # (0x80 + c) # rest) = (a * 4096 + b * 64 + c, 3)"
proof -
  consider "a = 0" | "a = 0xD" | "a \<noteq> 0" "a \<noteq> 0xD" by blast
  then show ?thesis using assms by cases (simp_all add: utf8_accept_def)
qed

lemma decode_4:
  assumes "a < 5" "b < 64" "c < 64" "d < 64" "a = 0 \<Longrightarrow> 0x10 \<le> b" "a = 4 \<Longrightarrow> b < 0x10"
  shows "decode_rune ((0xF0 + a) # (0x80 + b) # (0x80 + c) # (0x80 + d) # rest)
    = (a * 262144 + b * 4096 + c * 64 + d, 4)"
proof -
  consider "a = 0" | "a = 4" | "a \<noteq> 0" "a \<noteq> 4" by blast
  then show ?thesis using assms by cases (simp_all add: utf8_accept_def)
qed

lemma encode_2: "2 \<le> a \<Longrightarrow> a < 32 \<Longrightarrow> b < 64 \<Longrightarrow> encode_rune (a * 64 + b) = [0xC0 + a, 0x80 + b]"
  by (simp add: encode_rune_def valid_rune_def)

lemma encode_3:
  assumes "a < 16" "b < 64" "c < 64" "a = 0 \<Longrightarrow> 0x20 \<le> b" "a = 0xD \<Longrightarrow> b < 0x20"
  shows "encode_rune (a * 4096 + b * 64 + c) = [0xE0 + a, 0x80 + b, 0x80 + c]"
    and "valid_rune (a * 4096 + b * 64 + c)"
proof -
  let ?r = "a * 4096 + b * 64 + c"
  have r: "0x800 \<le> ?r" "?r < 0x10000" using assms by (cases "a = 0"; simp)+
  show v: "valid_rune ?r" using assms r
    by (cases "a < 0xD"; cases "a = 0xD") (simp_all add: valid_rune_def)
  have "?r = (a * 64 + b) * 64 + c" by simp
  then have "?r mod 64 = c" using assms by (simp only: mod_mult_self3) simp
  moreover have "?r div 4096 = a" "?r div 64 = a * 64 + b" using assms by simp_all
  ultimately show "encode_rune ?r = [0xE0 + a, 0x80 + b, 0x80 + c]"
    using r v assms by (simp add: encode_rune_def)
qed

lemma encode_4:
  assumes "a < 5" "b < 64" "c < 64" "d < 64" "a = 0 \<Longrightarrow> 0x10 \<le> b" "a = 4 \<Longrightarrow> b < 0x10"
  shows "encode_rune (a * 262144 + b * 4096 + c * 64 + d) = [0xF0 + a, 0x80 + b, 0x80 + c, 0x80 + d]"
    and "valid_rune (a * 262144 + b * 4096 + c * 64 + d)"
proof -
  let ?r = "a * 262144 + b * 4096 + c * 64 + d"
  have r: "0x10000 \<le> ?r" "?r \<le> 0x10FFFF" using assms by (cases "a = 0"; cases "a = 4"; simp)+
  then show v: "valid_rune ?r" by (simp add: valid_rune_def)
  have "?r = ((a * 64 + b) * 64 + c) * 64 + d" by simp
  then have "?r mod 64 = d" using assms by (simp only: mod_mult_self3) simp
  moreover have "?r div 262144 = a" "?r div 4096 = a * 64 + b" "?r div 64 = (a * 64 + b) * 64 + c"
    using assms by simp_all
  moreover have "(4096 * a + b * 64 + c) mod 64 = c"
    using assms mod_mult_self3 [of "64 * a + b" 64 c] by (simp add: algebra_simps)
  ultimately show "encode_rune ?r = [0xF0 + a, 0x80 + b, 0x80 + c, 0x80 + d]"
    using r v assms by (simp add: encode_rune_def)
qed

text \<open>Every valid rune has one of the four shapes.\<close>

lemma valid_rune_shapes:
  assumes "valid_rune r"
  obtains (ascii) "r < 0x80"
  | (two) a b where "2 \<le> a" "a < 32" "b < 64" "r = a * 64 + b"
  | (three) a b c where "a < 16" "b < 64" "c < 64" "a = 0 \<Longrightarrow> 0x20 \<le> b" "a = 0xD \<Longrightarrow> b < 0x20"
      "r = a * 4096 + b * 64 + c"
  | (four) a b c d where "a < 5" "b < 64" "c < 64" "d < 64" "a = 0 \<Longrightarrow> 0x10 \<le> b"
      "a = 4 \<Longrightarrow> b < 0x10" "r = a * 262144 + b * 4096 + c * 64 + d"
proof -
  have split: "\<exists>q c. n = q * 64 + c \<and> c < 64" for n :: nat
    by (rule exI [of _ "n div 64"], rule exI [of _ "n mod 64"]) simp
  obtain q d where r: "r = q * 64 + d" "d < 64" using split by blast
  obtain p c where q: "q = p * 64 + c" "c < 64" using split by blast
  obtain a b where p: "p = a * 64 + b" "b < 64" using split by blast
  consider "r < 0x80" | "0x80 \<le> r" "r < 0x800" | "0x800 \<le> r" "r < 0x10000"
    | "0x10000 \<le> r" "r \<le> 0x10FFFF"
    using assms by (fastforce simp: valid_rune_def)
  then show thesis
  proof cases
    case 1
    then show ?thesis by (rule ascii)
  next
    case 2
    then show ?thesis using r by (intro two [of q d]) simp_all
  next
    case 3
    then show ?thesis using assms r q
      by (intro three [of p c d]) (auto simp: valid_rune_def)
  next
    case 4
    then show ?thesis using r q p by (intro four [of a b c d]) auto
  qed
qed

lemma decode_encode:
  assumes "valid_rune r"
  shows "decode_rune (encode_rune r @ rest) = (r, length (encode_rune r))"
  using assms
proof (cases rule: valid_rune_shapes)
  case (two a b)
  then show ?thesis unfolding two(4) by (simp only: encode_2 append.simps decode_2) simp
next
  case (three a b c)
  then show ?thesis unfolding three(6) by (simp only: encode_3 append.simps decode_3) simp
next
  case (four a b c d)
  then show ?thesis unfolding four(7) by (simp only: encode_4 append.simps decode_4) simp
qed simp

text \<open>Every decoding is an ill-formed byte or the encoding of a valid rune.\<close>

lemma byte_offset: "k \<le> x \<Longrightarrow> \<exists>a. x = k + a" for k x :: nat
  by (rule le_Suc_ex)

definition well_decoded :: "nat list \<Rightarrow> bool" where
  "well_decoded xs \<longleftrightarrow> (\<exists>r rest. valid_rune r \<and> xs = encode_rune r @ rest
     \<and> decode_rune xs = (r, length (encode_rune r)))"

lemma well_decodedI: "valid_rune r \<Longrightarrow> well_decoded (encode_rune r @ rest)"
  using decode_encode by (auto simp: well_decoded_def)

lemma well_decoded_2:
  assumes "0xC2 \<le> x" "x \<le> 0xDF" "0x80 \<le> y" "y \<le> 0xBF"
  shows "well_decoded (x # y # ys)"
proof -
  obtain a b where "x = 0xC0 + a" "y = 0x80 + b"
    using byte_offset [of "0xC0" x] byte_offset [of "0x80" y] assms by auto
  with assms well_decodedI [of "a * 64 + b" ys] show ?thesis
    by (simp add: encode_2 valid_rune_def)
qed

lemma well_decoded_3:
  assumes "0xE0 \<le> x" "x \<le> 0xEF" "0x80 \<le> y" "y \<le> 0xBF" "0x80 \<le> z" "z \<le> 0xBF"
    "x = 0xE0 \<Longrightarrow> 0xA0 \<le> y" "x = 0xED \<Longrightarrow> y \<le> 0x9F"
  shows "well_decoded (x # y # z # zs)"
proof -
  obtain a b c where x: "x = 0xE0 + a" "y = 0x80 + b" "z = 0x80 + c"
    using byte_offset [of "0xE0" x] byte_offset [of "0x80" y] byte_offset [of "0x80" z] assms by auto
  with assms have "a < 16" "b < 64" "c < 64" "a = 0 \<Longrightarrow> 0x20 \<le> b" "a = 0xD \<Longrightarrow> b < 0x20" by auto
  from encode_3 [OF this] well_decodedI [of "a * 4096 + b * 64 + c" zs] show ?thesis
    by (simp add: x)
qed

lemma well_decoded_4:
  assumes "0xF0 \<le> x" "x \<le> 0xF4" "0x80 \<le> y" "y \<le> 0xBF" "0x80 \<le> z" "z \<le> 0xBF"
    "0x80 \<le> u" "u \<le> 0xBF" "x = 0xF0 \<Longrightarrow> 0x90 \<le> y" "x = 0xF4 \<Longrightarrow> y \<le> 0x8F"
  shows "well_decoded (x # y # z # u # us)"
proof -
  obtain a b c d where x: "x = 0xF0 + a" "y = 0x80 + b" "z = 0x80 + c" "u = 0x80 + d"
    using byte_offset [of "0xF0" x] byte_offset [of "0x80" y] byte_offset [of "0x80" z]
      byte_offset [of "0x80" u] assms by auto
  with assms have "a < 5" "b < 64" "c < 64" "d < 64" "a = 0 \<Longrightarrow> 0x10 \<le> b" "a = 4 \<Longrightarrow> b < 0x10"
    by auto
  from encode_4 [OF this] well_decodedI [of "a * 262144 + b * 4096 + c * 64 + d" us] show ?thesis
    by (simp add: x)
qed

lemma decode_rune_cases:
  "xs \<noteq> [] \<Longrightarrow> decode_rune xs = (rune_error, 1) \<or> well_decoded xs"
proof (induction xs rule: decode_rune.induct)
  case (2 x xs)
  have "well_decoded (x # xs)" if "x < 0x80"
    using that well_decodedI [of x xs] by (simp add: valid_rune_def)
  then show ?case
    by (auto simp: utf8_accept_def split: list.splits if_splits
        intro: well_decoded_2 well_decoded_3 well_decoded_4)
qed simp

section \<open>Decoding a whole string\<close>

lemma runes_Nil [simp]: "runes [] = []"
  by (simp add: runes.simps)

lemma utf8_valid_Nil [simp]: "utf8_valid []"
  by (simp add: utf8_valid.simps)

lemma runes_encode [simp]: "valid_rune r \<Longrightarrow> runes (encode_rune r @ rest) = r # runes rest"
  by (subst runes.simps) (simp add: decode_encode)

lemma runes_encode_runes [simp]:
  "\<forall>r \<in> set rs. valid_rune r \<Longrightarrow> runes (encode_runes rs @ rest) = rs @ runes rest"
  by (induction rs) simp_all

lemma encode_rune_not_error: "(r, length (encode_rune r)) \<noteq> (rune_error, Suc 0)"
  by (auto simp: encode_rune_def rune_error_def valid_rune_def)

lemma utf8_valid_encode [simp]:
  "valid_rune r \<Longrightarrow> utf8_valid (encode_rune r @ rest) = utf8_valid rest"
  using encode_rune_not_error [of r] by (subst utf8_valid.simps) (auto simp: decode_encode)

lemma utf8_valid_encode_runes [simp]:
  "\<forall>r \<in> set rs. valid_rune r \<Longrightarrow> utf8_valid (encode_runes rs @ rest) = utf8_valid rest"
  by (induction rs) simp_all

lemma runes_cases:
  assumes "xs \<noteq> []"
  shows "(\<exists>r rest. valid_rune r \<and> xs = encode_rune r @ rest)
    \<or> (\<exists>rest. xs \<noteq> [] \<and> decode_rune xs = (rune_error, 1) \<and> rest = tl xs)"
  using decode_rune_cases [OF assms] assms by (auto simp: well_decoded_def)

text \<open>Induction over a string rune by rune: a well-formed rune or an ill-formed byte.\<close>

lemma rune_induct [case_names Nil Rune Bad]:
  assumes "P []"
    and "\<And>r rest. valid_rune r \<Longrightarrow> P rest \<Longrightarrow> P (encode_rune r @ rest)"
    and "\<And>x rest. decode_rune (x # rest) = (rune_error, 1) \<Longrightarrow> P rest \<Longrightarrow> P (x # rest)"
  shows "P xs"
proof (induction xs rule: length_induct)
  case (1 xs)
  show ?case
  proof (cases xs)
    case (Cons x rest)
    then consider r rest' where "valid_rune r" "xs = encode_rune r @ rest'"
      | "decode_rune (x # rest) = (rune_error, 1)"
      using runes_cases [of xs] by auto
    then show ?thesis
    proof cases
      case (1 r rest')
      moreover have "P rest'" using "1.IH" 1(2) by simp
      ultimately show ?thesis using assms(2) by simp
    next
      case 2
      moreover have "P rest" using "1.IH" Cons by simp
      ultimately show ?thesis using assms(3) Cons by simp
    qed
  qed (use assms(1) in simp)
qed

lemma runes_bad: "decode_rune (x # rest) = (rune_error, 1) \<Longrightarrow> runes (x # rest) = rune_error # runes rest"
  by (subst runes.simps) simp

lemma utf8_valid_bad: "decode_rune (x # rest) = (rune_error, 1) \<Longrightarrow> \<not> utf8_valid (x # rest)"
  by (subst utf8_valid.simps) simp

lemma runes_valid: "r \<in> set (runes xs) \<Longrightarrow> valid_rune r"
  by (induction xs rule: rune_induct) (auto simp: runes_bad)

lemma encode_runes_id: "utf8_valid xs \<Longrightarrow> encode_runes (runes xs) = xs"
  by (induction xs rule: rune_induct) (auto simp: utf8_valid_bad)

lemma encode_runes_valid: "utf8_valid (encode_runes (runes xs))"
  using utf8_valid_encode_runes [of "runes xs" "[]"] runes_valid by auto

lemma encode_runes_bound: "n \<in> set (encode_runes rs) \<Longrightarrow> n < 256"
  using encode_rune_bound by (auto simp: encode_runes_def)

section \<open>Strings as runes\<close>

definition string_runes :: "string \<Rightarrow> rune list" where
  "string_runes s = runes (codes s)"

definition runes_string :: "rune list \<Rightarrow> string" where
  "runes_string rs = chars (encode_runes rs)"

definition valid_string :: "string \<Rightarrow> bool" where
  "valid_string s = utf8_valid (codes s)"

definition valid_runes :: "rune list \<Rightarrow> bool" where
  "valid_runes rs = (\<forall>r \<in> set rs. valid_rune r)"

lemma codes_runes_string: "codes (runes_string rs) = encode_runes rs"
  by (simp add: runes_string_def codes_chars encode_runes_bound)

lemma string_runes_string [simp]: "valid_runes rs \<Longrightarrow> string_runes (runes_string rs) = rs"
  using runes_encode_runes [of rs "[]"]
  by (simp add: string_runes_def codes_runes_string valid_runes_def)

lemma valid_runes_of_string [simp]: "valid_runes (string_runes s)"
  by (simp add: valid_runes_def string_runes_def runes_valid)

lemma runes_string_id: "valid_string s \<Longrightarrow> runes_string (string_runes s) = s"
  by (simp add: runes_string_def string_runes_def valid_string_def encode_runes_id)

lemma valid_runes_string [simp]: "valid_runes rs \<Longrightarrow> valid_string (runes_string rs)"
  using utf8_valid_encode_runes [of rs "[]"]
  by (simp add: valid_string_def codes_runes_string valid_runes_def)

text \<open>An ASCII string is its own sequence of runes.\<close>

definition ascii_string :: "string \<Rightarrow> bool" where
  "ascii_string s \<longleftrightarrow> (\<forall>n \<in> set (codes s). n < 0x80)"

lemma runes_ascii: "\<forall>n \<in> set xs. n < 0x80 \<Longrightarrow> runes xs = xs \<and> utf8_valid xs"
proof (induction xs)
  case (Cons x xs)
  then have "valid_rune x" "encode_rune x = [x]" by (simp_all add: valid_rune_def)
  with Cons runes_encode [of x xs] utf8_valid_encode [of x xs] show ?case by simp
qed simp

lemma string_runes_ascii: "ascii_string s \<Longrightarrow> string_runes s = codes s \<and> valid_string s"
  using runes_ascii by (simp add: ascii_string_def string_runes_def valid_string_def)

section \<open>ASCII separators\<close>

text \<open>An ASCII byte ends every multi-byte sequence, well-formed or not.\<close>

lemma decode_rune_cut: "a < 0x80 \<Longrightarrow> decode_rune (x # rest @ a # ys) = decode_rune (x # rest)"
proof -
  assume a: "a < 0x80"
  consider "rest = []" | y where "rest = [y]" | y z where "rest = [y, z]"
    | y z u us where "rest = y # z # u # us"
    by (metis list.exhaust)
  then show ?thesis
    using a by cases (auto simp: utf8_accept_def)
qed

lemma utf8_valid_split: "a < 0x80 \<Longrightarrow> utf8_valid (xs @ a # ys) \<longleftrightarrow> utf8_valid xs \<and> utf8_valid ys"
proof (induction xs rule: rune_induct)
  case Nil
  then show ?case using utf8_valid_encode [of a ys] by (simp add: valid_rune_def)
next
  case (Bad x rest)
  then have "decode_rune (x # rest @ a # ys) = (rune_error, 1)" by (simp only: decode_rune_cut)
  then show ?case using Bad.hyps utf8_valid_bad by auto
qed simp

lemma ascii_in_encode_rune: "a < 0x80 \<Longrightarrow> a \<in> set (encode_rune r) \<longleftrightarrow> a = r"
  by (auto simp: encode_rune_def Let_def valid_rune_def rune_error_def)

text \<open>Splitting at an ASCII separator commutes with decoding.\<close>

lemma split_on_encode_rune:
  assumes "a < 0x80" "a \<noteq> r"
  shows "split_on a (encode_rune r @ xs) =
    (case split_on a xs of [] \<Rightarrow> [] | f # fs \<Rightarrow> (encode_rune r @ f) # fs)"
proof -
  have "split_on a (e @ xs) = (case split_on a xs of [] \<Rightarrow> [] | f # fs \<Rightarrow> (e @ f) # fs)"
    if "a \<notin> set e" for e
    using that by (induction e) (auto split: list.splits)
  then show ?thesis using ascii_in_encode_rune [OF assms(1), of r] assms(2) by simp
qed

lemma split_on_encode_runes:
  assumes "a < 0x80"
  shows "split_on a (encode_runes rs) = map encode_runes (split_on a rs)"
proof (induction rs)
  case (Cons r rs)
  then show ?case
    using assms by (cases "r = a") (auto simp: split_on_encode_rune split: list.splits)
qed simp

lemma split_on_chars:
  assumes "inj_on f (insert c (set xs))"
  shows "split_on (f c) (map f xs) = map (map f) (split_on c xs)"
  using assms
proof (induction xs)
  case (Cons x xs)
  then have "split_on (f c) (map f xs) = map (map f) (split_on c xs)"
    by (auto intro: inj_on_subset)
  moreover have "f x = f c \<longleftrightarrow> x = c" using Cons.prems by (auto simp: inj_on_def)
  ultimately show ?case by (auto split: list.splits)
qed simp

lemma codes_split_on: "split_on (of_char c) (codes s) = map codes (split_on c s)"
  unfolding codes_def by (rule split_on_chars) (simp add: inj_on_def)

end
