(* ===== verification/Topic.thy ===== *)
theory Topic
  imports Utf8 "HOL-Library.Sublist"
begin

text \<open>
  \<open>mqtt/topic.go\<close>: the translation between MQTT topics and NATS subjects, rune by rune, and
  the regular expression that a subscription is turned into for the matching of retained
  messages.  The part of Go's \<open>regexp\<close> that such a pattern can use is modelled: literals,
  escapes, \<open>^\<close>, \<open>[/]+\<close> and \<open>.*\<close>, with an unanchored search.
\<close>

section \<open>Topics and subjects\<close>

definition dot :: rune where "dot = of_char CHR ''.''"
definition slash :: rune where "slash = of_char CHR ''/''"
definition star :: rune where "star = of_char CHR ''*''"
definition plus :: rune where "plus = of_char CHR ''+''"
definition hash :: rune where "hash = of_char CHR ''#''"
definition gt :: rune where "gt = of_char CHR ''>''"

lemmas topic_runes = dot_def slash_def star_def plus_def hash_def gt_def

text \<open>The bodies of the two switch statements.\<close>

definition to_nats_rune :: "rune \<Rightarrow> rune" where
  "to_nats_rune c = (if c = dot then slash else if c = slash then dot else c)"

definition to_nats_sub_rune :: "rune \<Rightarrow> rune" where
  "to_nats_sub_rune c =
     (if c = dot then slash else if c = slash then dot
      else if c = star then plus else if c = plus then star
      else if c = hash then gt else if c = gt then hash else c)"

text \<open>The loop: \<open>r\<close> is what is left in the reader, \<open>w\<close> what the builder holds.\<close>

function translate_loop :: "(rune \<Rightarrow> rune) \<Rightarrow> nat list \<Rightarrow> nat list \<Rightarrow> nat list" where
  "translate_loop sw r w =
     (if r = [] then w
      else case decode_rune r of (c, n) \<Rightarrow> translate_loop sw (drop n r) (w @ encode_rune (sw c)))"
  by pat_completeness auto
termination
  by (relation "measure (\<lambda>(sw, r, w). length r)")
    (simp_all, metis decode_size_pos diff_less length_greater_0_conv snd_conv)

declare translate_loop.simps [simp del]

definition to_nats :: "string \<Rightarrow> string" where
  "to_nats t = chars (translate_loop to_nats_rune (codes t) [])"

definition to_nats_subscription :: "string \<Rightarrow> string" where
  "to_nats_subscription t = chars (translate_loop to_nats_sub_rune (codes t) [])"

definition from_nats :: "string \<Rightarrow> string" where
  "from_nats t = to_nats t"

definition from_nats_subscription :: "string \<Rightarrow> string" where
  "from_nats_subscription t = to_nats_subscription t"

lemma translate_loop_runes: "translate_loop sw r w = w @ encode_runes (map sw (runes r))"
proof (induction sw r w rule: translate_loop.induct)
  case (1 sw r w)
  then show ?case
    by (subst translate_loop.simps, subst runes.simps) (auto split: prod.splits)
qed

lemma to_nats_runes: "to_nats t = runes_string (map to_nats_rune (string_runes t))"
  by (simp add: to_nats_def translate_loop_runes runes_string_def string_runes_def)

lemma to_nats_subscription_runes:
  "to_nats_subscription t = runes_string (map to_nats_sub_rune (string_runes t))"
  by (simp add: to_nats_subscription_def translate_loop_runes runes_string_def string_runes_def)

text \<open>
  What both translations share: an involution on the runes that keeps them encodable, applied
  to every rune of a string.
\<close>

locale rune_swap =
  fixes sw :: "rune \<Rightarrow> rune" and conv :: "string \<Rightarrow> string"
  assumes involutive: "sw (sw c) = c"
    and valid: "valid_rune c \<Longrightarrow> valid_rune (sw c)"
    and conv_runes: "conv t = runes_string (map sw (string_runes t))"
begin

lemma string_runes_conv: "string_runes (conv t) = map sw (string_runes t)"
proof -
  have "valid_runes (map sw (string_runes t))"
    using valid_runes_of_string [of t] valid by (simp add: valid_runes_def)
  then show ?thesis by (simp add: conv_runes)
qed

lemma valid_string_conv: "valid_string (conv t)"
  using valid valid_runes_of_string [of t] by (simp add: conv_runes valid_runes_def)

lemma conv_conv: "conv (conv t) = runes_string (string_runes t)"
proof -
  have "sw \<circ> sw = (\<lambda>c. c)" using involutive by auto
  then show ?thesis
    using conv_runes [of "conv t"] by (simp add: string_runes_conv)
qed

lemma round_trip: "valid_string t \<Longrightarrow> conv (conv t) = t"
  by (simp add: conv_conv runes_string_id)

lemma conv_inj: "valid_string s \<Longrightarrow> valid_string t \<Longrightarrow> conv s = conv t \<longleftrightarrow> s = t"
  using round_trip by metis

text \<open>The levels of the translated string are the translated levels.\<close>

lemma split_conv: "split_on (sw c) (string_runes (conv t)) = map (map sw) (split_on c (string_runes t))"
  unfolding string_runes_conv
  by (rule split_on_chars) (metis involutive inj_onI)

end

interpretation topic_swap: rune_swap to_nats_rune to_nats
  by unfold_locales
    (auto simp: to_nats_rune_def topic_runes valid_rune_def to_nats_runes)

interpretation filter_swap: rune_swap to_nats_sub_rune to_nats_subscription
  by unfold_locales
    (auto simp: to_nats_sub_rune_def topic_runes valid_rune_def to_nats_subscription_runes)

section \<open>The pattern of a subscription\<close>

text \<open>\<open>regexp.QuoteMeta\<close>: a backslash before each special byte.\<close>

definition regexp_special :: string where
  "regexp_special = CHR 0x5C # ''.+*?()|[]{}^$''"

definition quote_meta :: "string \<Rightarrow> string" where
  "quote_meta p = concat (map (\<lambda>c. if c \<in> set regexp_special then [CHR 0x5C, c] else [c]) p)"

definition match_segment :: string where "match_segment = ''^[/]+''"
definition match_rest :: string where "match_rest = ''.*''"

text \<open>The body of the loop over the segments of a subscription.\<close>

definition segment_pattern :: "string \<Rightarrow> string" where
  "segment_pattern p =
     (if length p = 1 \<and> p ! 0 = CHR ''+'' then match_segment
      else if length p = 1 \<and> p ! 0 = CHR ''#'' then match_rest
      else quote_meta p)"

fun write_segments :: "nat \<Rightarrow> string list \<Rightarrow> string \<Rightarrow> string" where
  "write_segments i [] w = w"
| "write_segments i (p # ps) w =
     write_segments (Suc i) ps ((if 0 < i then w @ ''/'' else w) @ segment_pattern p)"

definition subscription_pattern :: "string \<Rightarrow> string" where
  "subscription_pattern s = write_segments 0 (split_on CHR ''/'' s) []"

lemma write_segments_Suc:
  "write_segments (Suc i) ps w = w @ concat (map (\<lambda>p. CHR ''/'' # segment_pattern p) ps)"
  by (induction ps arbitrary: i w) auto

lemma join_with_concat: "join_with c (f # fs) = f @ concat (map (\<lambda>g. c # g) fs)"
  by (induction fs arbitrary: f) auto

lemma subscription_pattern_join:
  "subscription_pattern s = join_with CHR ''/'' (map segment_pattern (split_on CHR ''/'' s))"
proof -
  obtain p ps where "split_on CHR ''/'' s = p # ps" by (meson neq_Nil_conv split_on_nonempty)
  then show ?thesis
    by (simp add: subscription_pattern_def write_segments_Suc join_with_concat comp_def del: join_with.simps)
qed

section \<open>Regular expressions\<close>

datatype atom = Begin | Lit rune | SlashPlus | AnyStar

definition is_alnum :: "rune \<Rightarrow> bool" where
  "is_alnum c \<longleftrightarrow> (48 \<le> c \<and> c \<le> 57) \<or> (65 \<le> c \<and> c \<le> 90) \<or> (97 \<le> c \<and> c \<le> 122)"

definition special_runes :: "rune list" where
  "special_runes = codes regexp_special"

text \<open>The parser of \<open>regexp/syntax\<close> on the constructs of a pattern; \<open>None\<close> on others.\<close>

fun compile_runes :: "rune list \<Rightarrow> atom list option" where
  "compile_runes [] = Some []"
| "compile_runes (c # rs) =
     (if c = 0x5C then
        (case rs of [] \<Rightarrow> None
         | d # rs' \<Rightarrow> if d < 0x80 \<and> \<not> is_alnum d then map_option (Cons (Lit d)) (compile_runes rs')
                      else None)
      else if c = 0x5E then map_option (Cons Begin) (compile_runes rs)
      else if c = 0x2E then
        (case rs of [] \<Rightarrow> None
         | d # rs' \<Rightarrow> if d = 0x2A then map_option (Cons AnyStar) (compile_runes rs') else None)
      else if c = 0x5B then
        (if take 3 rs = [0x2F, 0x5D, 0x2B]
         then map_option (Cons SlashPlus) (compile_runes (drop 3 rs)) else None)
      else if c \<in> set special_runes then None
      else map_option (Cons (Lit c)) (compile_runes rs))"

declare compile_runes.simps(2) [simp del]

definition regexp_must_compile :: "string \<Rightarrow> go_error + atom list" where
  "regexp_must_compile p =
     (if \<not> valid_string p then Inl (Panic ''regexp: Compile: invalid UTF-8'')
      else case compile_runes (string_runes p) of
        None \<Rightarrow> Inl (Panic ''regexp: Compile'')
      | Some as \<Rightarrow> Inr as)"

definition subscription_to_regexp :: "string \<Rightarrow> go_error + atom list" where
  "subscription_to_regexp s = regexp_must_compile (subscription_pattern s)"

text \<open>
  A match at a position (\<open>start\<close> says whether it is the beginning of the text), and the
  unanchored search of \<open>MatchString\<close>.  The dot does not match a newline.
\<close>

function match_here :: "bool \<Rightarrow> atom list \<Rightarrow> rune list \<Rightarrow> bool" where
  "match_here start [] rs = True"
| "match_here start (Begin # as) rs = (start \<and> match_here start as rs)"
| "match_here start (Lit c # as) rs =
     (case rs of [] \<Rightarrow> False | r # rs' \<Rightarrow> r = c \<and> match_here False as rs')"
| "match_here start (SlashPlus # as) rs =
     (case rs of [] \<Rightarrow> False
      | r # rs' \<Rightarrow> r = slash \<and> (match_here False as rs' \<or> match_here False (SlashPlus # as) rs'))"
| "match_here start (AnyStar # as) rs =
     (match_here start as rs
      \<or> (case rs of [] \<Rightarrow> False | r # rs' \<Rightarrow> r \<noteq> 0x0A \<and> match_here False (AnyStar # as) rs'))"
  by pat_completeness auto
termination
  by (relation "measure (\<lambda>(start, as, rs). length as + length rs)") auto

fun search :: "bool \<Rightarrow> atom list \<Rightarrow> rune list \<Rightarrow> bool" where
  "search start as [] = match_here start as []"
| "search start as (r # rs) = (match_here start as (r # rs) \<or> search False as rs)"

definition match_string :: "atom list \<Rightarrow> string \<Rightarrow> bool" where
  "match_string as t = search True as (string_runes t)"

section \<open>What a pattern compiles to\<close>

text \<open>The atoms of a level and of a filter, as the source means them.\<close>

definition level_atoms :: "rune list \<Rightarrow> atom list" where
  "level_atoms f = (if f = [plus] then [Begin, SlashPlus] else if f = [hash] then [AnyStar] else map Lit f)"

fun filter_atoms :: "rune list list \<Rightarrow> atom list" where
  "filter_atoms [] = []"
| "filter_atoms [f] = level_atoms f"
| "filter_atoms (f # fs) = level_atoms f @ Lit slash # filter_atoms fs"

text \<open>Quoting on code units and on runes.\<close>

definition quote_runes :: "rune list \<Rightarrow> rune list" where
  "quote_runes rs = concat (map (\<lambda>c. if c \<in> set special_runes then [0x5C, c] else [c]) rs)"

lemma quote_runes_simps [simp]:
  "quote_runes [] = []"
  "quote_runes (c # rs) = (if c \<in> set special_runes then 0x5C # c # quote_runes rs else c # quote_runes rs)"
  by (simp_all add: quote_runes_def)

lemma quote_runes_append [simp]: "quote_runes (rs @ ss) = quote_runes rs @ quote_runes ss"
  by (simp add: quote_runes_def)

lemma codes_Cons [simp]: "codes (c # s) = of_char c # codes s"
  by (simp add: codes_def)

lemma codes_Nil [simp]: "codes [] = []"
  by (simp add: codes_def)

lemma codes_append [simp]: "codes (s @ t) = codes s @ codes t"
  by (simp add: codes_def)

lemma inj_codes [simp]: "codes s = codes t \<longleftrightarrow> s = t"
  by (metis chars_codes)

lemma special_char: "of_char c \<in> set special_runes \<longleftrightarrow> c \<in> set regexp_special"
  by (auto simp: special_runes_def codes_def)

lemma codes_quote_meta: "codes (quote_meta p) = quote_runes (codes p)"
  by (induction p) (auto simp: quote_meta_def special_char)

lemma special_runes_eval:
  "special_runes = [0x5C, 0x2E, 0x2B, 0x2A, 0x3F, 0x28, 0x29, 0x7C, 0x5B, 0x5D, 0x7B, 0x7D, 0x5E, 0x24]"
  by (simp add: special_runes_def regexp_special_def)

lemma special_ascii: "c \<in> set special_runes \<Longrightarrow> c < 0x80 \<and> \<not> is_alnum c"
  by (auto simp: special_runes_eval is_alnum_def)

lemma quote_nonspecial: "\<forall>c \<in> set xs. c \<notin> set special_runes \<Longrightarrow> quote_runes xs = xs"
  by (induction xs) auto

lemma quote_encode_rune:
  "quote_runes (encode_rune r) = (if r \<in> set special_runes then [0x5C, r] else encode_rune r)"
proof (cases "r \<in> set special_runes")
  case True
  then show ?thesis using special_ascii by (simp add: encode_rune_ascii)
next
  case False
  then have "\<forall>c \<in> set (encode_rune r). c \<notin> set special_runes"
    using special_ascii ascii_in_encode_rune by metis
  then show ?thesis using False by (simp add: quote_nonspecial)
qed

lemma quote_encode_runes: "quote_runes (encode_runes rs) = encode_runes (quote_runes rs)"
proof (induction rs)
  case (Cons r rs)
  then show ?case using special_ascii [of r] by (auto simp: quote_encode_rune)
qed simp

lemma bad_not_ascii: "decode_rune (x # rest) = (rune_error, 1) \<Longrightarrow> 0x80 \<le> x"
  by (auto simp: rune_error_def split: if_splits)

text \<open>Quoting neither repairs nor breaks the encoding.\<close>

lemma decode_bad_quote:
  assumes "decode_rune (x # rest) = (rune_error, 1)"
  shows "decode_rune (x # quote_runes rest) = (rune_error, 1)"
proof (cases "\<exists>a \<in> set rest. a < 0x80")
  case True
  then obtain xs a ys where r: "rest = xs @ a # ys" "a < 0x80" "\<forall>c \<in> set xs. \<not> c < 0x80"
    using split_list_first_prop [of rest "\<lambda>a. a < 0x80"] by blast
  then have q: "quote_runes xs = xs"
    using special_ascii by (intro quote_nonspecial) blast
  obtain b zs where "quote_runes (a # ys) = b # zs" "b < 0x80"
    using r(2) by (cases "a \<in> set special_runes") auto
  then show ?thesis
    using assms decode_rune_cut [of a x xs ys] decode_rune_cut [of b x xs zs] r q by simp
next
  case False
  then have "quote_runes rest = rest"
    using special_ascii by (intro quote_nonspecial) blast
  with assms show ?thesis by simp
qed

lemma utf8_valid_ascii: "a < 0x80 \<Longrightarrow> utf8_valid (a # xs) = utf8_valid xs"
  using utf8_valid_split [of a "[]" xs] by simp

lemma utf8_valid_quote: "utf8_valid (quote_runes xs) = utf8_valid xs"
proof (induction xs rule: rune_induct)
  case (Rune r rest)
  then show ?case
    using special_ascii [of r] by (auto simp: quote_encode_rune utf8_valid_ascii)
next
  case (Bad x rest)
  then have "x \<notin> set special_runes" using bad_not_ascii special_ascii by fastforce
  with Bad show ?case using decode_bad_quote utf8_valid_bad by simp
qed simp

text \<open>A pattern is valid UTF-8 exactly when its subscription is.\<close>

lemma codes_join_with: "codes (join_with c fs) = join_with (of_char c) (map codes fs)"
  by (induction c fs rule: join_with.induct) auto

lemma utf8_valid_join:
  assumes "a < 0x80" "fs \<noteq> []"
  shows "utf8_valid (join_with a fs) \<longleftrightarrow> (\<forall>f \<in> set fs. utf8_valid f)"
  using assms by (induction a fs rule: join_with.induct) (auto simp: utf8_valid_split)

lemma valid_string_split:
  "valid_string s \<longleftrightarrow> (\<forall>p \<in> set (split_on CHR ''/'' s). valid_string p)"
  using utf8_valid_join [of "of_char CHR ''/''" "map codes (split_on CHR ''/'' s)"]
    codes_join_with [of "CHR ''/''" "split_on CHR ''/'' s"]
  by (simp add: valid_string_def)

lemma length_1_iff: "length p = 1 \<and> p ! 0 = c \<longleftrightarrow> p = [c]"
  by (cases p) auto

lemma segment_pattern_eq:
  "segment_pattern p = (if p = ''+'' then match_segment else if p = ''#'' then match_rest else quote_meta p)"
  unfolding segment_pattern_def length_1_iff ..

lemma valid_string_quote: "valid_string (quote_meta p) = valid_string p"
  by (simp add: valid_string_def codes_quote_meta utf8_valid_quote)

lemma valid_ascii_list: "\<forall>a \<in> set xs. a < 0x80 \<Longrightarrow> utf8_valid xs"
  using runes_ascii by simp

lemma valid_segment: "valid_string (segment_pattern p) = valid_string p"
  by (simp add: segment_pattern_eq valid_string_quote)
    (simp add: valid_string_def match_segment_def match_rest_def utf8_valid_ascii)

lemma valid_pattern: "valid_string (subscription_pattern s) = valid_string s"
proof -
  have "valid_string (subscription_pattern s)
    = (\<forall>p \<in> set (split_on CHR ''/'' s). valid_string (segment_pattern p))"
    using utf8_valid_join [of "of_char CHR ''/''" "map codes (map segment_pattern (split_on CHR ''/'' s))"]
    by (simp add: subscription_pattern_join valid_string_def codes_join_with)
  also have "\<dots> = valid_string s"
    by (simp add: valid_segment flip: valid_string_split)
  finally show ?thesis .
qed

text \<open>The parser reads a quoted level as its literals.\<close>

lemma compile_quote:
  "compile_runes (quote_runes rs @ ps) = map_option (append (map Lit rs)) (compile_runes ps)"
proof (induction rs)
  case Nil
  then show ?case by (simp add: option.map_ident)
next
  case (Cons c rs)
  then show ?case
    using special_ascii [of c]
    by (cases "c \<in> set special_runes")
      (auto simp: compile_runes.simps(2) option.map_comp comp_def special_runes_eval)
qed

text \<open>The runes of the pattern of a level.\<close>

definition level_pattern :: "rune list \<Rightarrow> rune list" where
  "level_pattern f =
     (if f = [plus] then codes match_segment else if f = [hash] then codes match_rest else quote_runes f)"

lemma compile_level:
  "compile_runes (level_pattern f @ ps) = map_option (append (level_atoms f)) (compile_runes ps)"
  by (cases "compile_runes ps") (auto simp: level_pattern_def level_atoms_def compile_quote
      match_segment_def match_rest_def compile_runes.simps(2))

lemma compile_slash: "compile_runes (slash # ps) = map_option (Cons (Lit slash)) (compile_runes ps)"
  by (simp add: compile_runes.simps(2) slash_def special_runes_eval)

lemma compile_levels:
  "fs \<noteq> [] \<Longrightarrow> compile_runes (join_with slash (map level_pattern fs)) = Some (filter_atoms fs)"
proof (induction fs rule: filter_atoms.induct)
  case (2 f)
  then show ?case using compile_level [of f "[]"] by simp
qed (simp_all add: compile_level compile_slash)

text \<open>The levels of a subscription, as lists of runes.\<close>

definition levels :: "string \<Rightarrow> rune list list" where
  "levels s = split_on slash (string_runes s)"

lemma string_runes_codes:
  "valid_string s \<Longrightarrow> codes s = encode_runes (string_runes s)"
  by (simp add: valid_string_def string_runes_def encode_runes_id)

lemma slash_eq: "slash = of_char CHR ''/''"
  by (simp add: slash_def)

lemma levels_runes: "valid_string s \<Longrightarrow> levels s = map string_runes (split_on CHR ''/'' s)"
proof -
  assume v: "valid_string s"
  have "map encode_runes (levels s) = map codes (split_on CHR ''/'' s)"
    using split_on_encode_runes [of slash "string_runes s"] codes_split_on [of "CHR ''/''" s]
    by (simp add: levels_def slash_def flip: string_runes_codes [OF v])
  then have "map runes (map encode_runes (levels s)) = map runes (map codes (split_on CHR ''/'' s))"
    by simp
  moreover have "runes (encode_runes f) = f" if "f \<in> set (levels s)" for f
  proof -
    have "set f \<subseteq> set (string_runes s)"
      using that unfolding levels_def by (rule split_on_subset)
    then have "\<forall>r \<in> set f. valid_rune r"
      using valid_runes_of_string [of s] by (auto simp: valid_runes_def)
    from runes_encode_runes [OF this, of "[]"] show ?thesis by simp
  qed
  ultimately show ?thesis by (simp add: string_runes_def comp_def map_idI)
qed

lemma encode_segment:
  assumes "valid_string p"
  shows "codes (segment_pattern p) = encode_runes (level_pattern (string_runes p))"
proof -
  have e: "string_runes p = codes q \<longleftrightarrow> p = q" if "ascii_string q" for q
    using that assms by (metis runes_string_id string_runes_ascii)
  have q: "string_runes p = [plus] \<longleftrightarrow> p = ''+''" "string_runes p = [hash] \<longleftrightarrow> p = ''#''"
    using e [of "''+''"] e [of "''#''"] by (simp_all add: ascii_string_def plus_def hash_def)
  have c: "encode_runes (codes match_segment) = codes match_segment"
    "encode_runes (codes match_rest) = codes match_rest"
    by (simp_all add: match_segment_def match_rest_def)
  show ?thesis
    using string_runes_codes [OF assms]
    by (simp add: segment_pattern_eq level_pattern_def q c codes_quote_meta quote_encode_runes)
qed

lemma encode_join: "a < 0x80 \<Longrightarrow> encode_runes (join_with a fs) = join_with a (map encode_runes fs)"
  by (induction a fs rule: join_with.induct) auto

lemma valid_runes_quote: "\<forall>r \<in> set rs. valid_rune r \<Longrightarrow> \<forall>r \<in> set (quote_runes rs). valid_rune r"
  by (auto simp: quote_runes_def valid_rune_def split: if_splits)

lemma valid_level_pattern: "\<forall>r \<in> set f. valid_rune r \<Longrightarrow> \<forall>r \<in> set (level_pattern f). valid_rune r"
  using valid_runes_quote [of f]
  by (auto simp: level_pattern_def match_segment_def match_rest_def valid_rune_def)

lemma set_join_with: "set (join_with a fs) \<subseteq> insert a (\<Union> (set ` set fs))"
  by (induction a fs rule: join_with.induct) auto

lemma string_runes_pattern:
  assumes "valid_string s"
  shows "string_runes (subscription_pattern s) = join_with slash (map level_pattern (levels s))"
proof -
  let ?ps = "split_on CHR ''/'' s"
  have v: "\<forall>p \<in> set ?ps. valid_string p" using assms valid_string_split by blast
  have "codes (subscription_pattern s) = join_with slash (map (\<lambda>p. codes (segment_pattern p)) ?ps)"
    by (simp add: subscription_pattern_join codes_join_with slash_def comp_def)
  also have "\<dots> = join_with slash (map encode_runes (map level_pattern (levels s)))"
    using v by (simp add: levels_runes [OF assms] encode_segment comp_def cong: map_cong)
  also have "\<dots> = encode_runes (join_with slash (map level_pattern (levels s)))"
    by (simp add: encode_join slash_def)
  finally have c: "codes (subscription_pattern s) = \<dots>" .
  have "\<forall>f \<in> set (levels s). \<forall>r \<in> set f. valid_rune r"
    by (auto simp: levels_runes [OF assms] string_runes_def runes_valid)
  then have p: "\<forall>f \<in> set (map level_pattern (levels s)). \<forall>r \<in> set f. valid_rune r"
    using valid_level_pattern by (simp only: set_map ball_simps) blast
  have "\<forall>r \<in> set (join_with slash (map level_pattern (levels s))). valid_rune r"
  proof
    fix r assume "r \<in> set (join_with slash (map level_pattern (levels s)))"
    then have "r = slash \<or> (\<exists>f \<in> set (map level_pattern (levels s)). r \<in> set f)"
      using set_join_with by fastforce
    then show "valid_rune r"
    proof
      assume "r = slash"
      then show "valid_rune r" by (simp add: slash_def valid_rune_def)
    qed (use p in blast)
  qed
  from runes_encode_runes [OF this, of "[]"] show ?thesis by (simp add: string_runes_def c)
qed

lemma levels_nonempty [simp]: "levels s \<noteq> []"
  by (simp add: levels_def)

text \<open>Compiling a subscription: the intended atoms, or a panic on invalid UTF-8.\<close>

lemma subscription_regexp:
  "subscription_to_regexp s =
     (if valid_string s then Inr (filter_atoms (levels s))
      else Inl (Panic ''regexp: Compile: invalid UTF-8''))"
  by (simp add: subscription_to_regexp_def regexp_must_compile_def valid_pattern
      string_runes_pattern compile_levels)

section \<open>What a pattern matches\<close>

lemma match_here_literals:
  "match_here start (map Lit ls @ as) rs \<longleftrightarrow> (\<exists>rest. rs = ls @ rest \<and> match_here (start \<and> ls = []) as rest)"
  by (induction ls arbitrary: start rs) (auto split: list.splits)

lemma split_Cons_iff:
  "(\<exists>pre post. r # rs = pre @ post \<and> Q pre post)
    \<longleftrightarrow> Q [] (r # rs) \<or> (\<exists>pre post. rs = pre @ post \<and> Q (r # pre) post)"
proof
  assume "\<exists>pre post. r # rs = pre @ post \<and> Q pre post"
  then obtain pre post where p: "r # rs = pre @ post" "Q pre post" by blast
  then show "Q [] (r # rs) \<or> (\<exists>pre post. rs = pre @ post \<and> Q (r # pre) post)"
    by (cases pre) auto
next
  assume "Q [] (r # rs) \<or> (\<exists>pre post. rs = pre @ post \<and> Q (r # pre) post)"
  then show "\<exists>pre post. r # rs = pre @ post \<and> Q pre post"
    by (metis append_Cons append_Nil)
qed

lemma search_suffix: "search start as rs \<longleftrightarrow> (\<exists>pre post. rs = pre @ post \<and> match_here (start \<and> pre = []) as post)"
proof (induction rs arbitrary: start)
  case (Cons r rs)
  have "(\<exists>pre post. r # rs = pre @ post \<and> match_here (start \<and> pre = []) as post)
    \<longleftrightarrow> match_here start as (r # rs) \<or> (\<exists>pre post. rs = pre @ post \<and> match_here False as post)"
    by (simp add: split_Cons_iff)
  then show ?case by (simp add: Cons)
qed simp

text \<open>A pattern of literals is found exactly where it is contained.\<close>

lemma search_literals: "search start (map Lit ls) rs \<longleftrightarrow> sublist ls rs"
  using match_here_literals [of _ ls "[]"] by (auto simp: search_suffix sublist_def)

text \<open>The begin anchor after a literal never matches.\<close>

lemma no_match_anchor: "Begin \<in> set as \<Longrightarrow> \<not> match_here False as rs"
proof (induction False as rs rule: match_here.induct)
qed (auto split: list.splits)

lemma no_match_anchor_after:
  "match_here start (pre @ Lit c # as) rs \<Longrightarrow> Begin \<notin> set as"
proof (induction start "pre @ Lit c # as" rs arbitrary: pre rule: match_here.induct)
  case (3 start c' as' rs)
  then show ?case
    using no_match_anchor by (cases pre; cases rs) (auto simp: append_eq_Cons_conv Cons_eq_append_conv)
next
  case (4 start as' rs)
  then obtain pre' where p: "pre = SlashPlus # pre'" "as' = pre' @ Lit c # as" by (cases pre) auto
  have "match_here start (SlashPlus # as') rs" using 4(4) by (simp only: 4(3))
  then obtain rs' where rs: "rs = slash # rs'"
    and m: "match_here False as' rs' \<or> match_here False (SlashPlus # as') rs'"
    by (subst (asm) match_here.simps(4)) (auto split: list.splits simp del: match_here.simps(4))
  from m show ?case
  proof
    assume "match_here False as' rs'"
    with 4(1) [OF rs p(2)] p(2) show ?thesis by simp
  next
    assume "match_here False (SlashPlus # as') rs'"
    with 4(2) [OF rs, of "SlashPlus # pre'"] p(2) show ?thesis by simp
  qed
next
  case (5 start as' rs)
  then obtain pre' where p: "pre = AnyStar # pre'" "as' = pre' @ Lit c # as" by (cases pre) auto
  have "match_here start (AnyStar # as') rs" using 5(4) by (simp only: 5(3))
  then have "match_here start as' rs \<or> (\<exists>r rs'. rs = r # rs' \<and> match_here False (AnyStar # as') rs')"
    by (subst (asm) match_here.simps(5)) (auto split: list.splits simp del: match_here.simps(5))
  then show ?case
  proof (elim disjE exE conjE)
    assume "match_here start as' rs"
    with 5(1) [OF p(2)] p(2) show ?thesis by simp
  next
    fix r rs' assume rs: "rs = r # rs'" and m: "match_here False (AnyStar # as') rs'"
    then show ?thesis using 5(2) [OF rs, of "AnyStar # pre'"] 5(4) p(2) by simp
  qed
qed (auto simp: append_eq_Cons_conv Cons_eq_append_conv)

lemma Begin_level_atoms [simp]: "Begin \<in> set (level_atoms f) \<longleftrightarrow> f = [plus]"
  by (auto simp: level_atoms_def)

lemma Begin_filter_atoms [simp]: "Begin \<in> set (filter_atoms fs) \<longleftrightarrow> [plus] \<in> set fs"
  by (induction fs rule: filter_atoms.induct) auto

lemma filter_atoms_Cons:
  "fs \<noteq> [] \<Longrightarrow> filter_atoms (f # fs) = level_atoms f @ Lit slash # filter_atoms fs"
  by (cases fs) auto

text \<open>A single-level wildcard below the first level makes the pattern unmatchable.\<close>

lemma no_match_plus:
  assumes "match_here start (filter_atoms (f # fs)) rs"
  shows "[plus] \<notin> set fs"
  using assms no_match_anchor_after [of start "level_atoms f" slash "filter_atoms fs" rs]
  by (cases "fs = []") (auto simp: filter_atoms_Cons)

text \<open>At the first level it stands for one or more slashes at the beginning of the topic.\<close>

lemma match_leading_plus:
  assumes "match_here start (filter_atoms ([plus] # fs)) rs"
  shows "start \<and> prefix [slash] rs"
  using assms by (cases "fs = []"; cases rs) (auto simp: filter_atoms_Cons level_atoms_def)

lemma match_plus_only_leading:
  assumes "match_string (filter_atoms fs) t" "[plus] \<in> set fs"
  shows "hd fs = [plus] \<and> [plus] \<notin> set (tl fs) \<and> prefix [slash] (string_runes t)"
proof -
  obtain f fs' where fs: "fs = f # fs'" using assms(2) by (cases fs) auto
  from assms(1) obtain pre post where m: "string_runes t = pre @ post"
    "match_here (pre = []) (filter_atoms fs) post"
    by (auto simp: match_string_def search_suffix)
  then have "[plus] \<notin> set fs'" using no_match_plus by (simp add: fs)
  with assms(2) fs have "f = [plus]" by simp
  with fs m match_leading_plus [of "pre = []" fs' post] show ?thesis
    using \<open>[plus] \<notin> set fs'\<close> by simp
qed

section \<open>Topic filters as MQTT defines them\<close>

fun levels_match :: "rune list list \<Rightarrow> rune list list \<Rightarrow> bool" where
  "levels_match [] ts = (ts = [])"
| "levels_match (f # fs) ts =
     (if f = [hash] \<and> fs = [] then True
      else case ts of [] \<Rightarrow> False
        | t # ts' \<Rightarrow> (f = [plus] \<or> f = t) \<and> levels_match fs ts')"

definition filter_matches :: "string \<Rightarrow> string \<Rightarrow> bool" where
  "filter_matches f t = levels_match (levels f) (levels t)"

text \<open>A filter without a single-level wildcard whose \<open>#\<close>, if any, is its last level.\<close>

definition plain_filter :: "rune list list \<Rightarrow> bool" where
  "plain_filter fs \<longleftrightarrow> [plus] \<notin> set fs \<and> [hash] \<notin> set (butlast fs)"

text \<open>The runes of a filter before its trailing multi-level wildcard.\<close>

definition literal_part :: "rune list list \<Rightarrow> rune list" where
  "literal_part fs = (if last fs = [hash] then butlast (join_with slash fs) else join_with slash fs)"

lemma filter_atoms_plain:
  assumes "plain_filter fs" "fs \<noteq> []"
  shows "filter_atoms fs = map Lit (literal_part fs) @ (if last fs = [hash] then [AnyStar] else [])"
  using assms
proof (induction fs rule: filter_atoms.induct)
  case (2 f)
  then show ?case by (auto simp: plain_filter_def literal_part_def level_atoms_def)
next
  case (3 f g gs)
  then have IH: "filter_atoms (g # gs) =
      map Lit (literal_part (g # gs)) @ (if last (g # gs) = [hash] then [AnyStar] else [])"
    and f: "f \<noteq> [plus]" "f \<noteq> [hash]"
    by (auto simp: plain_filter_def)
  have "join_with slash (g # gs) \<noteq> []" if "last (g # gs) = [hash]"
    using that by (cases gs) auto
  then have "literal_part (f # g # gs) = f @ slash # literal_part (g # gs)"
    by (auto simp: literal_part_def butlast_append)
  with IH f show ?case by (simp add: level_atoms_def)
qed simp

lemma match_here_any: "match_here start [AnyStar] rs"
  by simp

lemma search_plain:
  assumes "plain_filter fs" "fs \<noteq> []"
  shows "search start (filter_atoms fs) rs \<longleftrightarrow> sublist (literal_part fs) rs"
  using match_here_literals [of _ "literal_part fs" "[AnyStar]"]
    match_here_literals [of _ "literal_part fs" "[]"]
  by (auto simp: filter_atoms_plain [OF assms] search_suffix sublist_def)

text \<open>What a topic must begin with to be matched by a filter without single-level wildcards.\<close>

lemma levels_match_prefix:
  assumes "plain_filter fs" "fs \<noteq> []" "levels_match fs ts" "ts \<noteq> []" "ts \<noteq> butlast fs \<or> last fs \<noteq> [hash]"
  shows "prefix (literal_part fs) (join_with slash ts)"
  using assms
proof (induction fs arbitrary: ts rule: filter_atoms.induct)
  case (2 f)
  then show ?case
    by (cases ts) (auto simp: plain_filter_def literal_part_def split: if_splits)
next
  case (3 f g gs)
  then obtain ts' where ts: "ts = f # ts'" "levels_match (g # gs) ts'"
    by (cases ts) (auto simp: plain_filter_def)
  have ne: "ts' \<noteq> []"
    using ts 3 by (auto split: if_splits)
  have "prefix (literal_part (g # gs)) (join_with slash ts')"
    using 3 ts ne by (intro "3.IH") (auto simp: plain_filter_def)
  moreover have "join_with slash (g # gs) \<noteq> []" if "last (g # gs) = [hash]"
    using that by (cases gs) auto
  then have "literal_part (f # g # gs) = f @ slash # literal_part (g # gs)"
    by (auto simp: literal_part_def butlast_append)
  ultimately show ?case using ne by (simp add: ts join_with_Cons)
qed simp

section \<open>Properties\<close>

text \<open>Evaluation on ASCII strings.\<close>

lemma ascii_runes: "ascii_string s \<Longrightarrow> string_runes s = codes s"
  and ascii_valid: "ascii_string s \<Longrightarrow> valid_string s"
  using string_runes_ascii by auto

lemmas topic_eval = ascii_runes ascii_valid ascii_string_def levels_def topic_runes plain_filter_def
  filter_matches_def literal_part_def to_nats_runes to_nats_subscription_runes runes_string_def
  to_nats_rune_def to_nats_sub_rune_def chars_def


text \<open>C11: Translating a valid UTF-8 topic to a NATS subject and back returns the topic, and so
  does translating a subscription with its wildcards; no two valid topics share a subject.\<close>

theorem topic_round_trip:
  assumes "valid_string t"
  shows "from_nats (to_nats t) = t \<and> from_nats_subscription (to_nats_subscription t) = t
    \<and> (valid_string u \<longrightarrow> (to_nats t = to_nats u \<longleftrightarrow> t = u))"
  using assms
  by (auto simp: from_nats_def from_nats_subscription_def topic_swap.round_trip
      filter_swap.round_trip topic_swap.conv_inj)

theorem topic_round_trip_witness:
  "from_nats (to_nats ''a/b.c'') = ''a/b.c''
   \<and> from_nats_subscription (to_nats_subscription ''a/+/#'') = ''a/+/#''
   \<and> to_nats_subscription ''a/+/#'' = ''a.*.>'' \<and> to_nats ''a/b.c'' \<noteq> to_nats ''a/b/c''"
proof -
  have v: "valid_string ''a/b.c''" "valid_string ''a/+/#''" "valid_string ''a/b/c''" by (simp_all add: topic_eval)
  have "to_nats_subscription ''a/+/#'' = ''a.*.>''"
    by (simp add: topic_eval char_of_def bit_0)
  then show ?thesis
    using topic_round_trip [OF v(1), of "''a/b/c''"] topic_round_trip [OF v(2)] v by simp
qed

text \<open>C15: Turning a subscription into a regular expression panics exactly when the subscription is
  not valid UTF-8; otherwise every level compiles to what the source means it to be.\<close>

theorem subscription_regexp_total:
  "(valid_string s \<longleftrightarrow> subscription_to_regexp s = Inr (filter_atoms (levels s)))
   \<and> (\<not> valid_string s \<longleftrightarrow> (\<exists>m. subscription_to_regexp s = Inl (Panic m)))"
  by (simp add: subscription_regexp)

text \<open>C12: A filter without single-level wildcards finds a retained topic exactly when its
  literal part occurs anywhere in that topic: the search is not anchored.\<close>

theorem plain_filter_finds:
  assumes "valid_string s" "plain_filter (levels s)"
  shows "\<exists>re. subscription_to_regexp s = Inr re
    \<and> (\<forall>t. match_string re t \<longleftrightarrow> sublist (literal_part (levels s)) (string_runes t))"
  using assms by (simp add: subscription_regexp match_string_def search_plain)

theorem plain_filter_finds_witness:
  "\<exists>re. subscription_to_regexp ''an'' = Inr re \<and> match_string re ''banana''
    \<and> \<not> filter_matches ''an'' ''banana''"
proof -
  have "valid_string ''an''" "plain_filter (levels ''an'')" by (simp_all add: topic_eval)
  then obtain re where "subscription_to_regexp ''an'' = Inr re"
    and m: "\<And>t. match_string re t \<longleftrightarrow> sublist (literal_part (levels ''an'')) (string_runes t)"
    using plain_filter_finds [of "''an''"] by blast
  moreover have "sublist (literal_part (levels ''an'')) (string_runes ''banana'')"
    by (simp add: topic_eval sublist_Cons_right)
  moreover have "\<not> filter_matches ''an'' ''banana''" by (simp add: topic_eval)
  ultimately show ?thesis by blast
qed



text \<open>C14: A filter with a single-level wildcard finds a retained topic only if that wildcard is
  its first level and the topic starts with a slash: below the first level it finds nothing.\<close>

theorem plus_filter_finds:
  assumes "subscription_to_regexp s = Inr re" "[plus] \<in> set (levels s)" "match_string re t"
  shows "hd (levels s) = [plus] \<and> [plus] \<notin> set (tl (levels s)) \<and> prefix [slash] (string_runes t)"
  using assms match_plus_only_leading by (auto simp: subscription_regexp split: if_splits)

theorem plus_filter_finds_witness:
  "\<exists>re. subscription_to_regexp ''a/+'' = Inr re \<and> \<not> match_string re ''a/b''
    \<and> filter_matches ''a/+'' ''a/b''"
proof -
  have "valid_string ''a/+''" by (simp add: topic_eval)
  then obtain re where re: "subscription_to_regexp ''a/+'' = Inr re"
    by (simp add: subscription_regexp)
  have "[plus] \<in> set (levels ''a/+'')" "hd (levels ''a/+'') \<noteq> [plus]" "filter_matches ''a/+'' ''a/b''"
    by (simp_all add: topic_eval)
  then show ?thesis using plus_filter_finds [OF re, of "''a/b''"] re by blast
qed

end
