(* ===== verification/Retained.thy ===== *)
theory Retained
  imports Topic Packet_Publish Packet_Subscribe
begin

text \<open>
  \<open>bridge/retained.go\<close> and the handler \<open>HandleRetain\<close> of \<open>bridge/server.go\<close>: the store of
  retained messages, a map with the order in which its topics were added, its operations
  (each runs under one lock and is atomic), and the collection of the messages that match a
  list of subscriptions.  A stored packet is never changed after it is stored, so the
  pointers of the map are values here; a missing entry reads as the nil pointer \<open>None\<close>.
\<close>

section \<open>State and operations\<close>

record retained =
  msgs :: "string \<rightharpoonup> publish"
  order :: "string list"

definition new_retained :: retained where
  "new_retained = \<lparr>msgs = Map.empty, order = []\<rparr>"

definition retained_empty :: "retained \<Rightarrow> bool" where
  "retained_empty r \<longleftrightarrow> length (order r) = 0"

definition retained_add :: "publish \<Rightarrow> retained \<Rightarrow> bool \<times> retained" where
  "retained_add m r =
     (let t = pub_name m;
          present = msgs r t \<noteq> None;
          r1 = r\<lparr>msgs := (msgs r)(t \<mapsto> m)\<rparr>;
          r2 = (if \<not> present then r1\<lparr>order := order r1 @ [t]\<rparr> else r1)
      in (\<not> present, r2))"

text \<open>The loop over the order: shift the rest over the first entry that is the topic.\<close>

function drop_loop :: "string list \<Rightarrow> string \<Rightarrow> nat \<Rightarrow> string list option" where
  "drop_loop ts t i =
     (if i < length ts
      then if ts ! i = t then Some (take i ts @ drop (Suc i) ts) else drop_loop ts t (Suc i)
      else None)"
  by pat_completeness auto
termination
  by (relation "measure (\<lambda>(ts, t, i). length ts - i)") auto

declare drop_loop.simps [simp del]

definition retained_drop :: "string \<Rightarrow> retained \<Rightarrow> bool \<times> retained" where
  "retained_drop t r =
     (if msgs r t \<noteq> None then
        (let r1 = r\<lparr>msgs := (msgs r)(t := None)\<rparr>
         in case drop_loop (order r1) t 0 of
              None \<Rightarrow> (False, r1)
            | Some ts \<Rightarrow> (True, r1\<lparr>order := ts\<rparr>))
      else (False, r))"

text \<open>\<open>HandleRetain\<close>: an empty retained message deletes, any other one replaces.\<close>

definition handle_retain :: "publish \<Rightarrow> retained \<Rightarrow> publish \<times> retained" where
  "handle_retain pp r =
     (if retain_flag pp then
        if length (pub_payload pp) = 0
        then (reset_retain pp, snd (retained_drop (pub_name pp) r))
        else (pp, snd (retained_add pp r))
      else (pp, r))"

section \<open>Matching\<close>

text \<open>First all subscriptions are compiled, then each is tried on every topic.\<close>

fun compile_topics :: "topic list \<Rightarrow> go_error + (atom list \<times> byte) list" where
  "compile_topics [] = Inr []"
| "compile_topics (tp # tps) =
     (case subscription_to_regexp (topic_name tp) of
        Inl e \<Rightarrow> Inl e
      | Inr tx \<Rightarrow>
          (case compile_topics tps of
             Inl e \<Rightarrow> Inl e
           | Inr txs \<Rightarrow> Inr ((tx, topic_qos tp) # txs)))"

type_synonym matches = "publish option list \<times> byte list"

fun match_topics :: "retained \<Rightarrow> atom list \<Rightarrow> byte \<Rightarrow> string list \<Rightarrow> matches \<Rightarrow> matches" where
  "match_topics r tx dq [] acc = acc"
| "match_topics r tx dq (t # ts) (pps, qs) =
     match_topics r tx dq ts
       (if match_string tx t then (pps @ [msgs r t], qs @ [dq]) else (pps, qs))"

fun match_all :: "retained \<Rightarrow> (atom list \<times> byte) list \<Rightarrow> matches \<Rightarrow> matches" where
  "match_all r [] acc = acc"
| "match_all r ((tx, dq) # txs) acc = match_all r txs (match_topics r tx dq (order r) acc)"

definition matching_messages :: "topic list \<Rightarrow> retained \<Rightarrow> go_error + matches" where
  "matching_messages tps r =
     (case compile_topics tps of
        Inl e \<Rightarrow> Inl e
      | Inr txs \<Rightarrow> Inr (match_all r txs ([], [])))"

text \<open>A request of a NATS client: a comma-separated list of NATS subscriptions.\<close>

definition messages_matching_retain_request :: "byte list \<Rightarrow> retained \<Rightarrow> go_error + matches" where
  "messages_matching_retain_request data r =
     (let nats_topics = split_on CHR '','' (string_of data);
          topics = map (\<lambda>t. \<lparr>topic_name = from_nats_subscription t, topic_qos = 0\<rparr>) nats_topics
      in matching_messages topics r)"

section \<open>The store as an interface\<close>

text \<open>What a topic should hold after a history: the last retained message, unless that was empty.\<close>

definition last_retained :: "string \<Rightarrow> publish list \<Rightarrow> publish option \<Rightarrow> publish option" where
  "last_retained t ms old =
     (let hits = filter (\<lambda>m. retain_flag m \<and> pub_name m = t) ms
      in if hits = [] then old
         else if pub_payload (last hits) = [] then None else Some (last hits))"

text \<open>
  What the handlers rely on: a store of one packet per topic that remembers the order of
  insertion.
\<close>

locale packet_store =
  fixes put :: "publish \<Rightarrow> 's \<Rightarrow> bool \<times> 's"
    and del :: "string \<Rightarrow> 's \<Rightarrow> bool \<times> 's"
    and find :: "'s \<Rightarrow> string \<Rightarrow> publish option"
    and keys :: "'s \<Rightarrow> string list"
    and good :: "'s \<Rightarrow> bool"
  assumes find_put: "find (snd (put m s)) = (find s)(pub_name m \<mapsto> m)"
    and put_new: "fst (put m s) \<longleftrightarrow> find s (pub_name m) = None"
    and keys_put: "keys (snd (put m s)) =
      (if find s (pub_name m) = None then keys s @ [pub_name m] else keys s)"
    and find_del: "find (snd (del t s)) = (find s)(t := None)"
    and del_present: "good s \<Longrightarrow> fst (del t s) \<longleftrightarrow> find s t \<noteq> None"
    and keys_del: "good s \<Longrightarrow> keys (snd (del t s)) = remove1 t (keys s)"
    and good_iff: "good s \<longleftrightarrow> distinct (keys s) \<and> set (keys s) = dom (find s)"
begin

lemma good_put: "good s \<Longrightarrow> good (snd (put m s))"
  by (auto simp: good_iff find_put keys_put split: if_splits)

lemma good_del: "good s \<Longrightarrow> good (snd (del t s))"
  using keys_del [of s t] find_del [of t s] by (auto simp: good_iff)

definition retain :: "publish \<Rightarrow> 's \<Rightarrow> 's" where
  "retain m s = (if \<not> retain_flag m then s
     else if pub_payload m = [] then snd (del (pub_name m) s) else snd (put m s))"

lemma good_retain: "good s \<Longrightarrow> good (retain m s)"
  by (simp add: retain_def good_put good_del)

lemma find_history: "find (fold retain ms s) t = last_retained t ms (find s t)"
proof (induction ms arbitrary: s)
  case (Cons m ms)
  have "find (retain m s) t = last_retained t [m] (find s t)"
    by (auto simp: retain_def last_retained_def find_put find_del)
  moreover have "last_retained t ms (last_retained t [m] old) = last_retained t (m # ms) old" for old
    by (auto simp: last_retained_def Let_def)
  ultimately show ?case by (simp add: Cons)
qed (simp add: last_retained_def)

lemma good_history: "good s \<Longrightarrow> good (fold retain ms s)"
  by (induction ms arbitrary: s) (simp_all add: good_retain)

end

lemma drop_loop_remove1:
  "drop_loop ts t i = (if t \<in> set (drop i ts) then Some (take i ts @ remove1 t (drop i ts)) else None)"
proof (induction ts t i rule: drop_loop.induct)
  case (1 ts t i)
  show ?case
  proof (cases "i < length ts")
    case True
    then have "drop i ts = ts ! i # drop (Suc i) ts" by (simp add: Cons_nth_drop_Suc)
    then show ?thesis
      using 1 True by (subst drop_loop.simps) (auto simp: take_Suc_conv_app_nth)
  qed (simp add: drop_loop.simps)
qed

definition retained_ok :: "retained \<Rightarrow> bool" where
  "retained_ok r \<longleftrightarrow> distinct (order r) \<and> set (order r) = dom (msgs r)"

interpretation retained: packet_store retained_add retained_drop msgs order retained_ok
proof unfold_locales
  fix r :: retained and t
  assume "retained_ok r"
  then have "t \<in> set (order r) \<longleftrightarrow> msgs r t \<noteq> None" by (auto simp: retained_ok_def)
  then show "fst (retained_drop t r) \<longleftrightarrow> msgs r t \<noteq> None"
    and "order (snd (retained_drop t r)) = remove1 t (order r)"
    by (auto simp: retained_drop_def drop_loop_remove1 Let_def remove1_idem)
qed (auto simp: retained_add_def retained_drop_def retained_ok_def Let_def split: option.splits)

lemma handle_retain_store: "snd (handle_retain m r) = retained.retain m r"
  by (simp add: handle_retain_def retained.retain_def)

lemma new_retained_ok [simp]: "retained_ok new_retained"
  by (simp add: retained_ok_def new_retained_def)

lemma handle_retain_ok: "retained_ok r \<Longrightarrow> retained_ok (snd (handle_retain m r))"
  by (simp add: handle_retain_store retained.good_retain)

lemma retained_empty_iff: "retained_ok r \<Longrightarrow> retained_empty r \<longleftrightarrow> msgs r = Map.empty"
  by (metis dom_eq_empty_conv length_0_conv retained_empty_def retained_ok_def set_empty)

section \<open>What matching returns\<close>

lemma match_topics_filter:
  "match_topics r tx dq ts (pps, qs) =
     (pps @ map (msgs r) (filter (match_string tx) ts),
      qs @ replicate (length (filter (match_string tx) ts)) dq)"
  by (induction r tx dq ts "(pps, qs)" arbitrary: pps qs rule: match_topics.induct)
    (auto simp: replicate_append_same)

definition hits_of :: "retained \<Rightarrow> atom list \<times> byte \<Rightarrow> (publish option \<times> byte) list" where
  "hits_of r x = map (\<lambda>t. (msgs r t, snd x)) (filter (match_string (fst x)) (order r))"

lemma match_all_hits:
  "match_all r txs (pps, qs) =
     (pps @ map fst (concat (map (hits_of r) txs)), qs @ map snd (concat (map (hits_of r) txs)))"
proof (induction txs arbitrary: pps qs)
  case (Cons x txs)
  obtain tx dq where "x = (tx, dq)" by fastforce
  then show ?case
    using Cons by (simp add: match_topics_filter hits_of_def comp_def map_replicate_const)
qed simp

lemma compile_topics_eq:
  "compile_topics tps =
     (if \<forall>tp \<in> set tps. valid_string (topic_name tp)
      then Inr (map (\<lambda>tp. (filter_atoms (levels (topic_name tp)), topic_qos tp)) tps)
      else Inl (Panic ''regexp: Compile: invalid UTF-8''))"
  by (induction tps) (auto simp: subscription_regexp)

lemma filter_map_concat: "map f (filter P xs) = concat (map (\<lambda>x. if P x then [f x] else []) xs)"
  by (induction xs) auto

text \<open>Every match is a stored packet, with the quality of service of its subscription.\<close>

lemma matching_messages_stored:
  assumes "retained_ok r" "matching_messages tps r = Inr (pps, qs)"
  shows "length pps = length qs \<and> (\<forall>pp \<in> set pps. \<exists>m t. pp = Some m \<and> msgs r t = Some m)"
proof -
  obtain txs where "compile_topics tps = Inr txs" "match_all r txs ([], []) = (pps, qs)"
    using assms(2) by (auto simp: matching_messages_def split: sum.splits)
  then show ?thesis
    using assms(1) by (auto simp: match_all_hits hits_of_def retained_ok_def) blast
qed

section \<open>Properties\<close>

text \<open>C8: After any history of publishes through HandleRetain, the store holds for every topic
  the last retained message of that topic, or nothing if that message was empty, and its
  order lists exactly the topics it holds, each once.\<close>

theorem retained_history:
  "msgs (fold (\<lambda>m r. snd (handle_retain m r)) ms new_retained) t = last_retained t ms None
   \<and> retained_ok (fold (\<lambda>m r. snd (handle_retain m r)) ms new_retained)"
  using retained.find_history [of ms new_retained t] retained.good_history [of new_retained ms]
  by (simp add: handle_retain_store) (simp add: new_retained_def)

text \<open>C16: The messages found for a list of subscriptions are, for each subscription in order and
  each retained topic in order, those whose topic the pattern finds, with the subscription's
  quality of service; an invalid subscription makes the collection panic.\<close>

theorem matching_messages_result:
  "matching_messages tps r =
     (if list_all (\<lambda>tp. valid_string (topic_name tp)) tps
      then Inr (let hits = [(msgs r t, topic_qos tp). tp \<leftarrow> tps, t \<leftarrow> order r,
                              match_string (filter_atoms (levels (topic_name tp))) t]
                in (map fst hits, map snd hits))
      else Inl (Panic ''regexp: Compile: invalid UTF-8''))"
proof -
  have "hits_of r (filter_atoms (levels (topic_name tp)), topic_qos tp)
    = [(msgs r t, topic_qos tp). t \<leftarrow> order r, match_string (filter_atoms (levels (topic_name tp))) t]" for tp :: topic
    by (simp add: hits_of_def filter_map_concat)
  then show ?thesis
    by (simp add: matching_messages_def compile_topics_eq list_all_iff match_all_hits Let_def comp_def)
qed

text \<open>A retained message is found by a subscription to its own topic, whatever else is
  retained, when the topic has no wildcard levels.\<close>

theorem own_topic_found:
  assumes "retained_ok r" "msgs r t = Some m" "valid_string t"
    and "[plus] \<notin> set (levels t)" "[hash] \<notin> set (levels t)"
  shows "\<exists>pps qs. matching_messages [\<lparr>topic_name = t, topic_qos = q\<rparr>] r = Inr (pps, qs)
    \<and> (Some m, q) \<in> set (zip pps qs)"
proof -
  have "t \<in> set (order r)" using assms(1,2) by (auto simp: retained_ok_def)
  moreover have "match_string (filter_atoms (levels t)) t"
  proof -
    have "plain_filter (levels t)" using assms(4,5) by (auto simp: plain_filter_def dest: in_set_butlastD)
    moreover have "last (levels t) \<noteq> [hash]" using assms(5) by (metis last_in_set levels_nonempty)
    then have "literal_part (levels t) = string_runes t" by (simp add: literal_part_def levels_def)
    ultimately show ?thesis by (simp add: match_string_def search_plain)
  qed
  ultimately have "(Some m, q) \<in> set (hits_of r (filter_atoms (levels t), q))"
    using assms(2) by (force simp: hits_of_def)
  then show ?thesis
    using assms(3) by (simp add: matching_messages_def compile_topics_eq match_all_hits zip_map_fst_snd)
qed

theorem own_topic_found_witness:
  "\<exists>pps qs. matching_messages [\<lparr>topic_name = ''a/b'', topic_qos = 1\<rparr>]
       (snd (retained_add (new_publish 0 ''a/b'' 1 [7] False []) new_retained)) = Inr (pps, qs)
     \<and> (Some (new_publish 0 ''a/b'' 1 [7] False []), 1) \<in> set (zip pps qs)"
  by (rule own_topic_found)
    (simp_all add: retained.good_put retained.find_put topic_eval, simp add: new_publish_def)

end
