(* ===== verification/Nats.thy ===== *)
theory Nats
  imports Packet_Connect
begin

text \<open>
  The NATS client library, which is not part of the repository: a record of functions over an
  abstract world \<open>'w\<close> that every operation of the bridge takes as its parameter.  Each field
  is one call the bridge makes; a handler that the bridge registers is data that names the
  method and the client it closes over.
\<close>

type_synonym conn = nat

record nats_sub =
  ns_ref :: nat
  ns_subject :: string

record nats_msg =
  msg_subject :: string
  msg_reply :: string
  msg_data :: "byte list"

text \<open>
  The three callbacks: the one of \<open>natsSubscribeAck\<close>, the one of \<open>natsSubscribe\<close> with its
  quality of service, and \<open>handleRetainedRequest\<close>.
\<close>

datatype handler = AckHandler nat | ResponseHandler nat byte | RetainedRequestHandler

record nats_options =
  opt_servers :: "string list"
  opt_user :: string
  opt_password :: string

record 'w nats =
  nats_connect :: "nats_options \<Rightarrow> 'w \<Rightarrow> (go_error + conn) \<times> 'w"
  nats_close :: "conn \<Rightarrow> 'w \<Rightarrow> 'w"
  nats_publish :: "conn \<Rightarrow> string \<Rightarrow> byte list \<Rightarrow> 'w \<Rightarrow> go_error option \<times> 'w"
  nats_publish_request :: "conn \<Rightarrow> string \<Rightarrow> string \<Rightarrow> byte list \<Rightarrow> 'w \<Rightarrow> go_error option \<times> 'w"
  nats_subscribe :: "conn \<Rightarrow> string \<Rightarrow> handler \<Rightarrow> 'w \<Rightarrow> (go_error + nats_sub) \<times> 'w"
  nats_subscribe_sync :: "conn \<Rightarrow> string \<Rightarrow> 'w \<Rightarrow> (go_error + nats_sub) \<times> 'w"
  nats_next_msg :: "nats_sub \<Rightarrow> 'w \<Rightarrow> (go_error + nats_msg) \<times> 'w"
  nats_unsubscribe :: "nats_sub \<Rightarrow> 'w \<Rightarrow> go_error option \<times> 'w"
  nats_respond :: "nats_msg \<Rightarrow> byte list \<Rightarrow> 'w \<Rightarrow> go_error option \<times> 'w"

text \<open>The error of a synchronous receive that ran into its timeout.\<close>

definition ErrTimeout :: go_error where "ErrTimeout = ErrorString ''nats: timeout''"

text \<open>A subscription carries the subject that it was made for (a documented field).\<close>

definition subscription_subjects :: "'w nats \<Rightarrow> bool" where
  "subscription_subjects api \<longleftrightarrow>
     (\<forall>c s h w ns w'. nats_subscribe api c s h w = (Inr ns, w') \<longrightarrow> ns_subject ns = s)"

text \<open>
  The iteration order of a Go map is unspecified: the operations that range over a map with
  packet identifiers as keys take an enumeration of its keys as a parameter.
\<close>

definition enumerates :: "(u16 set \<Rightarrow> u16 list) \<Rightarrow> bool" where
  "enumerates enum \<longleftrightarrow> (\<forall>A. distinct (enum A) \<and> set (enum A) = A)"

lemma enumerates_sorted: "enumerates sorted_list_of_set"
  by (simp add: enumerates_def)

section \<open>A world that records its calls\<close>

text \<open>
  An instance for evaluation: every call succeeds and is appended to a log; connections and
  subscriptions are numbered by the length of the log.
\<close>

datatype nats_call =
    CallConnect nats_options
  | CallClose conn
  | CallPublish conn string "byte list"
  | CallRequest conn string string "byte list"
  | CallSubscribe conn string handler
  | CallSubscribeSync conn string
  | CallNextMsg nats_sub
  | CallUnsubscribe nats_sub
  | CallRespond nats_msg "byte list"

definition log_nats :: "nats_call list nats" where
  "log_nats =
     \<lparr>nats_connect = \<lambda>opts w. (Inr (length w), w @ [CallConnect opts]),
      nats_close = \<lambda>c w. w @ [CallClose c],
      nats_publish = \<lambda>c s d w. (None, w @ [CallPublish c s d]),
      nats_publish_request = \<lambda>c s r d w. (None, w @ [CallRequest c s r d]),
      nats_subscribe = \<lambda>c s h w. (Inr \<lparr>ns_ref = length w, ns_subject = s\<rparr>, w @ [CallSubscribe c s h]),
      nats_subscribe_sync = \<lambda>c s w. (Inr \<lparr>ns_ref = length w, ns_subject = s\<rparr>, w @ [CallSubscribeSync c s]),
      nats_next_msg = \<lambda>ns w. (Inl ErrTimeout, w @ [CallNextMsg ns]),
      nats_unsubscribe = \<lambda>ns w. (None, w @ [CallUnsubscribe ns]),
      nats_respond = \<lambda>m d w. (None, w @ [CallRespond m d])\<rparr>"

lemma log_nats_simps [simp]:
  "nats_connect log_nats opts w = (Inr (length w), w @ [CallConnect opts])"
  "nats_close log_nats c w = w @ [CallClose c]"
  "nats_publish log_nats c s d w = (None, w @ [CallPublish c s d])"
  "nats_publish_request log_nats c s r d w = (None, w @ [CallRequest c s r d])"
  "nats_subscribe log_nats c s h w =
     (Inr \<lparr>ns_ref = length w, ns_subject = s\<rparr>, w @ [CallSubscribe c s h])"
  "nats_subscribe_sync log_nats c s w =
     (Inr \<lparr>ns_ref = length w, ns_subject = s\<rparr>, w @ [CallSubscribeSync c s])"
  "nats_next_msg log_nats ns w = (Inl ErrTimeout, w @ [CallNextMsg ns])"
  "nats_unsubscribe log_nats ns w = (None, w @ [CallUnsubscribe ns])"
  "nats_respond log_nats m d w = (None, w @ [CallRespond m d])"
  by (simp_all add: log_nats_def)

lemma subscription_subjects_log: "subscription_subjects log_nats"
  by (auto simp: subscription_subjects_def)

end
