(* ===== verification/Session.thy ===== *)
theory Session
  imports Nats Packet_Publish Decimal
begin

text \<open>
  \<open>bridge/session.go\<close>: what a session keeps of the acknowledgements it waits for, in both
  directions, and the session manager.  A Go map that may be nil is an option of a map.
  Clients and the manager share sessions by pointer, so the manager's state holds the heap
  of all sessions ever created and a pointer is an address in it.
\<close>

section \<open>A session\<close>

record session =
  ses_id :: string
  ses_client_id :: string
  prel_awaits_ack :: "(u16 \<rightharpoonup> string) option"
  awaits_ack :: "(u16 \<rightharpoonup> nats_sub) option"
  awaits_client_ack :: "(u16 \<rightharpoonup> publish) option"

text \<open>Reading a map that may be nil, and writing to it after it is made.\<close>

definition read_map :: "('k \<rightharpoonup> 'v) option \<Rightarrow> 'k \<Rightarrow> 'v option" where
  "read_map m k = (case m of None \<Rightarrow> None | Some f \<Rightarrow> f k)"

definition made_map :: "('k \<rightharpoonup> 'v) option \<Rightarrow> 'k \<rightharpoonup> 'v" where
  "made_map m = (case m of None \<Rightarrow> Map.empty | Some f \<Rightarrow> f)"

definition new_session :: "string \<Rightarrow> string \<Rightarrow> session" where
  "new_session i cid = \<lparr>ses_id = i, ses_client_id = cid, prel_awaits_ack = None,
     awaits_ack = None, awaits_client_ack = None\<rparr>"

definition ack_received :: "u16 \<Rightarrow> session \<Rightarrow> nats_sub list \<times> session" where
  "ack_received i s =
     (case awaits_ack s of
        None \<Rightarrow> ([], s)
      | Some m \<Rightarrow>
          (case m i of
             None \<Rightarrow> ([], s)
           | Some sb \<Rightarrow> ([sb], s\<lparr>awaits_ack := Some (m(i := None))\<rparr>)))"

definition ack_requested :: "u16 \<Rightarrow> nats_sub \<Rightarrow> session \<Rightarrow> session" where
  "ack_requested i sb s = s\<lparr>awaits_ack := Some ((made_map (awaits_ack s))(i \<mapsto> sb))\<rparr>"

definition is_awaiting_ack :: "u16 \<Rightarrow> session \<Rightarrow> bool" where
  "is_awaiting_ack i s \<longleftrightarrow> read_map (awaits_ack s) i \<noteq> None"

text \<open>The acknowledgement is forwarded to the reply-to subject of the packet.\<close>

definition client_ack_received ::
  "'w nats \<Rightarrow> u16 \<Rightarrow> conn \<Rightarrow> session \<Rightarrow> 'w \<Rightarrow> bool \<times> session \<times> 'w" where
  "client_ack_received api i c s w =
     (case awaits_client_ack s of
        None \<Rightarrow> (False, s, w)
      | Some m \<Rightarrow>
          (case m i of
             None \<Rightarrow> (False, s, w)
           | Some pp \<Rightarrow>
               (True, s\<lparr>awaits_client_ack := Some (m(i := None))\<rparr>,
                snd (nats_publish api c (pub_reply_to pp) [0] w))))"

definition client_ack_requested :: "publish \<Rightarrow> session \<Rightarrow> session" where
  "client_ack_requested pp s =
     s\<lparr>awaits_client_ack := Some ((made_map (awaits_client_ack s))(pub_id pp \<mapsto> pp))\<rparr>"

text \<open>\<open>Destroy\<close> cancels the pending subscriptions; the errors of that are ignored.\<close>

fun unsubscribe_keys :: "'w nats \<Rightarrow> (u16 \<rightharpoonup> nats_sub) \<Rightarrow> u16 list \<Rightarrow> 'w \<Rightarrow> 'w" where
  "unsubscribe_keys api m [] w = w"
| "unsubscribe_keys api m (k # ks) w =
     unsubscribe_keys api m ks
       (case m k of None \<Rightarrow> w | Some sb \<Rightarrow> snd (nats_unsubscribe api sb w))"

definition session_destroy ::
  "'w nats \<Rightarrow> (u16 set \<Rightarrow> u16 list) \<Rightarrow> session \<Rightarrow> 'w \<Rightarrow> session \<times> 'w" where
  "session_destroy api enum s w =
     (case awaits_ack s of
        None \<Rightarrow> (s, w)
      | Some m \<Rightarrow> (s\<lparr>awaits_ack := None\<rparr>, unsubscribe_keys api m (enum (dom m)) w))"

section \<open>The two directions as one interface\<close>

text \<open>
  Both maps are tables of pending acknowledgements: a request registers an entry under a
  packet identifier, and receiving the acknowledgement takes it out.
\<close>

locale pending_acks =
  fixes fits :: "u16 \<Rightarrow> 'v \<Rightarrow> bool"
    and request :: "u16 \<Rightarrow> 'v \<Rightarrow> 's \<Rightarrow> 's"
    and receive :: "u16 \<Rightarrow> 's \<Rightarrow> 'v option \<times> 's"
    and pending :: "'s \<Rightarrow> u16 \<Rightarrow> 'v option"
  assumes pending_request: "fits i v \<Longrightarrow> pending (request i v s) = (pending s)(i \<mapsto> v)"
    and receive_pending: "fst (receive i s) = pending s i"
    and pending_receive: "pending (snd (receive i s)) = (pending s)(i := None)"
begin

text \<open>An entry is handed out once, and by its own identifier only.\<close>

lemma receive_request: "fits i v \<Longrightarrow> fst (receive i (request i v s)) = Some v"
  by (simp add: receive_pending pending_request)

lemma receive_other: "i \<noteq> j \<Longrightarrow> pending (snd (receive i s)) j = pending s j"
  by (simp add: pending_receive)

lemma receive_twice: "fst (receive i (snd (receive i s))) = None"
  by (simp add: receive_pending pending_receive)

text \<open>A second request under the same identifier loses the first entry.\<close>

lemma request_overwrites:
  "fits i u \<Longrightarrow> fits i v \<Longrightarrow> fst (receive i (request i v (request i u s))) = Some v
   \<and> pending (snd (receive i (request i v (request i u s)))) i = None"
  by (simp add: receive_pending pending_request pending_receive)

end

lemma read_made_map: "read_map (Some ((made_map m)(k \<mapsto> v))) = (read_map m)(k \<mapsto> v)"
  by (rule ext) (auto simp: read_map_def made_map_def split: option.splits)

interpretation nats_acks: pending_acks "\<lambda>i sb. True" ack_requested
  "\<lambda>i s. (case ack_received i s of (sbs, s') \<Rightarrow> (if sbs = [] then None else Some (hd sbs), s'))"
  "\<lambda>s. read_map (awaits_ack s)"
  by unfold_locales
    (auto simp: ack_requested_def ack_received_def read_made_map read_map_def split: option.splits)

interpretation client_acks: pending_acks "\<lambda>i pp. pub_id pp = i"
  "\<lambda>i. client_ack_requested"
  "\<lambda>i s. (read_map (awaits_client_ack s) i, fst (snd (client_ack_received api i c s w)))"
  "\<lambda>s. read_map (awaits_client_ack s)"
  for api :: "'w nats" and c :: conn and w :: 'w
  by unfold_locales
    (auto simp: client_ack_requested_def client_ack_received_def read_made_map read_map_def
      split: option.splits)

lemma ack_received_subs: "fst (ack_received i s) = (case read_map (awaits_ack s) i of None \<Rightarrow> [] | Some sb \<Rightarrow> [sb])"
  by (auto simp: ack_received_def read_map_def split: option.splits)

lemma client_ack_received_found:
  "client_ack_received api i c s w = (found, s', w') \<Longrightarrow>
   found = (read_map (awaits_client_ack s) i \<noteq> None)
   \<and> w' = (case read_map (awaits_client_ack s) i of None \<Rightarrow> w
            | Some pp \<Rightarrow> snd (nats_publish api c (pub_reply_to pp) [0] w))"
  by (auto simp: client_ack_received_def read_map_def split: option.splits)

lemma client_ack_taken:
  "client_ack_received api i c s w = (found, s', w') \<Longrightarrow>
   read_map (awaits_client_ack s') = (read_map (awaits_client_ack s))(i := None)"
  by (rule ext) (auto simp: client_ack_received_def read_map_def split: option.splits)

text \<open>The operations keep the identity of a session and the other table.\<close>

lemma session_frame [simp]:
  "ses_id (ack_requested i sb s) = ses_id s"
  "ses_client_id (ack_requested i sb s) = ses_client_id s"
  "awaits_client_ack (ack_requested i sb s) = awaits_client_ack s"
  "ses_id (client_ack_requested pp s) = ses_id s"
  "ses_client_id (client_ack_requested pp s) = ses_client_id s"
  "awaits_ack (client_ack_requested pp s) = awaits_ack s"
  "ses_id (snd (ack_received i s)) = ses_id s"
  "ses_client_id (snd (ack_received i s)) = ses_client_id s"
  "awaits_client_ack (snd (ack_received i s)) = awaits_client_ack s"
  "ses_id (fst (snd (client_ack_received api i c s w))) = ses_id s"
  "ses_client_id (fst (snd (client_ack_received api i c s w))) = ses_client_id s"
  "awaits_ack (fst (snd (client_ack_received api i c s w))) = awaits_ack s"
  "ses_id (fst (session_destroy api enum s w)) = ses_id s"
  "ses_client_id (fst (session_destroy api enum s w)) = ses_client_id s"
  by (auto simp: ack_requested_def client_ack_requested_def ack_received_def
      client_ack_received_def session_destroy_def split: option.splits)

section \<open>The session manager\<close>

record sm =
  sm_seed :: u32
  sm_m :: "string \<rightharpoonup> nat"
  sm_heap :: "nat \<rightharpoonup> session"
  sm_next :: nat

definition new_sm :: sm where
  "new_sm = \<lparr>sm_seed = 0, sm_m = Map.empty, sm_heap = Map.empty, sm_next = 0\<rparr>"

definition sm_get :: "string \<Rightarrow> sm \<Rightarrow> nat option" where
  "sm_get cid m = sm_m m cid"

definition sm_create :: "string \<Rightarrow> sm \<Rightarrow> nat \<times> sm" where
  "sm_create cid m =
     (let sd = sm_seed m + 1;
          s = new_session (CHR ''s'' # itoa (uint sd)) cid;
          a = sm_next m
      in (a, \<lparr>sm_seed = sd, sm_m = (sm_m m)(cid \<mapsto> a),
              sm_heap = (sm_heap m)(a \<mapsto> s), sm_next = Suc a\<rparr>))"

text \<open>An update of the session behind a pointer.\<close>

definition sm_update :: "nat \<Rightarrow> (session \<Rightarrow> session) \<Rightarrow> sm \<Rightarrow> sm" where
  "sm_update a f m = m\<lparr>sm_heap := (sm_heap m)(a := map_option f (sm_heap m a))\<rparr>"

definition sm_remove :: "'w nats \<Rightarrow> (u16 set \<Rightarrow> u16 list) \<Rightarrow> string \<Rightarrow> sm \<Rightarrow> 'w \<Rightarrow> sm \<times> 'w" where
  "sm_remove api enum cid m w =
     (let m1 = m\<lparr>sm_m := (sm_m m)(cid := None)\<rparr>
      in case sm_m m cid of
           None \<Rightarrow> (m1, w)
         | Some a \<Rightarrow>
             (case sm_heap m1 a of
                None \<Rightarrow> (m1, w)
              | Some s \<Rightarrow>
                  (case session_destroy api enum s w of
                     (s', w') \<Rightarrow> (m1\<lparr>sm_heap := (sm_heap m1)(a \<mapsto> s')\<rparr>, w'))))"

text \<open>What the server and the clients rely on.\<close>

locale session_manager =
  fixes create :: "string \<Rightarrow> 's \<Rightarrow> nat \<times> 's"
    and get :: "string \<Rightarrow> 's \<Rightarrow> nat option"
    and remove :: "string \<Rightarrow> 's \<Rightarrow> 's"
  assumes get_create: "create c s = (a, s') \<Longrightarrow> get d s' = (if d = c then Some a else get d s)"
    and get_remove: "get d (remove c s) = (if d = c then None else get d s)"
begin

text \<open>The choice of a session that a connecting client makes.\<close>

definition attach :: "string \<Rightarrow> bool \<Rightarrow> 's \<Rightarrow> nat \<times> bool \<times> 's" where
  "attach c clean s =
     (if clean then (case create c s of (a, s') \<Rightarrow> (a, False, s'))
      else case get c s of
          Some a \<Rightarrow> (a, True, s)
        | None \<Rightarrow> (case create c s of (a, s') \<Rightarrow> (a, False, s')))"

lemma attach_get: "attach c clean s = (a, present, s') \<Longrightarrow> get c s' = Some a"
  by (auto simp: attach_def get_create split: if_splits option.splits prod.splits)

lemma attach_present: "attach c clean s = (a, present, s') \<Longrightarrow> present \<longleftrightarrow> \<not> clean \<and> get c s = Some a"
  using get_create by (auto simp: attach_def split: if_splits option.splits prod.splits)

lemma attach_present_iff: "attach c clean s = (a, present, s') \<Longrightarrow> present \<longleftrightarrow> \<not> clean \<and> get c s \<noteq> None"
  by (auto simp: attach_def split: if_splits option.splits prod.splits)

lemma attach_other: "attach c clean s = (a, present, s') \<Longrightarrow> d \<noteq> c \<Longrightarrow> get d s' = get d s"
  using get_create by (auto simp: attach_def split: if_splits option.splits prod.splits)

lemma attach_again: "attach c clean s = (a, present, s') \<Longrightarrow> attach c False s' = (a, True, s')"
  using attach_get [of c clean s a present s'] by (simp add: attach_def)

end

interpretation sessions: session_manager sm_create sm_get "\<lambda>c m. fst (sm_remove api enum c m w)"
  for api :: "'w nats" and enum and w
  by unfold_locales
    (auto simp: sm_create_def sm_get_def sm_remove_def Let_def split: option.splits prod.splits)

section \<open>Session identifiers\<close>

text \<open>
  Until the 32-bit seed wraps around, the session at address \<open>a\<close> is the one created as number
  \<open>a + 1\<close>, and every registered pointer leads to a session of its client.
\<close>

definition sm_ok :: "sm \<Rightarrow> bool" where
  "sm_ok m \<longleftrightarrow> dom (sm_heap m) = {..<sm_next m} \<and> unat (sm_seed m) = sm_next m
     \<and> (\<forall>a s. sm_heap m a = Some s \<longrightarrow> ses_id s = CHR ''s'' # itoa (int (Suc a)))
     \<and> (\<forall>c a. sm_m m c = Some a \<longrightarrow> (\<exists>s. sm_heap m a = Some s \<and> ses_client_id s = c))"

lemma new_sm_ok [simp]: "sm_ok new_sm"
  by (simp add: sm_ok_def new_sm_def)

lemma sm_okD:
  assumes "sm_ok m" "sm_m m c = Some a"
  obtains s where "sm_heap m a = Some s" "ses_client_id s = c" "a < sm_next m"
proof -
  from assms obtain s where s: "sm_heap m a = Some s" "ses_client_id s = c"
    unfolding sm_ok_def by blast
  moreover from s(1) have "a \<in> dom (sm_heap m)" by blast
  ultimately show ?thesis using that assms(1) unfolding sm_ok_def by blast
qed

lemma sm_create_ok:
  assumes "sm_ok m" "sm_next m < 2 ^ 32 - 1"
  shows "sm_ok (snd (sm_create c m))"
proof -
  have "unat (sm_seed m + 1) = Suc (unat (sm_seed m))"
    using assms by (simp add: sm_ok_def unat_word_ariths)
  then have sd: "unat (sm_seed m + 1) = Suc (sm_next m)" "uint (sm_seed m + 1) = 1 + int (sm_next m)"
    using assms(1) by (simp_all add: sm_ok_def uint_nat)
  moreover have "sm_m m d \<noteq> Some (sm_next m)" for d
    using sm_okD [OF assms(1)] by (metis less_irrefl)
  ultimately show ?thesis
    using assms(1)
    by (auto simp: sm_ok_def sm_create_def Let_def new_session_def lessThan_Suc add.commute)
qed

lemma sm_update_Some:
  "sm_heap (sm_update a f m) b = Some t \<longleftrightarrow>
     (\<exists>s. sm_heap m b = Some s \<and> t = (if b = a then f s else s))"
  by (auto simp: sm_update_def)

lemma sm_update_frame [simp]:
  "sm_m (sm_update a f m) = sm_m m" "sm_seed (sm_update a f m) = sm_seed m"
  "sm_next (sm_update a f m) = sm_next m" "dom (sm_heap (sm_update a f m)) = dom (sm_heap m)"
  by (auto simp: sm_update_def)

lemma sm_update_ok:
  assumes "sm_ok m" "\<And>s. ses_id (f s) = ses_id s" "\<And>s. ses_client_id (f s) = ses_client_id s"
  shows "sm_ok (sm_update a f m)"
  unfolding sm_ok_def sm_update_frame
proof (intro conjI allI impI)
  show "ses_id t = CHR ''s'' # itoa (int (Suc b))" if "sm_heap (sm_update a f m) b = Some t" for b t
    using that assms by (auto simp: sm_update_Some sm_ok_def)
  show "\<exists>t. sm_heap (sm_update a f m) b = Some t \<and> ses_client_id t = c" if b: "sm_m m c = Some b" for b c
  proof -
    from assms(1) b obtain s where "sm_heap m b = Some s" "ses_client_id s = c"
      by (rule sm_okD)
    then show ?thesis using assms(3) by (auto simp: sm_update_Some)
  qed
qed (use assms(1) in \<open>simp_all add: sm_ok_def\<close>)

lemma sm_unregister_ok: "sm_ok m \<Longrightarrow> sm_ok (m\<lparr>sm_m := (sm_m m)(c := None)\<rparr>)"
  by (auto simp: sm_ok_def split: if_splits)

lemma sm_remove_eq:
  "fst (sm_remove api enum c m w) =
     (let m1 = m\<lparr>sm_m := (sm_m m)(c := None)\<rparr>
      in case sm_m m c of None \<Rightarrow> m1
         | Some a \<Rightarrow> sm_update a (\<lambda>s. fst (session_destroy api enum s w)) m1)"
  by (auto simp: sm_remove_def Let_def sm_update_def fun_upd_idem split: option.splits prod.splits)

lemma sm_remove_ok: "sm_ok m \<Longrightarrow> sm_ok (fst (sm_remove api enum c m w))"
  unfolding sm_remove_eq Let_def
  by (auto intro!: sm_update_ok sm_unregister_ok split: option.split)

lemma sm_ids_distinct:
  assumes "sm_ok m" "sm_heap m a = Some s" "sm_heap m b = Some t" "ses_id s = ses_id t"
  shows "a = b"
proof -
  have "itoa (int (Suc a)) = itoa (int (Suc b))" using assms by (auto simp: sm_ok_def)
  then have "itoa_nat (Suc a) = itoa_nat (Suc b)" by (simp add: itoa_def del: of_nat_Suc)
  then show ?thesis using inj_itoa_nat by blast
qed

section \<open>Histories of a manager\<close>

text \<open>Every operation that the program performs on the manager or through a session pointer.\<close>

datatype sm_op =
    OpCreate string
  | OpRemove string
  | OpAckRequested nat u16 nats_sub
  | OpAckReceived nat u16
  | OpClientAckRequested nat publish
  | OpClientAckReceived nat u16 conn

fun sm_apply :: "'w nats \<Rightarrow> (u16 set \<Rightarrow> u16 list) \<Rightarrow> sm_op \<Rightarrow> sm \<times> 'w \<Rightarrow> sm \<times> 'w" where
  "sm_apply api enum (OpCreate c) (m, w) = (snd (sm_create c m), w)"
| "sm_apply api enum (OpRemove c) (m, w) = sm_remove api enum c m w"
| "sm_apply api enum (OpAckRequested a i sb) (m, w) = (sm_update a (ack_requested i sb) m, w)"
| "sm_apply api enum (OpAckReceived a i) (m, w) = (sm_update a (\<lambda>s. snd (ack_received i s)) m, w)"
| "sm_apply api enum (OpClientAckRequested a pp) (m, w) = (sm_update a (client_ack_requested pp) m, w)"
| "sm_apply api enum (OpClientAckReceived a i c) (m, w) =
     (sm_update a (\<lambda>s. fst (snd (client_ack_received api i c s w))) m,
      case sm_heap m a of None \<Rightarrow> w | Some s \<Rightarrow> snd (snd (client_ack_received api i c s w)))"

definition creates :: "sm_op list \<Rightarrow> nat" where
  "creates ops = length (filter (\<lambda>op. case op of OpCreate c \<Rightarrow> True | _ \<Rightarrow> False) ops)"

lemma sm_next_apply:
  "sm_next (fst (sm_apply api enum op (m, w))) = sm_next m + creates [op]"
  by (cases op) (auto simp: creates_def sm_create_def sm_remove_eq Let_def split: option.splits)

lemma sm_apply_ok:
  assumes "sm_ok m" "sm_next m + creates [op] < 2 ^ 32"
  shows "sm_ok (fst (sm_apply api enum op (m, w)))"
  using assms
  by (cases op) (auto simp: creates_def intro!: sm_create_ok sm_remove_ok sm_update_ok)

lemma sm_history_ok:
  assumes "sm_ok m" "sm_next m + creates ops < 2 ^ 32"
  shows "sm_ok (fst (fold (sm_apply api enum) ops (m, w)))"
  using assms
proof (induction ops arbitrary: m w)
  case (Cons op ops)
  obtain m' w' where a: "sm_apply api enum op (m, w) = (m', w')" by fastforce
  have "creates (op # ops) = creates [op] + creates ops" by (simp add: creates_def split: sm_op.split)
  then show ?case
    using Cons.IH [of m' w'] Cons.prems sm_apply_ok [of m op api enum w] sm_next_apply [of api enum op m w] a
    by simp
qed simp

section \<open>Properties\<close>



text \<open>A pending NATS acknowledgement is handed out to the packet identifier it was registered
  under, exactly once, and no other identifier is affected by that.\<close>

theorem ack_handed_out_once:
  "fst (ack_received i (ack_requested i sb s)) = [sb]
   \<and> fst (ack_received i (snd (ack_received i s))) = []
   \<and> \<not> is_awaiting_ack i (snd (ack_received i s))
   \<and> (j = i \<or> is_awaiting_ack j (snd (ack_received i s)) = is_awaiting_ack j s)"
  using nats_acks.pending_request [of i sb s] nats_acks.pending_receive [of i s]
    nats_acks.receive_other [of i j s]
  by (auto simp: ack_received_subs is_awaiting_ack_def split: prod.splits)

text \<open>C17: If two packets with the same identifier wait for the acknowledgement of one client, a
  single reply is published, to the second one; the first is never acknowledged to NATS.\<close>

theorem client_ack_collision:
  assumes "pub_id p = i" "pub_id q = i"
    and "client_ack_received api i c (client_ack_requested q (client_ack_requested p s)) w = (found, s', w')"
  shows "found \<and> w' = snd (nats_publish api c (pub_reply_to q) [0] w)
    \<and> client_ack_received api i d s' w2 = (False, s', w2)"
proof -
  have p: "read_map (awaits_client_ack (client_ack_requested q (client_ack_requested p s))) i = Some q"
    using client_acks.pending_request [of q i] assms(2) by simp
  then have f: "found \<and> w' = snd (nats_publish api c (pub_reply_to q) [0] w)"
    using client_ack_received_found [OF assms(3)] by simp
  have "read_map (awaits_client_ack s') i = None"
    using client_ack_taken [OF assms(3)] by simp
  then have "client_ack_received api i d s' w2 = (False, s', w2)"
    by (auto simp: client_ack_received_def read_map_def split: option.splits)
  with f show ?thesis by simp
qed

theorem client_ack_collision_witness:
  "\<exists>s' w'. client_ack_received log_nats 7 0
      (client_ack_requested (new_publish 7 ''t'' 2 [] False ''_INBOX.b.s2.7.2'')
        (client_ack_requested (new_publish 7 ''t'' 2 [] False ''_INBOX.a.s1.7.2'') (new_session ''s3'' ''c''))) []
      = (True, s', w') \<and> w' = [CallPublish 0 ''_INBOX.b.s2.7.2'' [0]]"
proof -
  let ?p = "new_publish 7 ''t'' 2 [] False ''_INBOX.a.s1.7.2''"
  let ?q = "new_publish 7 ''t'' 2 [] False ''_INBOX.b.s2.7.2''"
  let ?s = "client_ack_requested ?q (client_ack_requested ?p (new_session ''s3'' ''c''))"
  obtain f s' w' where r: "client_ack_received log_nats 7 0 ?s [] = (f, s', w')" by (metis prod_cases3)
  have "pub_id ?p = 7" "pub_id ?q = 7" by (simp_all add: new_publish_def)
  from client_ack_collision [OF this r] r show ?thesis by (simp add: new_publish_def)
qed

end
