(* ===== verification/Reply_Topic.thy ===== *)
theory Reply_Topic
  imports Session
begin

text \<open>
  \<open>bridge/replytopic.go\<close>: the NATS reply subject under which the bridge waits for the
  acknowledgement of a message, its text form and the parser of that form.
\<close>

record reply_topic =
  rt_s :: string
  rt_c :: string
  rt_p :: u16
  rt_f :: byte

definition new_reply_topic :: "session \<Rightarrow> publish \<Rightarrow> reply_topic" where
  "new_reply_topic s pp =
     \<lparr>rt_s = ses_id s, rt_c = ses_client_id s, rt_p = pub_id pp, rt_f = pub_flags pp\<rparr>"

text \<open>The conversions \<open>uint16(p)\<close> and \<open>byte(f)\<close> of the parsed integers truncate.\<close>

definition parse_reply_topic :: "string \<Rightarrow> reply_topic option" where
  "parse_reply_topic s =
     (let ps = split_on CHR ''.'' s
      in if length ps = 5 \<and> ps ! 0 = ''_INBOX'' then
           (case atoi (ps ! 3) of
              None \<Rightarrow> None
            | Some p \<Rightarrow>
                (case atoi (ps ! 4) of
                   None \<Rightarrow> None
                 | Some f \<Rightarrow> Some \<lparr>rt_s = ps ! 2, rt_c = ps ! 1, rt_p = word_of_int p, rt_f = word_of_int f\<rparr>))
         else None)"

definition reply_topic_string :: "reply_topic \<Rightarrow> string" where
  "reply_topic_string r = ''_INBOX.'' @ rt_c r @ ''.'' @ rt_s r @ ''.'' @ itoa (uint (rt_p r))
     @ ''.'' @ itoa (uint (rt_f r))"

text \<open>The two integers as fields: no separator in them, and read back to themselves.\<close>

lemma no_dot_itoa [simp]: "CHR ''.'' \<notin> set (itoa_nat n)"
  using itoa_nat_not_sign by blast

lemma atoi_u16: "atoi (itoa_nat (unat (p :: u16))) = Some (uint p)"
proof -
  have "- (2 ^ 63) \<le> uint p" by (rule order_trans [OF _ uint_ge_0]) simp
  moreover have "uint p < 2 ^ 63" using unsigned_less [of p, where ?'a = int] by simp
  ultimately show ?thesis using atoi_itoa [of "uint p"] by (simp add: itoa_uint)
qed

lemma atoi_u8: "atoi (itoa_nat (unat (f :: byte))) = Some (uint f)"
proof -
  have "- (2 ^ 63) \<le> uint f" by (rule order_trans [OF _ uint_ge_0]) simp
  moreover have "uint f < 2 ^ 63" using unsigned_less [of f, where ?'a = int] by simp
  ultimately show ?thesis using atoi_itoa [of "uint f"] by (simp add: itoa_uint)
qed

lemma reply_topic_join:
  "reply_topic_string r = join_with CHR ''.''
     [''_INBOX'', rt_c r, rt_s r, itoa_nat (unat (rt_p r)), itoa_nat (unat (rt_f r))]"
  by (simp add: reply_topic_string_def itoa_uint)

text \<open>The number of fields is one more than the number of dots.\<close>

lemma length_split_on: "length (split_on c xs) = Suc (count_list xs c)"
  by (induction xs) (auto split: list.splits)

lemma count_list_0: "count_list xs c = 0 \<longleftrightarrow> c \<notin> set xs"
  by (rule count_list_0_iff)

lemma dots_in_reply_topic:
  "count_list (reply_topic_string r) CHR ''.'' = 4 + count_list (rt_c r) CHR ''.'' + count_list (rt_s r) CHR ''.''"
  by (simp add: reply_topic_string_def itoa_uint count_list_0_iff)

definition dot_free :: "reply_topic \<Rightarrow> bool" where
  "dot_free r \<longleftrightarrow> CHR ''.'' \<notin> set (rt_c r) \<and> CHR ''.'' \<notin> set (rt_s r)"

lemma parse_dotted: "\<not> dot_free r \<Longrightarrow> parse_reply_topic (reply_topic_string r) = None"
proof -
  assume "\<not> dot_free r"
  then have "0 < count_list (rt_c r) CHR ''.'' + count_list (rt_s r) CHR ''.''"
    using count_list_0 by (fastforce simp: dot_free_def)
  then show ?thesis
    by (auto simp: parse_reply_topic_def length_split_on dots_in_reply_topic Let_def)
qed

lemma parse_dot_free: "dot_free r \<Longrightarrow> parse_reply_topic (reply_topic_string r) = Some r"
proof -
  assume d: "dot_free r"
  have "split_on CHR ''.'' (reply_topic_string r) =
      [''_INBOX'', rt_c r, rt_s r, itoa_nat (unat (rt_p r)), itoa_nat (unat (rt_f r))]"
    unfolding reply_topic_join by (rule split_join_with) (use d in \<open>auto simp: dot_free_def\<close>)
  then show ?thesis
    by (simp add: parse_reply_topic_def atoi_u16 atoi_u8)
qed

text \<open>The session identifiers of the manager have no dots.\<close>

lemma session_id_dot_free: "CHR ''.'' \<notin> set (CHR ''s'' # itoa (int n))"
  by (simp add: itoa_def)

section \<open>Properties\<close>

text \<open>C10: The text of a reply topic is parsed back to the same reply topic exactly when neither the
  client identifier nor the session identifier contains a dot; otherwise it is not recognized.\<close>

theorem reply_topic_round_trip:
  "parse_reply_topic (reply_topic_string r) = (if dot_free r then Some r else None)"
  by (simp add: parse_dotted parse_dot_free)

end
