(* ===== verification/Id_Manager.thy ===== *)
theory Id_Manager
  imports Bridge_Prelude
begin

text \<open>
  The packet identifier allocator of \<open>mqtt/pkg/idmanager.go\<close>: its state, its two operations,
  the interface \<open>id_pool\<close> of the Go type \<open>IDManager\<close> that the server embeds, and the
  behaviour of concurrent callers.
\<close>

section \<open>State and operations\<close>

record id_manager =
  in_flight :: "u16 \<rightharpoonup> bool"
  next_free :: u16

definition new_id_manager :: id_manager where
  "new_id_manager = \<lparr>in_flight = Map.empty, next_free = 1\<rparr>"

text \<open>\<open>s.inFlight[id]\<close>: an absent key reads as false.\<close>

definition is_in_flight :: "(u16 \<rightharpoonup> bool) \<Rightarrow> u16 \<Rightarrow> bool" where
  "is_in_flight fl i = (case fl i of None \<Rightarrow> False | Some b \<Rightarrow> b)"

text \<open>Increment the counter; zero is not a valid identifier.\<close>

definition bump_id :: "u16 \<Rightarrow> u16" where
  "bump_id n = (let n1 = n + 1 in if n1 = 0 then n1 + 1 else n1)"

text \<open>The search loop runs under the lock and never ends if every identifier is in flight.\<close>

partial_function (option) next_free_loop :: "(u16 \<rightharpoonup> bool) \<Rightarrow> u16 \<Rightarrow> u16 option" where
  "next_free_loop fl n = (if is_in_flight fl n then next_free_loop fl (bump_id n) else Some n)"

text \<open>The critical section of \<open>NextFreePacketID\<close>, from \<open>Lock\<close> to \<open>Unlock\<close>.\<close>

definition reserve_id :: "id_manager \<Rightarrow> id_manager option" where
  "reserve_id s =
     (case next_free_loop (in_flight s) (bump_id (next_free s)) of
        None \<Rightarrow> None
      | Some n \<Rightarrow> Some (s\<lparr>next_free := n, in_flight := (in_flight s)(n \<mapsto> True)\<rparr>))"

text \<open>The whole call without interference: the field is read again after \<open>Unlock\<close>.\<close>

definition next_free_packet_id :: "id_manager \<Rightarrow> (id_manager \<times> u16) option" where
  "next_free_packet_id s = (case reserve_id s of None \<Rightarrow> None | Some s' \<Rightarrow> Some (s', next_free s'))"

definition release_packet_id :: "u16 \<Rightarrow> id_manager \<Rightarrow> id_manager" where
  "release_packet_id i s = s\<lparr>in_flight := (in_flight s)(i := None)\<rparr>"

definition ids_in_flight :: "id_manager \<Rightarrow> u16 set" where
  "ids_in_flight s = {i. is_in_flight (in_flight s) i}"

section \<open>The search loop\<close>

lemma bump_id_nonzero [simp]: "bump_id n \<noteq> 0"
  by (simp add: bump_id_def Let_def)

lemma bump_id_closer:
  fixes f n :: u16
  assumes "f \<noteq> n" "f \<noteq> 0"
  shows "unat (f - bump_id n) < unat (f - n)"
    and "k \<noteq> 0 \<Longrightarrow> k \<noteq> n \<Longrightarrow> unat (k - n) < unat (f - n) \<Longrightarrow>
         unat (k - bump_id n) < unat (f - bump_id n)"
proof -
  have down: "unat (x - 1) = unat x - 1" "0 < unat x" if "x \<noteq> 0" for x :: u16
    using that by (simp_all add: unat_minus_one unat_gt_0)
  have split: "bump_id n = n + 1 \<or> (n + 1 = 0 \<and> bump_id n = n + 2)"
    by (auto simp: bump_id_def Let_def add.commute)
  have one: "unat (x - (n + 1)) = unat (x - n) - 1 \<and> 0 < unat (x - n)" if "x \<noteq> n" for x
    using down [of "x - n"] that by (simp add: diff_diff_add)
  have two: "unat (x - (n + 2)) = unat (x - n) - 2 \<and> 1 < unat (x - n)"
    if x: "x \<noteq> n" "x \<noteq> 0" and n: "n + 1 = 0" for x
  proof -
    have "n + 2 = (n + 1) + 1" by simp
    then have "n + 2 = 1" unfolding n by simp
    then have "unat (x - (n + 2)) = unat x - 1" using down [OF x(2)] by (simp only:)
    moreover have "unat x = unat (x - n) - 1 \<and> 0 < unat (x - n)"
      using one [OF x(1)] unfolding n by simp
    ultimately show ?thesis using down(2) [OF x(2)] by linarith
  qed
  show "unat (f - bump_id n) < unat (f - n)"
    using split one [OF assms(1)] two [OF assms] by auto
  show "unat (k - bump_id n) < unat (f - bump_id n)"
    if "k \<noteq> 0" "k \<noteq> n" "unat (k - n) < unat (f - n)"
    using split one [OF assms(1)] two [OF assms] one [OF that(2)] two [OF that(2,1)] that(3) by auto
qed

text \<open>
  If some identifier is free the loop returns, and it returns the first free one counted
  from its start: every valid identifier passed over is in flight.
\<close>

lemma next_free_loop_returns:
  assumes "f \<noteq> 0" "\<not> is_in_flight fl f" "n \<noteq> 0"
  shows "\<exists>m. next_free_loop fl n = Some m \<and> m \<noteq> 0 \<and> \<not> is_in_flight fl m
    \<and> (\<forall>k. k \<noteq> 0 \<longrightarrow> unat (k - n) < unat (m - n) \<longrightarrow> is_in_flight fl k)"
  using assms
proof (induction "unat (f - n)" arbitrary: n rule: less_induct)
  case less
  show ?case
  proof (cases "is_in_flight fl n")
    case False
    with less.prems show ?thesis by (auto simp: next_free_loop.simps [of fl n])
  next
    case True
    with less.prems have "f \<noteq> n" by auto
    with less.prems obtain m where m: "next_free_loop fl (bump_id n) = Some m" "m \<noteq> 0"
      "\<not> is_in_flight fl m"
      "\<And>k. k \<noteq> 0 \<Longrightarrow> unat (k - bump_id n) < unat (m - bump_id n) \<Longrightarrow> is_in_flight fl k"
      using less.hyps [of "bump_id n"] bump_id_closer(1) [of f n] by auto
    with True have "m \<noteq> n" by auto
    have "is_in_flight fl k" if k: "k \<noteq> 0" "unat (k - n) < unat (m - n)" for k
    proof (cases "k = n")
      case False
      then show ?thesis
        using m(4) [OF k(1)] bump_id_closer(2) [OF \<open>m \<noteq> n\<close> m(2) k(1) False k(2)] by blast
    qed (use True in simp)
    with True m show ?thesis by (auto simp: next_free_loop.simps [of fl n])
  qed
qed

lemma next_free_loop_free:
  assumes "next_free_loop fl n = Some m" "n \<noteq> 0"
  shows "\<not> is_in_flight fl m \<and> m \<noteq> 0"
proof -
  have "n \<noteq> 0 \<longrightarrow> \<not> is_in_flight fl m \<and> m \<noteq> 0"
    by (rule next_free_loop.raw_induct
        [where P = "\<lambda>fl n m. n \<noteq> 0 \<longrightarrow> \<not> is_in_flight fl m \<and> m \<noteq> 0", OF _ assms(1)])
      (auto split: if_splits)
  with assms(2) show ?thesis by blast
qed

lemma next_free_loop_None:
  assumes "n \<noteq> 0"
  shows "next_free_loop fl n = None \<longleftrightarrow> (\<forall>i. i \<noteq> 0 \<longrightarrow> is_in_flight fl i)"
proof
  assume "next_free_loop fl n = None"
  then show "\<forall>i. i \<noteq> 0 \<longrightarrow> is_in_flight fl i"
    using next_free_loop_returns [of _ fl n] assms by fastforce
next
  assume "\<forall>i. i \<noteq> 0 \<longrightarrow> is_in_flight fl i"
  then show "next_free_loop fl n = None"
    using next_free_loop_free [of fl n] assms by (cases "next_free_loop fl n") auto
qed


section \<open>The interface IDManager\<close>

text \<open>
  What the server relies on: a call returns a valid identifier that is not in use and marks
  it used, it fails to return only when all identifiers are used, and a release frees one.
  \<open>alloc_many\<close> is a sequence of calls without a release in between.
\<close>

fun alloc_many :: "('s \<Rightarrow> ('s \<times> u16) option) \<Rightarrow> nat \<Rightarrow> 's \<Rightarrow> ('s \<times> u16 list) option" where
  "alloc_many next 0 s = Some (s, [])"
| "alloc_many next (Suc k) s =
     (case next s of
        None \<Rightarrow> None
      | Some (s1, i) \<Rightarrow>
          (case alloc_many next k s1 of None \<Rightarrow> None | Some (s2, is) \<Rightarrow> Some (s2, i # is)))"

lemma card_nonzero_u16 [simp]: "card (- {0 :: u16}) = 65535"
  by (simp add: Compl_eq_Diff_UNIV card_Diff_singleton card_word)

locale id_pool =
  fixes next_id :: "'s \<Rightarrow> ('s \<times> u16) option"
    and release :: "u16 \<Rightarrow> 's \<Rightarrow> 's"
    and used :: "'s \<Rightarrow> u16 set"
  assumes next_fresh: "next_id s = Some (s', i) \<Longrightarrow> i \<noteq> 0 \<and> i \<notin> used s \<and> used s' = insert i (used s)"
    and next_None: "next_id s = None \<longleftrightarrow> - {0} \<subseteq> used s"
    and used_release: "used (release i s) = used s - {i}"
begin

definition free_ids :: "'s \<Rightarrow> nat" where
  "free_ids s = card (- {0} - used s)"

lemma free_ids_next: "next_id s = Some (s', i) \<Longrightarrow> free_ids s = Suc (free_ids s')"
proof -
  assume "next_id s = Some (s', i)"
  then have i: "i \<noteq> 0" "i \<notin> used s" "used s' = insert i (used s)" using next_fresh by auto
  then have eq: "- {0} - used s = insert i (- {0} - used s')"
    and "i \<notin> - {0} - used s'" by auto
  then have "card (insert i (- {0} - used s')) = Suc (card (- {0} - used s'))"
    by (intro card_insert_disjoint) auto
  then show ?thesis unfolding free_ids_def eq .
qed

lemma free_ids_zero: "free_ids s = 0 \<longleftrightarrow> next_id s = None"
  by (auto simp: free_ids_def next_None)

lemma alloc_many_fresh:
  "alloc_many next_id k s = Some (s', is) \<Longrightarrow>
   length is = k \<and> distinct is \<and> 0 \<notin> set is \<and> set is \<inter> used s = {}
   \<and> used s' = used s \<union> set is"
proof (induction k arbitrary: s "is")
  case (Suc k)
  then obtain s1 i js where i: "next_id s = Some (s1, i)"
    "alloc_many next_id k s1 = Some (s', js)" "is = i # js"
    by (auto split: option.splits)
  with Suc.IH [OF i(2)] next_fresh [OF i(1)] show ?case by auto
qed simp

lemma alloc_many_capacity: "alloc_many next_id k s \<noteq> None \<longleftrightarrow> k \<le> free_ids s"
proof (induction k arbitrary: s)
  case (Suc k)
  show ?case
  proof (cases "next_id s")
    case None
    with free_ids_zero [of s] show ?thesis by simp
  next
    case (Some p)
    obtain s1 i where p: "p = (s1, i)" by fastforce
    with Some free_ids_next [of s s1 i] Suc.IH [of s1] show ?thesis
      by (auto split: option.splits)
  qed
qed simp

lemma released_is_free:
  assumes "i \<noteq> 0"
  shows "next_id (release i s) \<noteq> None"
  using assms by (auto simp: next_None used_release)

end

interpretation ids: id_pool next_free_packet_id release_packet_id ids_in_flight
proof unfold_locales
  fix s s' i
  assume "next_free_packet_id s = Some (s', i)"
  then show "i \<noteq> 0 \<and> i \<notin> ids_in_flight s \<and> ids_in_flight s' = insert i (ids_in_flight s)"
    using next_free_loop_free [of "in_flight s" "bump_id (next_free s)" i]
    by (auto simp: next_free_packet_id_def reserve_id_def ids_in_flight_def is_in_flight_def
        split: option.splits if_splits)
next
  fix s
  show "next_free_packet_id s = None \<longleftrightarrow> - {0} \<subseteq> ids_in_flight s"
    using next_free_loop_None [of "bump_id (next_free s)" "in_flight s"]
    by (auto simp: next_free_packet_id_def reserve_id_def ids_in_flight_def split: option.splits)
next
  fix i s
  show "ids_in_flight (release_packet_id i s) = ids_in_flight s - {i}"
    by (auto simp: ids_in_flight_def release_packet_id_def is_in_flight_def)
qed

section \<open>Concurrent callers\<close>

text \<open>
  \<open>NextFreePacketID\<close> leaves its critical section before the statement
  \<open>return s.nextFreePkgID\<close> reads the counter, so a call is two steps of its goroutine.
\<close>

datatype caller = Calling | Unlocked | Returned u16

record id_system =
  mgr :: id_manager
  callers :: "nat \<Rightarrow> caller"

definition start_ids :: id_system where
  "start_ids = \<lparr>mgr = new_id_manager, callers = (\<lambda>_. Calling)\<rparr>"

inductive id_step :: "id_system \<Rightarrow> id_system \<Rightarrow> bool" where
  reserve: "callers s t = Calling \<Longrightarrow> reserve_id (mgr s) = Some m \<Longrightarrow>
    id_step s (s\<lparr>mgr := m, callers := (callers s)(t := Unlocked)\<rparr>)"
| return: "callers s t = Unlocked \<Longrightarrow>
    id_step s (s\<lparr>callers := (callers s)(t := Returned (next_free (mgr s)))\<rparr>)"

inductive ids_reachable :: "id_system \<Rightarrow> bool" where
  start: "ids_reachable start_ids"
| step: "ids_reachable s \<Longrightarrow> id_step s s' \<Longrightarrow> ids_reachable s'"

inductive_cases id_stepE: "id_step s s'"

lemma reserve_id_marks:
  "reserve_id s = Some s' \<Longrightarrow> next_free s' \<noteq> 0 \<and> next_free s' \<in> ids_in_flight s'
   \<and> next_free s' \<notin> ids_in_flight s \<and> ids_in_flight s' = insert (next_free s') (ids_in_flight s)"
  using ids.next_fresh [of s s' "next_free s'"]
  by (auto simp: next_free_packet_id_def split: option.splits)

text \<open>The identifiers that calls have returned are valid and in flight, in every reachable state.\<close>

definition ids_inv :: "id_system \<Rightarrow> bool" where
  "ids_inv s \<longleftrightarrow> (\<forall>t. callers s t = Unlocked \<longrightarrow> next_free (mgr s) \<in> ids_in_flight (mgr s))
     \<and> (\<forall>t i. callers s t = Returned i \<longrightarrow> i \<in> ids_in_flight (mgr s))
     \<and> 0 \<notin> ids_in_flight (mgr s)"

lemma ids_inv_step: "id_step s s' \<Longrightarrow> ids_inv s \<Longrightarrow> ids_inv s'"
  by (erule id_stepE) (auto simp: ids_inv_def dest!: reserve_id_marks split: if_splits)

lemma ids_reachable_inv: "ids_reachable s \<Longrightarrow> ids_inv s"
proof (induction rule: ids_reachable.induct)
  case start
  show ?case
    by (simp add: ids_inv_def start_ids_def new_id_manager_def ids_in_flight_def is_in_flight_def)
qed (rule ids_inv_step)

section \<open>Properties\<close>

text \<open>C19: Packet identifiers allocated one after the other are all different, never zero and not in
  use before, and afterwards exactly they are in use in addition.\<close>

theorem ids_fresh:
  assumes "alloc_many next_free_packet_id k s = Some (s', is)"
  shows "length is = k \<and> distinct is \<and> 0 \<notin> set is \<and> set is \<inter> ids_in_flight s = {}
    \<and> ids_in_flight s' = ids_in_flight s \<union> set is"
  using ids.alloc_many_fresh [OF assms] .

theorem ids_fresh_witness:
  "\<exists>s' is. alloc_many next_free_packet_id 100 new_id_manager = Some (s', is) \<and> distinct is \<and> 0 \<notin> set is"
proof -
  have "ids.free_ids new_id_manager = 65535"
    by (simp add: ids.free_ids_def ids_in_flight_def new_id_manager_def is_in_flight_def flip: Compl_eq_Diff_UNIV)
  then have "alloc_many next_free_packet_id 100 new_id_manager \<noteq> None"
    using ids.alloc_many_capacity by simp
  then obtain s' "is" where a: "alloc_many next_free_packet_id 100 new_id_manager = Some (s', is)" by auto
  from ids_fresh [OF this] a show ?thesis by blast
qed

text \<open>C20: From a new manager exactly 65535 identifiers can be allocated without a release; the
  65536th call never returns.\<close>

theorem ids_capacity:
  "alloc_many next_free_packet_id k new_id_manager = None \<longleftrightarrow> 65535 < k"
proof -
  have "ids.free_ids new_id_manager = 65535"
    by (simp add: ids.free_ids_def ids_in_flight_def new_id_manager_def is_in_flight_def flip: Compl_eq_Diff_UNIV)
  then show ?thesis using ids.alloc_many_capacity [of k new_id_manager] by (metis not_less)
qed

text \<open>In every interleaving of concurrent callers, an identifier that a call has returned is not
  zero and is marked as in flight.\<close>

theorem concurrent_ids_valid:
  assumes "ids_reachable s" "callers s t = Returned i"
  shows "i \<noteq> 0 \<and> i \<in> ids_in_flight (mgr s)"
  using ids_reachable_inv [OF assms(1)] assms(2) by (auto simp: ids_inv_def)

lemma reserve_new: "reserve_id new_id_manager = Some \<lparr>in_flight = [2 \<mapsto> True], next_free = 2\<rparr>"
  by (simp add: reserve_id_def new_id_manager_def bump_id_def is_in_flight_def next_free_loop.simps [of _ 2])

lemma reserve_second:
  "reserve_id \<lparr>in_flight = [2 \<mapsto> True], next_free = 2\<rparr>
   = Some \<lparr>in_flight = [2 \<mapsto> True, 3 \<mapsto> True], next_free = 3\<rparr>"
  by (simp add: reserve_id_def bump_id_def is_in_flight_def next_free_loop.simps [of _ 3])

lemma one_caller_returns:
  "ids_reachable \<lparr>mgr = \<lparr>in_flight = [2 \<mapsto> True], next_free = 2\<rparr>, callers = (\<lambda>_. Calling)(0 := Returned 2)\<rparr>"
proof -
  let ?m = "\<lparr>in_flight = [2 \<mapsto> True], next_free = 2\<rparr> :: id_manager"
  let ?s = "\<lparr>mgr = ?m, callers = (\<lambda>_. Calling)(0 := Unlocked)\<rparr>"
  have "id_step start_ids ?s"
    using id_step.reserve [of start_ids 0 ?m] by (simp add: start_ids_def reserve_new)
  moreover have "id_step ?s \<lparr>mgr = ?m, callers = (\<lambda>_. Calling)(0 := Returned 2)\<rparr>"
    using id_step.return [of ?s 0] by simp
  ultimately show ?thesis using ids_reachable.intros by blast
qed

theorem concurrent_ids_valid_witness:
  "(2 :: u16) \<noteq> 0 \<and> 2 \<in> ids_in_flight \<lparr>in_flight = [2 \<mapsto> True], next_free = 2\<rparr>"
  using concurrent_ids_valid [OF one_caller_returns, of 0 2] by simp

text \<open>C21: Two concurrent callers can be given the same identifier, because the counter is read again
  after the lock is released.\<close>

theorem concurrent_ids_clash:
  "\<exists>s. ids_reachable s \<and> callers s 0 = Returned 3 \<and> callers s 1 = Returned 3"
proof -
  let ?m1 = "\<lparr>in_flight = [2 \<mapsto> True], next_free = 2\<rparr> :: id_manager"
  let ?m2 = "\<lparr>in_flight = [2 \<mapsto> True, 3 \<mapsto> True], next_free = 3\<rparr> :: id_manager"
  let ?s1 = "\<lparr>mgr = ?m1, callers = (\<lambda>_. Calling)(0 := Unlocked)\<rparr>"
  let ?s2 = "\<lparr>mgr = ?m2, callers = (\<lambda>_. Calling)(0 := Unlocked, 1 := Unlocked)\<rparr>"
  let ?s3 = "\<lparr>mgr = ?m2, callers = (\<lambda>_. Calling)(0 := Returned 3, 1 := Unlocked)\<rparr>"
  let ?s4 = "\<lparr>mgr = ?m2, callers = (\<lambda>_. Calling)(0 := Returned 3, 1 := Returned 3)\<rparr>"
  have "id_step start_ids ?s1"
    using id_step.reserve [of start_ids 0 ?m1] by (simp add: start_ids_def reserve_new)
  moreover have "id_step ?s1 ?s2"
    using id_step.reserve [of ?s1 1 ?m2] by (simp add: reserve_second)
  moreover have "id_step ?s2 ?s3"
    using id_step.return [of ?s2 0] by (simp add: fun_upd_twist)
  moreover have "id_step ?s3 ?s4"
    using id_step.return [of ?s3 1] by (simp add: fun_upd_twist)
  ultimately have "ids_reachable ?s4" using ids_reachable.intros by meson
  then show ?thesis by (intro exI [of _ ?s4]) simp
qed

end
