(* ===== verification/Server.thy ===== *)
theory Server
  imports Retained Reply_Topic Id_Manager "HOL-Library.Multiset"
begin

text \<open>
  \<open>bridge/server.go\<close> without the network listener and the storage file: the state that all
  clients share, the connections to NATS, the publication of wills, the table of messages that
  originate from the bridge and are republished until NATS acknowledges them, and the list of
  managed clients.
\<close>

section \<open>State\<close>

text \<open>The options that the modelled operations read (\<open>bridge/options.go\<close>).\<close>

record options =
  storage_path :: string
  nats_urls :: string
  retained_request_topic :: string
  nats_opts :: "(nats_options \<Rightarrow> go_error + nats_options) list"

text \<open>What is not part of the program: the NATS library, its default options, the order in which
  a range over a map runs.\<close>

record 'w env =
  env_nats :: "'w nats"
  env_defaults :: nats_options
  env_enum :: "u16 set \<Rightarrow> u16 list"
  env_opts :: options

text \<open>\<open>bridge/natspub.go\<close>: a message of the bridge that awaits a reply.\<close>

record nats_pub =
  np_pp :: publish
  np_creds :: "credentials option"

record 'w server =
  sv_ids :: id_manager
  sv_session :: "nat option"
  sv_retained :: retained
  sv_sm :: sm
  sv_conn :: "conn option"
  sv_clients :: "nat list"
  sv_pub_acks :: "(u16 \<rightharpoonup> nats_pub) option"
  sv_timer :: bool
  sv_world :: 'w

text \<open>\<open>New\<close>, with the unique suffix of the server's own client identifier.\<close>

definition new_server :: "string \<Rightarrow> 'w \<Rightarrow> 'w server" where
  "new_server uid w =
     (case sm_create (''mqtt-nats-'' @ uid) new_sm of
        (a, m) \<Rightarrow> \<lparr>sv_ids = new_id_manager, sv_session = Some a, sv_retained = new_retained, sv_sm = m,
                    sv_conn = None, sv_clients = [], sv_pub_acks = None, sv_timer = False,
                    sv_world = w\<rparr>)"

section \<open>Connections to NATS\<close>

fun apply_options ::
  "(nats_options \<Rightarrow> go_error + nats_options) list \<Rightarrow> nats_options \<Rightarrow> go_error + nats_options" where
  "apply_options [] opts = Inr opts"
| "apply_options (f # fs) opts = (case f opts of Inl e \<Rightarrow> Inl e | Inr opts' \<Rightarrow> apply_options fs opts')"

definition nats_options_for :: "'w env \<Rightarrow> credentials option \<Rightarrow> go_error + nats_options" where
  "nats_options_for env cr =
     (let opts = (env_defaults env)\<lparr>opt_servers := split_on CHR '','' (nats_urls (env_opts env))\<rparr>
      in case apply_options (nats_opts (env_opts env)) opts of
           Inl e \<Rightarrow> Inl e
         | Inr opts \<Rightarrow>
             Inr (case cr of
                 None \<Rightarrow> opts
               | Some c \<Rightarrow>
                   (let opts = opts\<lparr>opt_user := cr_user c\<rparr>
                    in case cr_password c of
                         None \<Rightarrow> opts
                       | Some p \<Rightarrow> opts\<lparr>opt_password := string_of p\<rparr>)))"

definition nats_conn :: "'w env \<Rightarrow> credentials option \<Rightarrow> 'w server \<Rightarrow> (go_error + conn) \<times> 'w server" where
  "nats_conn env cr sv =
     (case nats_options_for env cr of
        Inl e \<Rightarrow> (Inl e, sv)
      | Inr opts \<Rightarrow>
          (case nats_connect (env_nats env) opts (sv_world sv) of
             (res, w) \<Rightarrow> (res, sv\<lparr>sv_world := w\<rparr>)))"

definition server_nats_conn :: "'w env \<Rightarrow> 'w server \<Rightarrow> (go_error + conn) \<times> 'w server" where
  "server_nats_conn env sv =
     (case sv_conn sv of
        Some c \<Rightarrow> (Inr c, sv)
      | None \<Rightarrow>
          (case nats_conn env None sv of
             (Inl e, sv1) \<Rightarrow> (Inl e, sv1)
           | (Inr c, sv1) \<Rightarrow> (Inr c, sv1\<lparr>sv_conn := Some c\<rparr>)))"

definition close_conn :: "'w env \<Rightarrow> conn \<Rightarrow> 'w server \<Rightarrow> 'w server" where
  "close_conn env c sv = sv\<lparr>sv_world := nats_close (env_nats env) c (sv_world sv)\<rparr>"

section \<open>Packet identifiers and retained messages\<close>

definition sv_next_id :: "'w server \<Rightarrow> go_error + u16 \<times> 'w server" where
  "sv_next_id sv =
     (case next_free_packet_id (sv_ids sv) of
        None \<Rightarrow> Inl Diverges
      | Some (ids, i) \<Rightarrow> Inr (i, sv\<lparr>sv_ids := ids\<rparr>))"

definition sv_release_id :: "u16 \<Rightarrow> 'w server \<Rightarrow> 'w server" where
  "sv_release_id i sv = sv\<lparr>sv_ids := release_packet_id i (sv_ids sv)\<rparr>"

definition sv_handle_retain :: "publish \<Rightarrow> 'w server \<Rightarrow> publish \<times> 'w server" where
  "sv_handle_retain pp sv =
     (case handle_retain pp (sv_retained sv) of (pp', r) \<Rightarrow> (pp', sv\<lparr>sv_retained := r\<rparr>))"

section \<open>Messages of the bridge itself\<close>

text \<open>A tracked message is republished by a timer that starts with the first of them.\<close>

definition track_ack_received :: "publish \<Rightarrow> credentials option \<Rightarrow> 'w server \<Rightarrow> 'w server" where
  "track_ack_received pp cr sv =
     (let np = \<lparr>np_pp = pp, np_creds = cr\<rparr>;
          sv1 = (if sv_pub_acks sv = None then sv\<lparr>sv_pub_acks := Some Map.empty, sv_timer := True\<rparr> else sv)
      in sv1\<lparr>sv_pub_acks := Some ((made_map (sv_pub_acks sv1))(pub_id pp \<mapsto> np))\<rparr>)"

text \<open>The server's own session; a nil session panics when its identifier is asked for.\<close>

definition server_session :: "'w server \<Rightarrow> go_error + session" where
  "server_session sv =
     (case sv_session sv of
        None \<Rightarrow> Inl (Panic ''nil session'')
      | Some a \<Rightarrow> (case sm_heap (sv_sm sv) a of None \<Rightarrow> Inl (Panic ''nil session'') | Some s \<Rightarrow> Inr s))"

definition publish_will ::
  "'w env \<Rightarrow> will \<Rightarrow> credentials option \<Rightarrow> 'w server \<Rightarrow> go_error + go_error option \<times> 'w server" where
  "publish_will env wl cr sv =
     (case (if will_qos wl > 0 then sv_next_id sv else Inr (0, sv)) of
        Inl e \<Rightarrow> Inl e
      | Inr (i, sv1) \<Rightarrow>
          (let pp = new_publish2 i (will_topic wl) (will_message wl) (will_qos wl) False (will_retain wl)
           in case nats_conn env cr sv1 of
                (Inl e, sv2) \<Rightarrow> Inr (Some e, sv2)
              | (Inr nc, sv2) \<Rightarrow>
                  (let subj = to_nats (will_topic wl)
                   in case (if will_qos wl = 0
                            then Inr (nats_publish (env_nats env) nc subj (will_message wl) (sv_world sv2))
                            else (case server_session sv2 of
                                Inl e \<Rightarrow> Inl e
                              | Inr s \<Rightarrow>
                                  Inr (nats_publish_request (env_nats env) nc subj
                                         (reply_topic_string (new_reply_topic s pp))
                                         (will_message wl) (sv_world sv2)))) of
                        Inl e \<Rightarrow> Inl e
                      | Inr (err, w) \<Rightarrow>
                          (let sv3 = sv2\<lparr>sv_world := w\<rparr>;
                               sv4 = (if err = None then
                                        if will_retain wl then snd (sv_handle_retain pp sv3)
                                        else if will_qos wl > 0
                                        then track_ack_received (set_dup pp) cr sv3
                                        else sv3
                                      else sv3)
                           in Inr (err, close_conn env nc sv4)))))"

text \<open>The snapshot of the tracked messages in the order of their identifiers.\<close>

definition awaits_ack_snapshot :: "'w env \<Rightarrow> 'w server \<Rightarrow> nats_pub list" where
  "awaits_ack_snapshot env sv =
     (let m = made_map (sv_pub_acks sv)
      in sort_key (\<lambda>np. pub_id (np_pp np)) (map (\<lambda>k. the (m k)) (env_enum env (dom m))))"

text \<open>The reply arrived: forget the message, and stop the timer after the last one.\<close>

definition ack_arrived :: "u16 \<Rightarrow> 'w server \<Rightarrow> 'w server" where
  "ack_arrived i sv =
     (case sv_pub_acks sv of
        None \<Rightarrow> sv
      | Some m \<Rightarrow>
          (let m' = m(i := None)
           in if dom m' = {} then sv\<lparr>sv_pub_acks := None, sv_timer := False\<rparr>
              else sv\<lparr>sv_pub_acks := Some m'\<rparr>))"

definition republish_on :: "'w env \<Rightarrow> conn \<Rightarrow> nats_pub \<Rightarrow> 'w server \<Rightarrow> go_error + 'w server" where
  "republish_on env cn np sv =
     (let pp = np_pp np; api = env_nats env
      in case server_session sv of
           Inl e \<Rightarrow> Inl e
         | Inr s \<Rightarrow>
             (let reply_to = reply_topic_string (new_reply_topic s pp)
              in case nats_subscribe_sync api cn reply_to (sv_world sv) of
                   (Inl e, w) \<Rightarrow> Inr (sv\<lparr>sv_world := w\<rparr>)
                 | (Inr sub, w) \<Rightarrow>
                     (case nats_publish_request api cn (to_nats (pub_name pp)) reply_to (pub_payload pp) w of
                        (Some e, w) \<Rightarrow> Inr (sv\<lparr>sv_world := w\<rparr>)
                      | (None, w) \<Rightarrow>
                          (case nats_next_msg api sub w of
                             (Inl e, w) \<Rightarrow> Inr (sv\<lparr>sv_world := w\<rparr>)
                           | (Inr m, w) \<Rightarrow> Inr (ack_arrived (pub_id pp) (sv\<lparr>sv_world := w\<rparr>))))))"

definition republish :: "'w env \<Rightarrow> nats_pub \<Rightarrow> 'w server \<Rightarrow> go_error + 'w server" where
  "republish env np sv =
     (case np_creds np of
        None \<Rightarrow>
          (case server_nats_conn env sv of
             (Inl e, sv1) \<Rightarrow> Inr sv1
           | (Inr cn, sv1) \<Rightarrow> republish_on env cn np sv1)
      | Some cr \<Rightarrow>
          (case nats_conn env (Some cr) sv of
             (Inl e, sv1) \<Rightarrow> Inr sv1
           | (Inr cn, sv1) \<Rightarrow>
               (case republish_on env cn np sv1 of
                  Inl e \<Rightarrow> Inl e
                | Inr sv2 \<Rightarrow> Inr (close_conn env cn sv2))))"

fun republish_all :: "'w env \<Rightarrow> nats_pub list \<Rightarrow> 'w server \<Rightarrow> go_error + 'w server" where
  "republish_all env [] sv = Inr sv"
| "republish_all env (np # nps) sv =
     (case republish env np sv of Inl e \<Rightarrow> Inl e | Inr sv1 \<Rightarrow> republish_all env nps sv1)"

text \<open>A tick of the timer; resetting a timer that is gone is a nil dereference.\<close>

definition ack_check_tick :: "'w env \<Rightarrow> 'w server \<Rightarrow> go_error + 'w server" where
  "ack_check_tick env sv =
     (if \<not> sv_timer sv then Inl (Panic ''nil timer'')
      else republish_all env (awaits_ack_snapshot env sv) sv)"

section \<open>Managed clients\<close>

definition manage_client :: "nat \<Rightarrow> 'w server \<Rightarrow> 'w server" where
  "manage_client c sv = sv\<lparr>sv_clients := sv_clients sv @ [c]\<rparr>"

text \<open>The loop that overwrites the client by the last one and shortens the list.\<close>

function unmanage_loop :: "nat \<Rightarrow> nat list \<Rightarrow> nat \<Rightarrow> nat list" where
  "unmanage_loop c cs i =
     (if i < length cs
      then if c = cs ! i then take (length cs - 1) (cs[i := cs ! (length cs - 1)])
           else unmanage_loop c cs (Suc i)
      else cs)"
  by pat_completeness auto
termination
  by (relation "measure (\<lambda>(c, cs, i). length cs - i)") auto

declare unmanage_loop.simps [simp del]

definition unmanage_client :: "nat \<Rightarrow> 'w server \<Rightarrow> 'w server" where
  "unmanage_client c sv = sv\<lparr>sv_clients := unmanage_loop c (sv_clients sv) 0\<rparr>"

text \<open>The last part of the shutdown, before the state is persisted.\<close>

definition drain_end :: "'w env \<Rightarrow> 'w server \<Rightarrow> 'w server" where
  "drain_end env sv =
     (let sv1 = sv\<lparr>sv_timer := False\<rparr>
      in case sv_conn sv1 of None \<Rightarrow> sv1 | Some c \<Rightarrow> (close_conn env c sv1)\<lparr>sv_conn := None\<rparr>)"

section \<open>The invariant of the server\<close>

text \<open>
  The timer runs exactly while messages are tracked, the table is never empty while it exists,
  and a message is tracked under its own identifier.
\<close>

definition acks_ok :: "'w server \<Rightarrow> bool" where
  "acks_ok sv \<longleftrightarrow> (sv_timer sv \<longleftrightarrow> sv_pub_acks sv \<noteq> None) \<and> sv_pub_acks sv \<noteq> Some Map.empty
     \<and> (\<forall>k np. read_map (sv_pub_acks sv) k = Some np \<longrightarrow> pub_id (np_pp np) = k)"

definition sv_ok :: "'w server \<Rightarrow> bool" where
  "sv_ok sv \<longleftrightarrow> acks_ok sv \<and> retained_ok (sv_retained sv) \<and> sm_ok (sv_sm sv)
     \<and> (\<exists>a \<in> dom (sm_heap (sv_sm sv)). sv_session sv = Some a)"

lemma sv_ok_acks: "sv_ok sv \<Longrightarrow> acks_ok sv"
  unfolding sv_ok_def by (rule conjunct1)

lemma sv_ok_frame [simp]:
  "sv_ok (sv\<lparr>sv_world := w\<rparr>) = sv_ok sv" "sv_ok (sv\<lparr>sv_conn := cn\<rparr>) = sv_ok sv"
  "sv_ok (sv\<lparr>sv_ids := ids\<rparr>) = sv_ok sv" "sv_ok (sv\<lparr>sv_clients := cs\<rparr>) = sv_ok sv"
  by (simp_all add: sv_ok_def acks_ok_def)

lemma new_server_ok: "sv_ok (new_server uid w)"
proof -
  obtain a m where c: "sm_create (''mqtt-nats-'' @ uid) new_sm = (a, m)" by fastforce
  have "sm_next new_sm < 2 ^ 32 - 1" by (simp add: new_sm_def)
  from sm_create_ok [OF new_sm_ok this, of "''mqtt-nats-'' @ uid"] have "sm_ok m" unfolding c by simp
  moreover have "a \<in> dom (sm_heap m)" using c by (auto simp: sm_create_def Let_def new_sm_def)
  ultimately show ?thesis
    unfolding new_server_def c by (auto simp: sv_ok_def acks_ok_def read_map_def)
qed

lemma server_session_ok: "sv_ok sv \<Longrightarrow> \<exists>s. server_session sv = Inr s"
  by (auto simp: sv_ok_def server_session_def)

lemma server_session_frame [simp]:
  "server_session (sv\<lparr>sv_world := w\<rparr>) = server_session sv" "server_session (sv\<lparr>sv_conn := cn\<rparr>) = server_session sv"
  "server_session (sv\<lparr>sv_ids := ids\<rparr>) = server_session sv"
  by (simp_all add: server_session_def cong: option.case_cong)

lemma handle_retain_sv_ok: "sv_ok sv \<Longrightarrow> sv_ok (snd (sv_handle_retain pp sv))"
  using handle_retain_ok [of "sv_retained sv" pp]
  by (auto simp: sv_handle_retain_def sv_ok_def acks_ok_def split: prod.splits)

lemma track_acks: "read_map (sv_pub_acks (track_ack_received pp cr sv))
    = (read_map (sv_pub_acks sv))(pub_id pp \<mapsto> \<lparr>np_pp = pp, np_creds = cr\<rparr>)"
  by (rule ext) (auto simp: track_ack_received_def Let_def read_map_def made_map_def split: option.splits)

lemma track_ok: "sv_ok sv \<Longrightarrow> sv_ok (track_ack_received pp cr sv)"
  using track_acks [of pp cr sv]
  by (auto simp: sv_ok_def acks_ok_def) (auto simp: track_ack_received_def Let_def)

lemma ack_arrived_acks: "read_map (sv_pub_acks (ack_arrived i sv)) = (read_map (sv_pub_acks sv))(i := None)"
  by (rule ext)
    (auto simp: ack_arrived_def Let_def read_map_def split: option.splits if_splits, metis fun_upd_apply)

lemma ack_arrived_ok: "sv_ok sv \<Longrightarrow> sv_ok (ack_arrived i sv)"
  using ack_arrived_acks [of i sv]
  by (auto simp: sv_ok_def acks_ok_def split: if_splits) (auto simp: ack_arrived_def Let_def split: option.splits if_splits)

text \<open>Two states that differ at most in the world and the server's own connection.\<close>

definition sv_same :: "'w server \<Rightarrow> 'w server \<Rightarrow> bool" where
  "sv_same sv sv' \<longleftrightarrow> sv_ids sv' = sv_ids sv \<and> sv_session sv' = sv_session sv
     \<and> sv_retained sv' = sv_retained sv \<and> sv_sm sv' = sv_sm sv \<and> sv_clients sv' = sv_clients sv
     \<and> sv_pub_acks sv' = sv_pub_acks sv \<and> sv_timer sv' = sv_timer sv"

lemma sv_same_refl [simp]: "sv_same sv sv"
  by (simp add: sv_same_def)

lemma sv_same_trans: "sv_same a b \<Longrightarrow> sv_same b c \<Longrightarrow> sv_same a c"
  by (simp add: sv_same_def)

lemma sv_same_world [simp]:
  "sv_same sv (sv'\<lparr>sv_world := w\<rparr>) = sv_same sv sv'" "sv_same sv (sv'\<lparr>sv_conn := c\<rparr>) = sv_same sv sv'"
  "sv_same (sv\<lparr>sv_world := w\<rparr>) sv' = sv_same sv sv'" "sv_same (sv\<lparr>sv_conn := c\<rparr>) sv' = sv_same sv sv'"
  "sv_same sv (close_conn env cn sv') = sv_same sv sv'"
  by (simp_all add: sv_same_def close_conn_def)

lemma sv_same_ok: "sv_same sv sv' \<Longrightarrow> sv_ok sv' = sv_ok sv"
  by (simp add: sv_same_def sv_ok_def acks_ok_def)

lemma sv_same_session: "sv_same sv sv' \<Longrightarrow> server_session sv' = server_session sv"
  by (simp add: sv_same_def server_session_def cong: option.case_cong)

lemma nats_conn_same: "nats_conn env cr sv = (res, sv') \<Longrightarrow> sv_same sv sv'"
  by (auto simp: nats_conn_def split: sum.splits prod.splits)

lemma server_nats_conn_same: "server_nats_conn env sv = (res, sv') \<Longrightarrow> sv_same sv sv'"
  by (auto simp: server_nats_conn_def split: option.splits sum.splits prod.splits dest: nats_conn_same)

section \<open>Republishing\<close>

text \<open>A republished message is either still tracked or its reply arrived; nothing else changes.\<close>

lemma ack_arrived_frame [simp]:
  "sv_ids (ack_arrived i sv) = sv_ids sv" "sv_session (ack_arrived i sv) = sv_session sv"
  "sv_retained (ack_arrived i sv) = sv_retained sv" "sv_sm (ack_arrived i sv) = sv_sm sv"
  "sv_clients (ack_arrived i sv) = sv_clients sv"
  by (simp_all add: ack_arrived_def Let_def split: option.split)

definition tracked_less :: "'w server \<Rightarrow> 'w server \<Rightarrow> bool" where
  "tracked_less sv sv' \<longleftrightarrow> sv_ids sv' = sv_ids sv \<and> sv_session sv' = sv_session sv
     \<and> sv_retained sv' = sv_retained sv \<and> sv_sm sv' = sv_sm sv \<and> sv_clients sv' = sv_clients sv
     \<and> map_le (read_map (sv_pub_acks sv')) (read_map (sv_pub_acks sv)) \<and> (sv_ok sv \<longrightarrow> sv_ok sv')"

lemma tracked_less_trans: "tracked_less a b \<Longrightarrow> tracked_less b c \<Longrightarrow> tracked_less a c"
  by (auto simp: tracked_less_def intro: map_le_trans)

lemma tracked_less_same: "sv_same sv sv' \<Longrightarrow> tracked_less sv sv'"
  by (simp add: tracked_less_def sv_same_ok) (simp add: sv_same_def)

lemma tracked_less_ack: "tracked_less sv (ack_arrived i sv)"
  by (simp add: tracked_less_def ack_arrived_ok ack_arrived_acks map_le_def)

lemma tracked_less_close [simp]: "tracked_less sv (close_conn env cn sv') = tracked_less sv sv'"
  by (simp add: tracked_less_def close_conn_def)

lemma republish_on_less:
  assumes "sv_ok sv"
  shows "\<exists>sv'. republish_on env cn np sv = Inr sv' \<and> tracked_less sv sv'"
proof -
  obtain s where s: "server_session sv = Inr s" using server_session_ok [OF assms] by blast
  have "tracked_less sv (ack_arrived i (sv\<lparr>sv_world := w\<rparr>))" for i w
    using tracked_less_trans [OF tracked_less_same tracked_less_ack, of sv "sv\<lparr>sv_world := w\<rparr>" i] by simp
  then show ?thesis
    by (auto simp: republish_on_def s Let_def tracked_less_same split: sum.split prod.split option.split)
qed

lemma republish_on_same:
  assumes "sv_ok sv" "sv_same sv sv1"
  shows "\<exists>sv2. republish_on env cn np sv1 = Inr sv2 \<and> tracked_less sv sv2"
proof -
  have "sv_ok sv1" using assms sv_same_ok by blast
  from republish_on_less [OF this, of env cn np] show ?thesis
    using tracked_less_trans [OF tracked_less_same [OF assms(2)]] by blast
qed

lemma republish_less:
  assumes "sv_ok sv"
  shows "\<exists>sv'. republish env np sv = Inr sv' \<and> tracked_less sv sv'"
proof (cases "np_creds np")
  case None
  obtain res sv1 where c: "server_nats_conn env sv = (res, sv1)" by fastforce
  then have s: "sv_same sv sv1" by (rule server_nats_conn_same)
  then show ?thesis
    using republish_on_same [OF assms s] tracked_less_same [OF s]
    by (cases res) (simp_all add: republish_def None c)
next
  case (Some cr)
  obtain res sv1 where c: "nats_conn env (Some cr) sv = (res, sv1)" by fastforce
  then have s: "sv_same sv sv1" by (rule nats_conn_same)
  show ?thesis
  proof (cases res)
    case (Inr cn)
    obtain sv2 where "republish_on env cn np sv1 = Inr sv2" "tracked_less sv sv2"
      using republish_on_same [OF assms s] by blast
    then show ?thesis by (simp add: republish_def Some c Inr)
  qed (simp add: republish_def Some c tracked_less_same [OF s])
qed

lemma republish_all_less:
  "sv_ok sv \<Longrightarrow> \<exists>sv'. republish_all env nps sv = Inr sv' \<and> tracked_less sv sv'"
proof (induction nps arbitrary: sv)
  case Nil
  then show ?case by (simp add: tracked_less_same)
next
  case (Cons np nps)
  obtain sv1 where r: "republish env np sv = Inr sv1" "tracked_less sv sv1"
    using republish_less [OF Cons.prems] by blast
  then have "sv_ok sv1" using Cons.prems by (simp add: tracked_less_def)
  from Cons.IH [OF this] r show ?case using tracked_less_trans by fastforce
qed

section \<open>Publishing a will\<close>

lemma sv_next_id_fresh:
  "sv_next_id sv = Inr (i, sv') \<Longrightarrow>
   i \<noteq> 0 \<and> i \<notin> ids_in_flight (sv_ids sv) \<and> ids_in_flight (sv_ids sv') = insert i (ids_in_flight (sv_ids sv))
   \<and> sv' = sv\<lparr>sv_ids := sv_ids sv'\<rparr>"
  using ids.next_fresh [of "sv_ids sv" _ i] by (auto simp: sv_next_id_def split: option.splits)

text \<open>The part after the identifier is known.\<close>

lemma publish_will_ok:
  assumes "sv_ok sv" "will_qos wl = 0 \<or> next_free_packet_id (sv_ids sv) \<noteq> None"
  shows "\<exists>err sv'. publish_will env wl cr sv = Inr (err, sv') \<and> sv_ok sv'
    \<and> sv_sm sv' = sv_sm sv \<and> sv_session sv' = sv_session sv \<and> sv_clients sv' = sv_clients sv
    \<and> ids_in_flight (sv_ids sv) \<subseteq> ids_in_flight (sv_ids sv')"
proof -
  obtain i sv1 where i: "(if will_qos wl > 0 then sv_next_id sv else Inr (0, sv)) = Inr (i, sv1)"
    using assms(2)
    by (cases "will_qos wl = 0"; cases "next_free_packet_id (sv_ids sv)")
      (auto simp: sv_next_id_def word_gt_0)
  obtain ids where sv1: "sv1 = sv\<lparr>sv_ids := ids\<rparr>" "ids_in_flight (sv_ids sv) \<subseteq> ids_in_flight ids"
  proof (cases "will_qos wl > 0")
    case True
    with i have "sv_next_id sv = Inr (i, sv1)" by simp
    from sv_next_id_fresh [OF this] that show ?thesis by blast
  next
    case False
    with i have "sv1 = sv\<lparr>sv_ids := sv_ids sv\<rparr>" by simp
    with that show ?thesis by blast
  qed
  define pp where "pp = new_publish2 i (will_topic wl) (will_message wl) (will_qos wl) False (will_retain wl)"
  obtain res sv2 where c: "nats_conn env cr sv1 = (res, sv2)" by fastforce
  have same: "sv_same sv1 sv2" using c by (rule nats_conn_same)
  then have ok2: "sv_ok sv2" using sv_same_ok [OF same] assms(1) by (simp add: sv1)
  obtain s where s: "server_session sv2 = Inr s" using server_session_ok [OF ok2] by blast
  show ?thesis
  proof (cases res)
    case (Inl e)
    with same ok2 show ?thesis
      by (simp add: publish_will_def i c Let_def) (simp add: sv_same_def sv1)
  next
    case (Inr nc)
    obtain err w where p: "(if will_qos wl = 0
        then Inr (nats_publish (env_nats env) nc (to_nats (will_topic wl)) (will_message wl) (sv_world sv2))
        else Inr (nats_publish_request (env_nats env) nc (to_nats (will_topic wl))
               (reply_topic_string (new_reply_topic s pp)) (will_message wl) (sv_world sv2)))
      = (Inr (err, w) :: go_error + _)" by (metis surj_pair)
    let ?sv3 = "sv2\<lparr>sv_world := w\<rparr>"
    let ?sv4 = "if err = None then if will_retain wl then snd (sv_handle_retain pp ?sv3)
      else if will_qos wl > 0 then track_ack_received (set_dup pp) cr ?sv3 else ?sv3 else ?sv3"
    have "sv_ok ?sv4" using ok2 handle_retain_sv_ok [of ?sv3 pp] track_ok [of ?sv3 "set_dup pp" cr] by simp
    moreover have "sv_sm ?sv4 = sv_sm sv \<and> sv_session ?sv4 = sv_session sv
        \<and> sv_clients ?sv4 = sv_clients sv \<and> sv_ids ?sv4 = ids"
      using same by (auto simp: sv_same_def sv1 sv_handle_retain_def track_ack_received_def Let_def
          split: prod.splits)
    moreover have "publish_will env wl cr sv = Inr (err, close_conn env nc ?sv4)"
      unfolding publish_will_def i sum.case prod.case Let_def pp_def [symmetric] c Inr s p ..
    ultimately show ?thesis using sv1(2) by (simp add: close_conn_def)
  qed
qed

text \<open>A will that is to be acknowledged and not retained is tracked under a fresh identifier.\<close>

lemma publish_will_tracks:
  assumes "publish_will env wl cr sv = Inr (None, sv')" "will_qos wl > 0" "\<not> will_retain wl"
  shows "\<exists>i. i \<noteq> 0 \<and> i \<notin> ids_in_flight (sv_ids sv)
    \<and> ids_in_flight (sv_ids sv') = insert i (ids_in_flight (sv_ids sv))
    \<and> read_map (sv_pub_acks sv') = (read_map (sv_pub_acks sv))
        (i \<mapsto> \<lparr>np_pp = set_dup (new_publish2 i (will_topic wl) (will_message wl) (will_qos wl) False False),
               np_creds = cr\<rparr>)"
proof -
  from assms(1,2) obtain i sv1 where i: "sv_next_id sv = Inr (i, sv1)"
    by (auto simp: publish_will_def split: sum.splits)
  obtain nc sv2 where c: "nats_conn env cr sv1 = (Inr nc, sv2)"
    using assms(1,2) i by (auto simp: publish_will_def Let_def split: sum.splits prod.splits)
  have same: "sv_same sv1 sv2" using c by (rule nats_conn_same)
  define pp where "pp = set_dup (new_publish2 i (will_topic wl) (will_message wl) (will_qos wl) False False)"
  obtain w where sv': "sv' = close_conn env nc (track_ack_received pp cr (sv2\<lparr>sv_world := w\<rparr>))"
    using assms i c
    by (auto simp: publish_will_def Let_def pp_def word_gt_0 split: sum.splits prod.splits if_splits)
  have "pub_id pp = i" by (simp add: pp_def set_dup_def new_publish2_def Let_def)
  moreover have "sv_pub_acks sv2 = sv_pub_acks sv" "sv_ids sv2 = sv_ids sv1"
    using same sv_next_id_fresh [OF i] by (auto simp: sv_same_def dest: arg_cong [where f = sv_pub_acks])
  moreover have "sv_ids sv' = sv_ids sv2"
    by (simp add: sv' close_conn_def track_ack_received_def Let_def)
  ultimately show ?thesis
    using sv_next_id_fresh [OF i] track_acks [of pp cr "sv2\<lparr>sv_world := w\<rparr>"]
    by (auto simp: sv' close_conn_def pp_def)
qed

section \<open>The snapshot\<close>

lemma sort_key_of_keys:
  fixes f :: "'a \<Rightarrow> 'k :: linorder"
  assumes "distinct ks" "set ks = A" "\<And>k. k \<in> A \<Longrightarrow> f (g k) = k" "finite A"
  shows "sort_key f (map g ks) = map g (sorted_list_of_set A)"
proof -
  have fg: "map f (map g ks) = ks" using assms(2,3) by (auto intro!: map_idI)
  let ?s = "sort_key f (map g ks)"
  have m: "mset (map f ?s) = mset ks" by (metis fg mset_map mset_sort)
  then have "distinct (map f ?s)" "set (map f ?s) = A"
    using assms(1,2) by (metis mset_eq_imp_distinct_iff, metis mset_eq_setD)
  then have k: "map f ?s = sorted_list_of_set A"
    by (metis assms(4) sorted_distinct_set_unique sorted_list_of_set.distinct_sorted_key_list_of_set
        sorted_list_of_set.set_sorted_key_list_of_set sorted_list_of_set.sorted_sorted_key_list_of_set
        sorted_sort_key map_ident)
  have "?s = map g (map f ?s)"
    using assms(2,3) by (subst map_map, intro map_idI [symmetric]) auto
  then show ?thesis by (simp add: k)
qed

text \<open>The loop of \<open>unmanageClient\<close> takes one occurrence out; the order of the rest may change.\<close>

lemma unmanage_loop_mset:
  "mset (unmanage_loop c cs i) = (if c \<in> set (drop i cs) then mset cs - {#c#} else mset cs)"
proof (induction c cs i rule: unmanage_loop.induct)
  case (1 c cs i)
  show ?case
  proof (cases "i < length cs \<and> c = cs ! i")
    case True
    then obtain xs y where cs: "cs = xs @ [y]" by (metis length_0_conv not_less0 rev_exhaust)
    have "mset (take (length cs - 1) (cs[i := cs ! (length cs - 1)])) = mset cs - {#c#}"
    proof (cases "i = length xs")
      case True
      then show ?thesis using \<open>i < length cs \<and> c = cs ! i\<close> by (simp add: cs)
    next
      case False
      then show ?thesis
        using \<open>i < length cs \<and> c = cs ! i\<close>
        by (simp add: cs nth_append list_update_append mset_update)
    qed
    moreover have "c \<in> set (drop i cs)" using True by (metis Cons_nth_drop_Suc list.set_intros(1))
    ultimately show ?thesis using True by (subst unmanage_loop.simps) simp
  next
    case False
    then show ?thesis
      using 1 by (subst unmanage_loop.simps) (auto simp flip: Cons_nth_drop_Suc)
  qed
qed

section \<open>Properties\<close>

text \<open>A bridge with one will that awaits its acknowledgement, for evaluation.\<close>

definition log_env :: "nats_call list env" where
  "log_env = \<lparr>env_nats = log_nats, env_defaults = \<lparr>opt_servers = [], opt_user = [], opt_password = []\<rparr>,
     env_enum = sorted_list_of_set, env_opts = \<lparr>storage_path = [], nats_urls = ''nats://localhost'', retained_request_topic = [], nats_opts = []\<rparr>\<rparr>"

definition tracked_pub :: publish where
  "tracked_pub = set_dup (new_publish2 2 ''gone'' [1] 1 False False)"

lemma tracked_pub_id [simp]: "pub_id tracked_pub = 2"
  by (simp add: tracked_pub_def set_dup_def new_publish2_def)



text \<open>Publishing the will of a client keeps the invariant of the server and returns, if the will
  needs no packet identifier or one is free, whatever NATS answers.\<close>

theorem publish_will_safe:
  assumes "sv_ok sv" "will_qos wl = 0 \<or> next_free_packet_id (sv_ids sv) \<noteq> None"
  shows "\<exists>err sv'. publish_will env wl cr sv = Inr (err, sv') \<and> sv_ok sv'
    \<and> ids_in_flight (sv_ids sv) \<subseteq> ids_in_flight (sv_ids sv')"
  using publish_will_ok [OF assms] by blast

theorem publish_will_safe_witness:
  "\<exists>err sv'. publish_will log_env \<lparr>will_topic = ''gone'', will_message = [1], will_qos = 0, will_retain = True\<rparr>
     None (new_server ''u'' []) = Inr (err, sv') \<and> sv_ok sv'"
  using publish_will_safe [OF new_server_ok, of "\<lparr>will_topic = ''gone'', will_message = [1], will_qos = 0, will_retain = True\<rparr>"
      "''u''" "[]" log_env None] by fastforce


lemma first_id: "next_free_packet_id new_id_manager = Some (\<lparr>in_flight = [2 \<mapsto> True], next_free = 2\<rparr>, 2)"
  by (simp add: next_free_packet_id_def reserve_id_def new_id_manager_def bump_id_def
      next_free_loop.simps [of _ 2] is_in_flight_def)

lemma log_conn: "nats_conn log_env None sv =
   (Inr (length (sv_world sv)),
    sv\<lparr>sv_world := sv_world sv @ [CallConnect \<lparr>opt_servers = [''nats://localhost''], opt_user = [], opt_password = []\<rparr>]\<rparr>)"
  by (simp add: nats_conn_def nats_options_for_def log_env_def Let_def)


text \<open>The snapshot of the tracked messages is in the order of their packet identifiers and does not
  depend on the order in which the map is iterated.\<close>

theorem snapshot_order:
  assumes "acks_ok sv" "enumerates (env_enum env)" "sv_pub_acks sv = Some m"
  shows "awaits_ack_snapshot env sv = map (\<lambda>k. the (m k)) (sorted_list_of_set (dom m))"
proof -
  have "pub_id (np_pp (the (m k))) = k" if "k \<in> dom m" for k
    using that assms(1,3) by (auto simp: acks_ok_def read_map_def)
  then show ?thesis
    using assms(2,3) unfolding awaits_ack_snapshot_def Let_def
    by (simp add: made_map_def) (rule sort_key_of_keys; simp add: enumerates_def)
qed

theorem snapshot_order_witness:
  "awaits_ack_snapshot log_env (track_ack_received tracked_pub None (new_server ''u'' []))
    = [\<lparr>np_pp = tracked_pub, np_creds = None\<rparr>]"
proof -
  let ?sv = "track_ack_received tracked_pub None (new_server ''u'' ([] :: nats_call list))"
  have "sv_ok ?sv" by (simp add: track_ok new_server_ok)
  then have "acks_ok ?sv" by (rule sv_ok_acks)
  moreover have "sv_pub_acks ?sv = Some [2 \<mapsto> \<lparr>np_pp = tracked_pub, np_creds = None\<rparr>]"
    by (simp add: track_ack_received_def new_server_def made_map_def split: prod.split)
  ultimately show ?thesis
    using snapshot_order [of ?sv log_env] by (simp add: log_env_def enumerates_sorted)
qed

text \<open>Unmanaging a client removes exactly one entry of it from the list of clients, and nothing
  if it is not managed; what remains may be reordered but is not lost.\<close>

theorem unmanage_removes_one:
  "mset (sv_clients (unmanage_client c sv)) = mset (sv_clients sv) - {#c#}"
  using unmanage_loop_mset [of c "sv_clients sv" 0]
  by (simp add: unmanage_client_def diff_single_trivial)

end
