(* ===== verification/Reader_Safety.thy ===== *)
theory Reader_Safety
  imports Packet
begin

text \<open>
  What the reader operations and the parsers do on every input, well-formed or not: they do
  not panic, they keep the source they read from, and they never put bytes back.
\<close>

definition calm :: "go_error \<Rightarrow> bool" where
  "calm e \<longleftrightarrow> (\<forall>s. e \<noteq> Panic s)"

definition src_ok :: "reader \<Rightarrow> bool" where
  "src_ok r \<longleftrightarrow> calm (src_err r)"

definition shorter :: "reader \<Rightarrow> reader \<Rightarrow> bool" where
  "shorter r' r \<longleftrightarrow> rsrc r' = rsrc r \<and> length (rbuf r') \<le> length (rbuf r)"

lemma shorter_refl [simp]: "shorter r r"
  by (simp add: shorter_def)

lemma shorter_trans: "shorter r2 r1 \<Longrightarrow> shorter r1 r \<Longrightarrow> shorter r2 r"
  by (auto simp: shorter_def)

lemma src_ok_slice [simp]: "src_ok (slice_reader bs)"
  by (simp add: src_ok_def src_err_def calm_def)

lemma src_ok_shorter: "shorter r' r \<Longrightarrow> src_ok r \<Longrightarrow> src_ok r'"
  by (simp add: src_ok_def src_err_def shorter_def)

lemma calm_simps [simp]:
  "calm EOF" "calm ErrUnexpectedEOF" "calm (ErrorString s)" "calm (RetCode c)" "\<not> calm (Panic s)"
  "calm (eof_unexpected e) = calm e"
  by (auto simp: calm_def eof_unexpected_def)

section \<open>Readers\<close>

text \<open>
  A reader operation that behaves on every input: it fails without a panic if the source
  does, and what it hands back is what is left of its input.
\<close>

definition behaves :: "(reader \<Rightarrow> go_error + 'a \<times> reader) \<Rightarrow> bool" where
  "behaves rd \<longleftrightarrow> (\<forall>r. case rd r of Inl e \<Rightarrow> src_ok r \<longrightarrow> calm e | Inr (x, r') \<Rightarrow> shorter r' r)"

lemma behavesI:
  "(\<And>r e. src_ok r \<Longrightarrow> rd r = Inl e \<Longrightarrow> calm e) \<Longrightarrow>
   (\<And>r x r'. rd r = Inr (x, r') \<Longrightarrow> shorter r' r) \<Longrightarrow> behaves rd"
  by (auto simp: behaves_def split: sum.split)

lemma behaves_Inl: "behaves rd \<Longrightarrow> src_ok r \<Longrightarrow> rd r = Inl e \<Longrightarrow> calm e"
  by (auto simp: behaves_def split: sum.splits)

lemma behaves_Inr: "behaves rd \<Longrightarrow> rd r = Inr (x, r') \<Longrightarrow> shorter r' r"
  unfolding behaves_def by (drule spec [of _ r]) simp

lemma behaves_return [simp]: "behaves (\<lambda>r. Inr (x, r))"
  by (simp add: behaves_def)

lemma behaves_fail [simp]: "calm e \<Longrightarrow> behaves (\<lambda>r. Inl e)"
  by (simp add: behaves_def)

lemma behaves_bind:
  assumes "behaves rd" "\<And>x. behaves (k x)"
  shows "behaves (\<lambda>r. case rd r of Inl e \<Rightarrow> Inl e | Inr (x, r1) \<Rightarrow> k x r1)"
  unfolding behaves_def
proof
  fix r
  show "case (case rd r of Inl e \<Rightarrow> Inl e | Inr (x, r1) \<Rightarrow> k x r1) of
    Inl e \<Rightarrow> src_ok r \<longrightarrow> calm e | Inr (x, r') \<Rightarrow> shorter r' r"
  proof (cases "rd r")
    case (Inl e)
    with behaves_Inl [OF assms(1)] show ?thesis by simp
  next
    case (Inr p)
    obtain x r1 where p: "p = (x, r1)" by fastforce
    with Inr have s: "shorter r1 r" using behaves_Inr [OF assms(1)] by blast
    have "case k x r1 of Inl e \<Rightarrow> src_ok r1 \<longrightarrow> calm e | Inr (y, r') \<Rightarrow> shorter r' r1"
      using assms(2) [of x] by (simp add: behaves_def)
    with s Inr p src_ok_shorter [OF s] show ?thesis by (auto split: sum.splits intro: shorter_trans)
  qed
qed

lemma behaves_if: "behaves f \<Longrightarrow> behaves g \<Longrightarrow> behaves (\<lambda>r. if P then f r else g r)"
  by (cases P) simp_all

lemma read_byte_behaves: "behaves read_byte"
  by (rule behavesI) (auto simp: read_byte_def src_ok_def shorter_def split: list.splits)

lemma read_exact_behaves: "0 \<le> n \<Longrightarrow> behaves (read_exact n)"
  by (rule behavesI) (auto simp: read_exact_def src_ok_def shorter_def split: if_splits)

lemma read_uint16_behaves: "behaves read_uint16"
  unfolding read_uint16_def [abs_def]
  by (rule behaves_bind) (simp_all add: read_exact_behaves)

lemma read_bytes_behaves: "behaves read_bytes"
  unfolding read_bytes_def [abs_def]
  by (intro behaves_bind behaves_if read_uint16_behaves read_exact_behaves) simp_all

lemma read_string_behaves: "behaves read_string"
  unfolding read_string_def [abs_def]
  by (rule behaves_bind) (simp_all add: read_bytes_behaves)

lemma read_var_int_loop_behaves: "behaves (read_var_int_loop m v)"
proof -
  have "case read_var_int_loop m v r of Inl e \<Rightarrow> src_ok r \<longrightarrow> calm e | Inr (x, r') \<Rightarrow> shorter r' r" for r
  proof (induction m v r rule: read_var_int_loop.induct)
    case (1 m v r)
    show ?case
    proof (cases "read_byte r")
      case (Inl e)
      with behaves_Inl [OF read_byte_behaves] show ?thesis
        by (simp add: read_var_int_loop.simps [of m v r])
    next
      case (Inr p)
      obtain b r1 where p: "p = (b, r1)" by fastforce
      with Inr have s: "shorter r1 r" using behaves_Inr [OF read_byte_behaves] by blast
      with 1 [OF Inr p [symmetric] refl _ refl] Inr p src_ok_shorter [OF s] show ?thesis
        by (auto simp: read_var_int_loop.simps [of m v r] Let_def split: sum.splits
            intro: shorter_trans)
    qed
  qed
  then show ?thesis by (simp add: behaves_def)
qed

lemma read_var_int_behaves: "behaves read_var_int"
  unfolding read_var_int_def [abs_def] by (rule read_var_int_loop_behaves)

lemmas readers_behave = read_byte_behaves read_uint16_behaves read_bytes_behaves read_string_behaves
  read_var_int_behaves

section \<open>Parsers\<close>

text \<open>
  A parser that works on a reader over the packet's own bytes: what happens inside cannot
  panic, and outside exactly the packet is consumed.
\<close>

definition inner_calm :: "(reader \<Rightarrow> go_error + 'a) \<Rightarrow> bool" where
  "inner_calm f \<longleftrightarrow> (\<forall>r e. rsrc r = Slice \<longrightarrow> f r = Inl e \<longrightarrow> calm e)"

lemma src_ok_Slice: "rsrc r = Slice \<Longrightarrow> src_ok r"
  by (simp add: src_ok_def src_err_def)

lemma inner_calm_return [simp]: "inner_calm (\<lambda>r. Inr x)"
  by (simp add: inner_calm_def)

lemma inner_calm_fail [simp]: "calm e \<Longrightarrow> inner_calm (\<lambda>r. Inl e)"
  by (simp add: inner_calm_def)

lemma inner_calm_if: "inner_calm f \<Longrightarrow> inner_calm g \<Longrightarrow> inner_calm (\<lambda>r. if P then f r else g r)"
  by (cases P) simp_all

lemma inner_calm_bind:
  assumes "behaves rd" "\<And>x. inner_calm (k x)"
  shows "inner_calm (\<lambda>r. case rd r of Inl e \<Rightarrow> Inl e | Inr (x, r1) \<Rightarrow> k x r1)"
  unfolding inner_calm_def
proof (intro allI impI)
  fix r e
  assume r: "rsrc r = Slice" and e: "(case rd r of Inl e \<Rightarrow> Inl e | Inr (x, r1) \<Rightarrow> k x r1) = Inl e"
  show "calm e"
  proof (cases "rd r")
    case (Inl e')
    with e behaves_Inl [OF assms(1) src_ok_Slice [OF r]] show ?thesis by simp
  next
    case (Inr p)
    obtain x r1 where p: "p = (x, r1)" by fastforce
    with Inr r have "rsrc r1 = Slice"
      using behaves_Inr [OF assms(1)] by (auto simp: shorter_def)
    with Inr p e assms(2) [of x] show ?thesis by (simp add: inner_calm_def)
  qed
qed

lemma inner_calmD: "inner_calm f \<Longrightarrow> rsrc r = Slice \<Longrightarrow> f r = Inl e \<Longrightarrow> calm e"
  unfolding inner_calm_def by blast

lemma inner_calm_slice: "inner_calm f \<Longrightarrow> f (slice_reader bs) = Inl e \<Longrightarrow> calm e"
  by (erule inner_calmD) (simp_all add: slice_reader_def)

text \<open>The reader that a parser of a packet hands back is the outer one.\<close>

definition returns_to :: "reader \<Rightarrow> go_error + 'a \<times> reader \<Rightarrow> bool" where
  "returns_to q res \<longleftrightarrow> (\<forall>x r'. res = Inr (x, r') \<longrightarrow> r' = q)"

lemma returns_to_simps [simp]: "returns_to q (Inl e)" "returns_to q (Inr (x, r)) = (r = q)"
  by (auto simp: returns_to_def)

lemma returns_to_bind:
  "(\<And>x. returns_to q (k x)) \<Longrightarrow> returns_to q (case res of Inl e \<Rightarrow> Inl e | Inr x \<Rightarrow> k x)"
  by (cases res) simp_all

lemma returns_to_prod: "(\<And>x y. returns_to q (k x y)) \<Longrightarrow> returns_to q (case p of (x, y) \<Rightarrow> k x y)"
  by (cases p) simp

lemma returns_to_if: "returns_to q f \<Longrightarrow> returns_to q g \<Longrightarrow> returns_to q (if P then f else g)"
  by simp

lemmas returns_intros = returns_to_bind returns_to_prod returns_to_if

lemma behaves_packet:
  assumes n: "0 \<le> n" and inner: "\<And>r0'. inner_calm (\<lambda>r. f r r0')"
    and outer: "\<And>r r0'. returns_to r0' (f r r0')"
  shows "behaves (\<lambda>r0. case read_packet n r0 of Inl e \<Rightarrow> Inl e | Inr (r, r0') \<Rightarrow> f r r0')"
  unfolding behaves_def
proof
  fix r
  show "case (case read_packet n r of Inl e \<Rightarrow> Inl e | Inr (r, r0') \<Rightarrow> f r r0') of
    Inl e \<Rightarrow> src_ok r \<longrightarrow> calm e | Inr (x, r') \<Rightarrow> shorter r' r"
  proof (cases "read_exact n r")
    case (Inl e)
    with behaves_Inl [OF read_exact_behaves [OF n]] show ?thesis by (simp add: read_packet_def)
  next
    case (Inr p)
    obtain bs r1 where p: "p = (bs, r1)" by fastforce
    with Inr have s: "shorter r1 r" using behaves_Inr [OF read_exact_behaves [OF n]] by blast
    show ?thesis
      using Inr p s inner_calm_slice [OF inner] outer [of r1 "slice_reader bs"]
      by (auto simp: read_packet_def returns_to_def split: sum.split)
  qed
qed

lemma reader_len_calm: "inner_calm f \<Longrightarrow> inner_calm (\<lambda>r. case reader_len r of Inl e \<Rightarrow> Inl e | Inr n \<Rightarrow> f r)"
  by (simp add: inner_calm_def reader_len_def)

lemma read_remaining_returns:
  "rsrc r = Slice \<Longrightarrow> read_remaining_bytes r = Inr (rbuf r, r\<lparr>rbuf := []\<rparr>)"
  by (simp add: read_remaining_bytes_def reader_len_def read_exact_def)

lemma read_remaining_calm:
  assumes "\<And>x. inner_calm (k x)"
  shows "inner_calm (\<lambda>r. case read_remaining_bytes r of Inl e \<Rightarrow> Inl e | Inr (x, r1) \<Rightarrow> k x r1)"
  unfolding inner_calm_def
proof (intro allI impI)
  fix r e
  assume r: "rsrc r = Slice"
    and "(case read_remaining_bytes r of Inl e \<Rightarrow> Inl e | Inr (x, r1) \<Rightarrow> k x r1) = Inl e"
  then have "k (rbuf r) (r\<lparr>rbuf := []\<rparr>) = Inl e" by (simp add: read_remaining_returns)
  then show "calm e" using r by (intro inner_calmD [OF assms]) simp_all
qed

lemma if_zero_behaves: "behaves rd \<Longrightarrow> behaves (\<lambda>r. if P then rd r else Inr (x, r))"
  by (cases P) simp_all

lemma parse_publish_behaves: "0 \<le> n \<Longrightarrow> behaves (parse_publish b n)"
  unfolding parse_publish_def [abs_def] Let_def
  by (rule behaves_packet)
    (auto intro!: inner_calm_bind read_remaining_calm if_zero_behaves readers_behave returns_intros)

lemma read_will_behaves: "behaves (read_will flags)"
  unfolding read_will_def [abs_def] by (intro behaves_bind readers_behave behaves_return)

lemma read_credentials_behaves: "behaves (read_credentials c)"
  unfolding read_credentials_def [abs_def]
  by (intro behaves_bind if_zero_behaves readers_behave behaves_return)

lemma read_opt_will_behaves: "behaves (read_opt_will c)"
  unfolding read_opt_will_def [abs_def]
  by (intro if_zero_behaves behaves_bind read_will_behaves behaves_return)

lemma read_opt_credentials_behaves: "behaves (read_opt_credentials c)"
  unfolding read_opt_credentials_def [abs_def]
  by (intro if_zero_behaves behaves_bind read_credentials_behaves behaves_return)

lemma parse_connect_behaves: "0 \<le> n \<Longrightarrow> behaves (parse_connect b n)"
  unfolding parse_connect_def [abs_def] Let_def
  by (rule behaves_packet)
    (auto intro!: inner_calm_bind inner_calm_if readers_behave read_opt_will_behaves
      read_opt_credentials_behaves returns_intros)

lemma read_topic_behaves: "behaves read_topic"
  unfolding read_topic_def [abs_def]
  by (intro behaves_bind behaves_if readers_behave behaves_return behaves_fail) simp_all

lemma subscribe_topics_calm: "inner_calm (subscribe_topics acc)"
proof -
  have "rsrc r = Slice \<Longrightarrow> subscribe_topics acc r = Inl e \<Longrightarrow> calm e" for r e
  proof (induction acc r rule: subscribe_topics.induct)
    case (1 acc r)
    from "1.prems"(1) have len: "reader_len r = Inr (int (length (rbuf r)))"
      by (simp add: reader_len_def)
    show ?case
    proof (cases "int (length (rbuf r)) > 0")
      case False
      with "1.prems"(2) len show ?thesis by (simp add: subscribe_topics.simps [of acc r])
    next
      case True
      show ?thesis
      proof (cases "read_topic r")
        case (Inl e')
        then have "e' = e" using "1.prems"(2) len True by (simp add: subscribe_topics.simps [of acc r])
        with Inl show ?thesis
          using behaves_Inl [OF read_topic_behaves src_ok_Slice [OF "1.prems"(1)]] by blast
      next
        case (Inr p)
        obtain x r1 where p: "p = (x, r1)" by fastforce
        with Inr have "rsrc r1 = Slice"
          using behaves_Inr [OF read_topic_behaves] "1.prems"(1)
          by (auto simp: shorter_def)
        moreover have "subscribe_topics (acc @ [x]) r1 = Inl e"
          using "1.prems"(2) len True Inr p by (simp add: subscribe_topics.simps [of acc r])
        ultimately show ?thesis using "1.IH" [OF len True Inr p [symmetric]] by blast
      qed
    qed
  qed
  then show ?thesis by (simp add: inner_calm_def)
qed

lemma unsubscribe_topics_calm: "inner_calm (unsubscribe_topics acc)"
proof -
  have "rsrc r = Slice \<Longrightarrow> unsubscribe_topics acc r = Inl e \<Longrightarrow> calm e" for r e
  proof (induction acc r rule: unsubscribe_topics.induct)
    case (1 acc r)
    from "1.prems"(1) have len: "reader_len r = Inr (int (length (rbuf r)))"
      by (simp add: reader_len_def)
    show ?case
    proof (cases "int (length (rbuf r)) > 0")
      case False
      with "1.prems"(2) len show ?thesis by (simp add: unsubscribe_topics.simps [of acc r])
    next
      case True
      show ?thesis
      proof (cases "read_string r")
        case (Inl e')
        then have "e' = e" using "1.prems"(2) len True by (simp add: unsubscribe_topics.simps [of acc r])
        with Inl show ?thesis
          using behaves_Inl [OF read_string_behaves src_ok_Slice [OF "1.prems"(1)]] by blast
      next
        case (Inr p)
        obtain x r1 where p: "p = (x, r1)" by fastforce
        with Inr have "rsrc r1 = Slice"
          using behaves_Inr [OF read_string_behaves] "1.prems"(1)
          by (auto simp: shorter_def)
        moreover have "unsubscribe_topics (acc @ [x]) r1 = Inl e"
          using "1.prems"(2) len True Inr p by (simp add: unsubscribe_topics.simps [of acc r])
        ultimately show ?thesis using "1.IH" [OF len True Inr p [symmetric]] by blast
      qed
    qed
  qed
  then show ?thesis by (simp add: inner_calm_def)
qed

lemma inner_calm_last:
  "inner_calm f \<Longrightarrow> inner_calm (\<lambda>r. case f r of Inl e \<Rightarrow> Inl e | Inr x \<Rightarrow> Inr (k x))"
  by (auto simp: inner_calm_def split: sum.splits)

lemma parse_subscribe_behaves: "0 \<le> n \<Longrightarrow> behaves (parse_subscribe b n)"
  unfolding parse_subscribe_def [abs_def]
  by (intro behaves_if behaves_fail behaves_packet)
    (auto intro!: inner_calm_bind inner_calm_last readers_behave subscribe_topics_calm
      returns_intros)

lemma parse_unsubscribe_behaves: "0 \<le> n \<Longrightarrow> behaves (parse_unsubscribe b n)"
  unfolding parse_unsubscribe_def [abs_def]
  by (intro behaves_if behaves_fail behaves_packet)
    (auto intro!: inner_calm_bind inner_calm_last readers_behave unsubscribe_topics_calm
      returns_intros)

lemma parse_pub_acks_behave:
  "behaves (parse_pub_ack b n)" "behaves (parse_pub_rec b n)" "behaves (parse_pub_rel b n)"
  "behaves (parse_pub_comp b n)" "behaves (parse_unsub_ack b n)"
  unfolding parse_pub_ack_def [abs_def] parse_pub_rec_def [abs_def] parse_pub_rel_def [abs_def]
    parse_pub_comp_def [abs_def] parse_unsub_ack_def [abs_def]
  by (intro behaves_if readers_behave behaves_fail calm_simps)+

lemmas parsers_behave = parse_publish_behaves parse_connect_behaves parse_subscribe_behaves
  parse_unsubscribe_behaves parse_pub_acks_behave

end
