(* ===== verification/Client.thy ===== *)
theory Client
  imports Server Packet Reader_Safety
begin

text \<open>
  \<open>bridge/client.go\<close> and \<open>bridge/nats.go\<close>: a client connection, its state, the handling of
  every packet it sends, the callbacks of its NATS subscriptions, and its write loop.  An
  operation works on the client and on the server's shared state; a result \<open>Inl\<close> is a panic
  (which ends the process) or a call that never returns.  The deadlines set on the
  connection are not modelled: a read that fails, for whatever reason, is an error of the
  reader.
\<close>

section \<open>State\<close>

definition StateInfant :: byte where "StateInfant = 0"
definition StateConnected :: byte where "StateConnected = 1"
definition StateDisconnected :: byte where "StateDisconnected = 2"

lemmas state_defs = StateInfant_def StateConnected_def StateDisconnected_def

record client =
  cl_nats :: "conn option"
  cl_session :: "nat option"
  cl_connect :: "connect option"
  cl_err :: "go_error option"
  cl_max_wait :: int
  cl_subs :: "string \<rightharpoonup> nats_sub"
  cl_queue :: "packet list"
  cl_session_present :: bool
  cl_st :: byte

definition write_queue_size :: nat where "write_queue_size = 1024"

definition new_client :: client where
  "new_client = \<lparr>cl_nats = None, cl_session = None, cl_connect = None, cl_err = None, cl_max_wait = 0,
     cl_subs = Map.empty, cl_queue = [], cl_session_present = False, cl_st = StateInfant\<rparr>"

text \<open>
  Sending to the channel appends to the queue.  A send to a full channel waits for the write
  loop, which does not change what is sent or its order; the one sender that nobody else
  can relieve is the write loop itself, see \<open>write_batch\<close>.
\<close>

definition queue_for_write :: "packet \<Rightarrow> client \<Rightarrow> client" where
  "queue_for_write p c =
     (if cl_st c = StateConnected then c\<lparr>cl_queue := cl_queue c @ [p]\<rparr> else c)"

definition nil_session :: go_error where "nil_session = Panic ''nil session''"
definition nil_conn :: go_error where "nil_conn = Panic ''nil NATS connection''"

definition client_conn :: "client \<Rightarrow> go_error + conn" where
  "client_conn c = (case cl_nats c of None \<Rightarrow> Inl nil_conn | Some nc \<Rightarrow> Inr nc)"

definition client_session :: "client \<Rightarrow> 'w server \<Rightarrow> go_error + nat \<times> session" where
  "client_session c sv =
     (case cl_session c of
        None \<Rightarrow> Inl nil_session
      | Some a \<Rightarrow> (case sm_heap (sv_sm sv) a of None \<Rightarrow> Inl nil_session | Some s \<Rightarrow> Inr (a, s)))"

definition sv_update_session :: "nat \<Rightarrow> (session \<Rightarrow> session) \<Rightarrow> 'w server \<Rightarrow> 'w server" where
  "sv_update_session a f sv = sv\<lparr>sv_sm := sm_update a f (sv_sm sv)\<rparr>"

section \<open>Publishing to the client\<close>

definition publish_response ::
  "byte \<Rightarrow> publish \<Rightarrow> client \<Rightarrow> 'w server \<Rightarrow> go_error + client \<times> 'w server" where
  "publish_response qos pp c sv =
     (if qos > 0 then
        (case client_session c sv of
           Inl e \<Rightarrow> Inl e
         | Inr (a, s) \<Rightarrow>
             Inr (queue_for_write (PPublish pp) c, sv_update_session a (client_ack_requested pp) sv))
      else Inr (queue_for_write (PPublish pp) c, sv))"

text \<open>The retained messages for a subscription; a nil packet would panic when it is used.\<close>

fun publish_matches ::
  "(publish option \<times> byte) list \<Rightarrow> client \<Rightarrow> 'w server \<Rightarrow> go_error + client \<times> 'w server" where
  "publish_matches [] c sv = Inr (c, sv)"
| "publish_matches ((None, q) # hits) c sv = Inl (Panic ''nil packet'')"
| "publish_matches ((Some pp, q) # hits) c sv =
     (case publish_response q pp c sv of
        Inl e \<Rightarrow> Inl e
      | Inr (c1, sv1) \<Rightarrow> publish_matches hits c1 sv1)"

definition publish_matching ::
  "subscribe \<Rightarrow> client \<Rightarrow> 'w server \<Rightarrow> go_error + client \<times> 'w server" where
  "publish_matching sp c sv =
     (case matching_messages (sub_topics sp) (sv_retained sv) of
        Inl e \<Rightarrow> Inl e
      | Inr (pps, qs) \<Rightarrow> publish_matches (zip pps qs) c sv)"

section \<open>Publishing to NATS\<close>

definition nats_subscribe_ack ::
  "'w env \<Rightarrow> nat \<Rightarrow> string \<Rightarrow> client \<Rightarrow> 'w server \<Rightarrow> go_error + (go_error + nats_sub) \<times> 'w server" where
  "nats_subscribe_ack env self topic c sv =
     (case client_conn c of
        Inl e \<Rightarrow> Inl e
      | Inr nc \<Rightarrow>
          (case nats_subscribe (env_nats env) nc topic (AckHandler self) (sv_world sv) of
             (res, w) \<Rightarrow> Inr (res, sv\<lparr>sv_world := w\<rparr>)))"

text \<open>A duplicate that already waits for its acknowledgement is not published again.\<close>

definition already_waiting :: "publish \<Rightarrow> client \<Rightarrow> 'w server \<Rightarrow> go_error + bool" where
  "already_waiting pp c sv =
     (if is_dup pp then
        (case client_session c sv of
           Inl e \<Rightarrow> Inl e
         | Inr (a, s) \<Rightarrow> Inr (is_awaiting_ack (pub_id pp) s))
      else Inr False)"

definition nats_publish_qos1 ::
  "'w env \<Rightarrow> nat \<Rightarrow> publish \<Rightarrow> client \<Rightarrow> 'w server \<Rightarrow> go_error + go_error option \<times> 'w server" where
  "nats_publish_qos1 env self pp c sv =
     (case client_session c sv of
        Inl e \<Rightarrow> Inl e
      | Inr (a, s) \<Rightarrow>
          (let reply_to = reply_topic_string (new_reply_topic s pp)
           in case nats_subscribe_ack env self reply_to c sv of
                Inl e \<Rightarrow> Inl e
              | Inr (Inl e, sv1) \<Rightarrow> Inr (Some e, sv1)
              | Inr (Inr sub, sv1) \<Rightarrow>
                  (let sv2 = sv_update_session a (ack_requested (pub_id pp) sub) sv1
                   in case client_conn c of
                        Inl e \<Rightarrow> Inl e
                      | Inr nc \<Rightarrow>
                          (case nats_publish_request (env_nats env) nc (to_nats (pub_name pp)) reply_to
                                  (pub_payload pp) (sv_world sv2) of
                             (err, w) \<Rightarrow> Inr (err, sv2\<lparr>sv_world := w\<rparr>)))))"

definition nats_publish_packet ::
  "'w env \<Rightarrow> nat \<Rightarrow> publish \<Rightarrow> client \<Rightarrow> 'w server \<Rightarrow> go_error + go_error option \<times> 'w server" where
  "nats_publish_packet env self pp c sv =
     (case already_waiting pp c sv of
        Inl e \<Rightarrow> Inl e
      | Inr True \<Rightarrow> Inr (None, sv)
      | Inr False \<Rightarrow>
          if qos_level pp = 0 then
            (case client_conn c of
               Inl e \<Rightarrow> Inl e
             | Inr nc \<Rightarrow>
                 (case nats_publish (env_nats env) nc (to_nats (pub_name pp)) (pub_payload pp) (sv_world sv) of
                    (err, w) \<Rightarrow> Inr (err, sv\<lparr>sv_world := w\<rparr>)))
          else if qos_level pp = 1 then nats_publish_qos1 env self pp c sv
          else if qos_level pp = 2 then Inr (Some (ErrorString ''QoS level 2 is not supported''), sv)
          else Inr (Some (ErrorString ''invalid QoS level''), sv))"

text \<open>Errors of \<open>Unsubscribe\<close> are logged only.\<close>

fun cancel_subscriptions :: "'w nats \<Rightarrow> nats_sub list \<Rightarrow> 'w \<Rightarrow> 'w" where
  "cancel_subscriptions api [] w = w"
| "cancel_subscriptions api (ns # nss) w = cancel_subscriptions api nss (snd (nats_unsubscribe api ns w))"

definition sv_cancel :: "'w env \<Rightarrow> nats_sub list \<Rightarrow> 'w server \<Rightarrow> 'w server" where
  "sv_cancel env nss sv = sv\<lparr>sv_world := cancel_subscriptions (env_nats env) nss (sv_world sv)\<rparr>"

text \<open>The callback of \<open>natsSubscribeAck\<close>: the session is looked up by the reply subject.\<close>

definition on_ack :: "'w env \<Rightarrow> nats_msg \<Rightarrow> client \<Rightarrow> 'w server \<Rightarrow> client \<times> 'w server" where
  "on_ack env m c sv =
     (case parse_reply_topic (msg_subject m) of
        None \<Rightarrow> (c, sv)
      | Some mt \<Rightarrow>
          (case sm_get (rt_c mt) (sv_sm sv) of
             None \<Rightarrow> (c, sv)
           | Some a \<Rightarrow>
               (case sm_heap (sv_sm sv) a of
                  None \<Rightarrow> (c, sv)
                | Some s \<Rightarrow>
                    if ses_id s = rt_s mt then
                      (queue_for_write (PPubAck (rt_p mt)) c,
                       sv_cancel env (fst (ack_received (rt_p mt) s))
                         (sv_update_session a (\<lambda>s. snd (ack_received (rt_p mt) s)) sv))
                    else (c, sv))))"

section \<open>Subscriptions\<close>

text \<open>First loop: names, qualities of service, and the previous subscriptions to cancel.\<close>

fun collect_subs ::
  "topic list \<Rightarrow> (string \<rightharpoonup> nats_sub) \<Rightarrow> (string \<times> byte) list \<times> nats_sub list \<times> (string \<rightharpoonup> nats_sub)" where
  "collect_subs [] subs = ([], [], subs)"
| "collect_subs (tp # tps) subs =
     (let nm = to_nats_subscription (topic_name tp);
          (os, subs1) = (case subs nm of None \<Rightarrow> ([], subs) | Some os \<Rightarrow> ([os], subs(nm := None)));
          (nqs, nss, subs2) = collect_subs tps subs1
      in ((nm, topic_qos tp) # nqs, os @ nss, subs2))"

text \<open>Second loop: subscribe with a quality of service of at most one; \<open>0x80\<close> is a failure.\<close>

fun subscribe_all ::
  "'w env \<Rightarrow> nat \<Rightarrow> conn \<Rightarrow> (string \<times> byte) list \<Rightarrow> 'w server \<Rightarrow> nats_sub list \<times> byte list \<times> 'w server" where
  "subscribe_all env self nc [] sv = ([], [], sv)"
| "subscribe_all env self nc ((nm, q) # nqs) sv =
     (let q1 = (if q > 1 then 1 else q)
      in case nats_subscribe (env_nats env) nc nm (ResponseHandler self q1) (sv_world sv) of
           (res, w) \<Rightarrow>
             (case subscribe_all env self nc nqs (sv\<lparr>sv_world := w\<rparr>) of
                (nss, qss, sv1) \<Rightarrow>
                  (case res of Inl e \<Rightarrow> (nss, 0x80 # qss, sv1) | Inr ns \<Rightarrow> (ns # nss, q1 # qss, sv1))))"

fun add_subs :: "nats_sub list \<Rightarrow> (string \<rightharpoonup> nats_sub) \<Rightarrow> (string \<rightharpoonup> nats_sub)" where
  "add_subs [] subs = subs"
| "add_subs (ns # nss) subs = add_subs nss (subs(ns_subject ns \<mapsto> ns))"

definition client_subscribe ::
  "'w env \<Rightarrow> nat \<Rightarrow> subscribe \<Rightarrow> client \<Rightarrow> 'w server \<Rightarrow> go_error + client \<times> 'w server" where
  "client_subscribe env self sp c sv =
     (case collect_subs (sub_topics sp) (cl_subs c) of
        (nqs, old, subs1) \<Rightarrow>
          (case client_conn c of
             Inl e \<Rightarrow> Inl e
           | Inr nc \<Rightarrow>
               (case subscribe_all env self nc nqs (sv_cancel env old sv) of
                  (nss, qss, sv1) \<Rightarrow>
                    Inr (queue_for_write (PSubAck \<lparr>sub_ack_id = sub_id sp, topic_returns = qss\<rparr>)
                           (c\<lparr>cl_subs := add_subs nss subs1\<rparr>), sv1))))"

fun drop_subs ::
  "string list \<Rightarrow> (string \<rightharpoonup> nats_sub) \<Rightarrow> nats_sub list \<times> (string \<rightharpoonup> nats_sub)" where
  "drop_subs [] subs = ([], subs)"
| "drop_subs (t # ts) subs =
     (let subj = to_nats_subscription t
      in case subs subj of
           None \<Rightarrow> drop_subs ts subs
         | Some ns \<Rightarrow> (case drop_subs ts (subs(subj := None)) of (nss, subs1) \<Rightarrow> (ns # nss, subs1)))"

definition client_unsubscribe ::
  "'w env \<Rightarrow> unsubscribe \<Rightarrow> client \<Rightarrow> 'w server \<Rightarrow> client \<times> 'w server" where
  "client_unsubscribe env up c sv =
     (case drop_subs (unsub_topics up) (cl_subs c) of
        (nss, subs1) \<Rightarrow>
          (queue_for_write (PUnsubAck (unsub_id up)) (c\<lparr>cl_subs := subs1\<rparr>), sv_cancel env nss sv))"

text \<open>The callback of \<open>natsSubscribe\<close>.\<close>

definition nats_response ::
  "byte \<Rightarrow> nats_msg \<Rightarrow> client \<Rightarrow> 'w server \<Rightarrow> go_error + client \<times> 'w server" where
  "nats_response desired_qos m c sv =
     (case (if desired_qos > 0 \<and> msg_reply m \<noteq> [] then
              (case parse_reply_topic (msg_reply m) of
                 Some mt \<Rightarrow> Inr (rt_p mt, rt_f mt, sv)
               | None \<Rightarrow> (case sv_next_id sv of Inl e \<Rightarrow> Inl e | Inr (i, sv1) \<Rightarrow> Inr (i, 2, sv1)))
            else Inr (0, 0, sv)) of
        Inl e \<Rightarrow> Inl e
      | Inr (i, flags, sv1) \<Rightarrow>
          (let pp = new_publish i (from_nats (msg_subject m)) flags (msg_data m) False (msg_reply m);
               qos = (if qos_level pp < desired_qos then qos_level pp else desired_qos)
           in publish_response qos pp c sv1))"

section \<open>Connecting\<close>

text \<open>The loop over the subjects of a restored session; a subscription that fails is logged.\<close>

fun restore_acks ::
  "'w env \<Rightarrow> nat \<Rightarrow> nat \<Rightarrow> (u16 \<rightharpoonup> string) \<Rightarrow> u16 list \<Rightarrow> client \<Rightarrow> 'w server \<Rightarrow> go_error + 'w server" where
  "restore_acks env self a m [] c sv = Inr sv"
| "restore_acks env self a m (k # ks) c sv =
     (case m k of
        None \<Rightarrow> restore_acks env self a m ks c sv
      | Some subj \<Rightarrow>
          (case nats_subscribe_ack env self subj c sv of
             Inl e \<Rightarrow> Inl e
           | Inr (Inl e, sv1) \<Rightarrow> restore_acks env self a m ks c sv1
           | Inr (Inr sb, sv1) \<Rightarrow>
               restore_acks env self a m ks c (sv_update_session a (ack_requested k sb) sv1)))"

definition restore_ack_subscriptions ::
  "'w env \<Rightarrow> nat \<Rightarrow> client \<Rightarrow> 'w server \<Rightarrow> go_error + 'w server" where
  "restore_ack_subscriptions env self c sv =
     (case client_session c sv of
        Inl e \<Rightarrow> Inl e
      | Inr (a, s) \<Rightarrow>
          (case prel_awaits_ack s of
             None \<Rightarrow> Inr sv
           | Some m \<Rightarrow>
               (case restore_acks env self a m (env_enum env (dom m)) c sv of
                  Inl e \<Rightarrow> Inl e
                | Inr sv1 \<Rightarrow> Inr (sv_update_session a (\<lambda>s. s\<lparr>prel_awaits_ack := None\<rparr>) sv1))))"

fun publish_responses :: "publish list \<Rightarrow> client \<Rightarrow> 'w server \<Rightarrow> go_error + client \<times> 'w server" where
  "publish_responses [] c sv = Inr (c, sv)"
| "publish_responses (pp # pps) c sv =
     (case publish_response (qos_level pp) pp c sv of
        Inl e \<Rightarrow> Inl e
      | Inr (c1, sv1) \<Rightarrow> publish_responses pps c1 sv1)"

definition resend_client_unack ::
  "'w env \<Rightarrow> client \<Rightarrow> 'w server \<Rightarrow> go_error + client \<times> 'w server" where
  "resend_client_unack env c sv =
     (case client_session c sv of
        Inl e \<Rightarrow> Inl e
      | Inr (a, s) \<Rightarrow>
          (let m = made_map (awaits_client_ack s)
           in publish_responses (map (\<lambda>k. the (m k)) (env_enum env (dom m))) c sv))"

text \<open>The session of a connecting client, and whether it was there before.\<close>

definition attach_session :: "string \<Rightarrow> bool \<Rightarrow> 'w server \<Rightarrow> nat \<times> bool \<times> 'w server" where
  "attach_session cid clean sv =
     (if clean then (case sm_create cid (sv_sm sv) of (a, m) \<Rightarrow> (a, False, sv\<lparr>sv_sm := m\<rparr>))
      else case sm_get cid (sv_sm sv) of
          Some a \<Rightarrow> (a, True, sv)
        | None \<Rightarrow> (case sm_create cid (sv_sm sv) of (a, m) \<Rightarrow> (a, False, sv\<lparr>sv_sm := m\<rparr>)))"

definition max_wait_of :: "connect \<Rightarrow> int" where
  "max_wait_of cp = (if keep_alive cp > 0 then (keep_alive cp * 3) div 2 else 0)"

definition handle_connect ::
  "'w env \<Rightarrow> nat \<Rightarrow> connect \<Rightarrow> client \<Rightarrow> 'w server \<Rightarrow> go_error + go_error option \<times> client \<times> 'w server" where
  "handle_connect env self cp c sv =
     (let c1 = c\<lparr>cl_connect := Some cp\<rparr>
      in case nats_conn env (creds cp) sv of
           (Inl e, sv1) \<Rightarrow> Inr (Some (RetCode RtServerUnavailable), c1\<lparr>cl_nats := None\<rparr>, sv1)
         | (Inr nc, sv1) \<Rightarrow>
             (case attach_session (client_id cp) (clean_session cp) sv1 of
                (a, present, sv2) \<Rightarrow>
                  (let c2 = c1\<lparr>cl_nats := Some nc, cl_session := Some a, cl_session_present := present,
                               cl_st := StateConnected, cl_max_wait := max_wait_of cp\<rparr>;
                       c3 = queue_for_write (PConnAck (new_conn_ack present 0)) c2
                   in if \<not> clean_session cp \<and> present then
                        (case restore_ack_subscriptions env self c3 sv2 of
                           Inl e \<Rightarrow> Inl e
                         | Inr sv3 \<Rightarrow>
                             (case resend_client_unack env c3 sv3 of
                                Inl e \<Rightarrow> Inl e
                              | Inr (c4, sv4) \<Rightarrow> Inr (None, c4, sv4)))
                      else Inr (None, c3, sv2))))"

section \<open>Disconnecting\<close>

text \<open>
  The will is published before the packet that ends the write loop is queued; the error of
  that is logged.  A second call has no effect.
\<close>

definition set_disconnected ::
  "'w env \<Rightarrow> go_error option \<Rightarrow> client \<Rightarrow> 'w server \<Rightarrow> go_error + client \<times> 'w server" where
  "set_disconnected env err c sv =
     (if cl_st c = StateDisconnected then Inr (c, sv)
      else
        (let c1 = c\<lparr>cl_st := StateDisconnected, cl_max_wait := 1000000\<rparr>
         in case (case cl_connect c1 of
                    None \<Rightarrow> Inr sv
                  | Some cp \<Rightarrow>
                      if has_will cp then
                        (case conn_will cp of
                           None \<Rightarrow> Inl (Panic ''nil will'')
                         | Some wl \<Rightarrow>
                             (case publish_will env wl (creds cp) sv of
                                Inl e \<Rightarrow> Inl e
                              | Inr (_, sv1) \<Rightarrow> Inr sv1))
                      else Inr sv) of
              Inl e \<Rightarrow> Inl e
            | Inr sv1 \<Rightarrow>
                Inr (c1\<lparr>cl_queue := cl_queue c1 @ [PDisconnect],
                        cl_err := (if err = Some EOF then Some ErrUnexpectedEOF else err)\<rparr>, sv1)))"

section \<open>The read loop\<close>

text \<open>
  The error that a parser or handler leaves in \<open>err\<close>, with the client and the server after it;
  the reader is advanced unless the packet could not be parsed, after which it is not used
  again.
\<close>

type_synonym 'w handled = "go_error + go_error option \<times> reader \<times> client \<times> 'w server"

definition after_parse ::
  "go_error + 'p \<times> reader \<Rightarrow> reader \<Rightarrow> client \<Rightarrow> 'w server
   \<Rightarrow> ('p \<Rightarrow> go_error + go_error option \<times> client \<times> 'w server) \<Rightarrow> 'w handled" where
  "after_parse res r c sv k =
     (case res of
        Inl (Panic s) \<Rightarrow> Inl (Panic s)
      | Inl e \<Rightarrow> Inr (Some e, r, c, sv)
      | Inr (p, r1) \<Rightarrow>
          (case k p of
             Inl e \<Rightarrow> Inl e
           | Inr (err, c1, sv1) \<Rightarrow> Inr (err, r1, c1, sv1)))"

text \<open>CONNECT: a return code, from the parser or the handler, is acknowledged before the loop ends.\<close>

definition on_connect :: "'w env \<Rightarrow> nat \<Rightarrow> byte \<Rightarrow> int \<Rightarrow> reader \<Rightarrow> client \<Rightarrow> 'w server \<Rightarrow> 'w handled" where
  "on_connect env self b rl r c sv =
     (case after_parse (parse_connect b rl r) r c sv
             (\<lambda>cp. case handle_connect env self cp c sv of
                 Inl e \<Rightarrow> Inl e
               | Inr (Some e, c1, sv1) \<Rightarrow> Inr (Some e, c1, sv1)
               | Inr (None, c1, sv1) \<Rightarrow> Inr (None, c1, manage_client self sv1)) of
        Inl e \<Rightarrow> Inl e
      | Inr (err, r1, c1, sv1) \<Rightarrow>
          (case err of
             Some (RetCode rc) \<Rightarrow>
               Inr (err, r1, queue_for_write (PConnAck (new_conn_ack (cl_session_present c1) rc))
                               (c1\<lparr>cl_st := StateConnected\<rparr>), sv1)
           | _ \<Rightarrow> Inr (err, r1, c1, sv1)))"

text \<open>PUBACK: forward the acknowledgement and release the identifier.\<close>

definition on_pub_ack ::
  "'w env \<Rightarrow> u16 \<Rightarrow> client \<Rightarrow> 'w server \<Rightarrow> go_error + go_error option \<times> client \<times> 'w server" where
  "on_pub_ack env i c sv =
     (case client_session c sv of
        Inl e \<Rightarrow> Inl e
      | Inr (a, s) \<Rightarrow>
          (case client_conn c of
             Inl e \<Rightarrow> Inl e
           | Inr nc \<Rightarrow>
               (case client_ack_received (env_nats env) i nc s (sv_world sv) of
                  (_, s1, w) \<Rightarrow>
                    Inr (None, c, sv_release_id i (sv_update_session a (\<lambda>_. s1) sv\<lparr>sv_world := w\<rparr>)))))"

text \<open>The body of the switch on the packet type, after the header is read.\<close>

definition dispatch ::
  "'w env \<Rightarrow> nat \<Rightarrow> byte \<Rightarrow> int \<Rightarrow> reader \<Rightarrow> client \<Rightarrow> 'w server \<Rightarrow> 'w handled" where
  "dispatch env self b rl r c sv =
     (let tp = b AND TpMask
      in if tp = TpPing then Inr (None, r, queue_for_write PPingResponse c, sv)
         else if tp = TpConnect then on_connect env self b rl r c sv
         else if tp = TpPublish then
           after_parse (parse_publish b rl r) r c sv
             (\<lambda>p. case sv_handle_retain p sv of
                (p1, sv1) \<Rightarrow>
                  (case nats_publish_packet env self p1 c sv1 of
                     Inl e \<Rightarrow> Inl e
                   | Inr (err, sv2) \<Rightarrow> Inr (err, c, sv2)))
         else if tp = TpPubAck then
           after_parse (parse_pub_ack b rl r) r c sv (\<lambda>i. on_pub_ack env i c sv)
         else if tp = TpPubRec then after_parse (parse_pub_rec b rl r) r c sv (\<lambda>i. Inr (None, c, sv))
         else if tp = TpPubRel then after_parse (parse_pub_rel b rl r) r c sv (\<lambda>i. Inr (None, c, sv))
         else if tp = TpPubComp then after_parse (parse_pub_comp b rl r) r c sv (\<lambda>i. Inr (None, c, sv))
         else if tp = TpSubscribe then
           after_parse (parse_subscribe b rl r) r c sv
             (\<lambda>sp. case client_subscribe env self sp c sv of
                Inl e \<Rightarrow> Inl e
              | Inr (c1, sv1) \<Rightarrow>
                  (case publish_matching sp c1 sv1 of
                     Inl e \<Rightarrow> Inl e
                   | Inr (c2, sv2) \<Rightarrow> Inr (None, c2, sv2)))
         else if tp = TpUnsubscribe then
           after_parse (parse_unsubscribe b rl r) r c sv
             (\<lambda>up. case client_unsubscribe env up c sv of (c1, sv1) \<Rightarrow> Inr (None, c1, sv1))
         else Inr (Some (ErrorString (''received unknown packet type '' @ itoa (uint (drop_bit 4 (b AND TpMask))))),
                   r, c, sv))"

text \<open>
  One turn of the loop: what \<open>err\<close> is when the turn ends, and whether the loop goes on.  A
  DISCONNECT packet deletes the will and leaves the loop without an error.
\<close>

datatype 'w turn = Next reader client "'w server" | Leave "go_error option" client "'w server"

definition read_turn :: "'w env \<Rightarrow> nat \<Rightarrow> reader \<Rightarrow> client \<Rightarrow> 'w server \<Rightarrow> go_error + 'w turn" where
  "read_turn env self r c sv =
     (if cl_st c = StateDisconnected then Inr (Leave None c sv)
      else case read_byte r of
          Inl e \<Rightarrow> Inr (Leave (Some e) c sv)
        | Inr (b, r1) \<Rightarrow>
            (let tp = b AND TpMask
             in if cl_st c = StateConnected \<and> tp = TpConnect
                then Inr (Leave (Some (ErrorString ''second connect packet'')) c sv)
                else if cl_st c = StateInfant \<and> tp \<noteq> TpConnect
                then Inr (Leave (Some (ErrorString ''not connected'')) c sv)
                else case read_var_int r1 of
                    Inl e \<Rightarrow> Inr (Leave (Some e) c sv)
                  | Inr (rl, r2) \<Rightarrow>
                      if tp = TpDisconnect then
                        (case cl_connect c of
                           None \<Rightarrow> Inl (Panic ''nil connect packet'')
                         | Some cp \<Rightarrow> Inr (Leave None (c\<lparr>cl_connect := Some (delete_will cp)\<rparr>) sv))
                      else (case dispatch env self b rl r2 c sv of
                          Inl e \<Rightarrow> Inl e
                        | Inr (None, r3, c1, sv1) \<Rightarrow> Inr (Next r3 c1 sv1)
                        | Inr (Some e, r3, c1, sv1) \<Rightarrow> Inr (Leave (Some e) c1 sv1))))"

text \<open>Each turn that goes on has consumed a byte, so the loop ends.\<close>

lemma after_parse_shorter:
  "behaves rd \<Longrightarrow> after_parse (rd r) r c sv k = Inr (err, r', c', sv') \<Longrightarrow> shorter r' r"
  by (auto simp: after_parse_def dest: behaves_Inr split: sum.splits go_error.splits)

lemma dispatch_shorter:
  assumes "dispatch env self b rl r c sv = Inr (err, r', c', sv')" "0 \<le> rl"
  shows "shorter r' r"
proof -
  have con: "shorter r' r" if oc: "on_connect env self b rl r c sv = Inr (err, r', c', sv')"
  proof -
    let ?k = "\<lambda>cp. case handle_connect env self cp c sv of
                 Inl e \<Rightarrow> Inl e
               | Inr (Some e, c1, sv1) \<Rightarrow> Inr (Some e, c1, sv1)
               | Inr (None, c1, sv1) \<Rightarrow> Inr (None, c1, manage_client self sv1)"
    obtain err1 r1 c1 sv1 where ap: "after_parse (parse_connect b rl r) r c sv ?k = Inr (err1, r1, c1, sv1)"
      using oc by (cases "after_parse (parse_connect b rl r) r c sv ?k") (auto simp: on_connect_def)
    then have "r1 = r'" using oc
      by (cases err1) (auto simp: on_connect_def split: go_error.splits)
    with after_parse_shorter [OF parse_connect_behaves [OF assms(2)] ap] show ?thesis by simp
  qed
  note p = after_parse_shorter [OF parse_publish_behaves [OF assms(2)]]
    after_parse_shorter [OF parse_subscribe_behaves [OF assms(2)]]
    after_parse_shorter [OF parse_unsubscribe_behaves [OF assms(2)]]
    parse_pub_acks_behave [THEN after_parse_shorter]
  show ?thesis
    using assms(1) con p unfolding dispatch_def Let_def by (auto split: if_splits)
qed

lemma read_var_int_pos: "read_var_int r = Inr (n, r') \<Longrightarrow> 0 \<le> n"
  using read_var_int_loop_bounds [of 0 0 r n r'] by (simp add: read_var_int_def)

lemma read_turn_shrinks:
  assumes "read_turn env self r c sv = Inr (Next r' c' sv')"
  shows "length (rbuf r') < length (rbuf r)"
proof -
  obtain b r1 rl r2 where h: "read_byte r = Inr (b, r1)" "read_var_int r1 = Inr (rl, r2)"
    "dispatch env self b rl r2 c sv = Inr (None, r', c', sv')"
    using assms by (auto simp: read_turn_def Let_def split: if_splits sum.splits option.splits)
  have "length (rbuf r1) < length (rbuf r)" using h(1) by (rule read_byte_shrinks)
  moreover have "shorter r2 r1" using behaves_Inr [OF read_var_int_behaves h(2)] .
  moreover have "shorter r' r2" using dispatch_shorter [OF h(3) read_var_int_pos [OF h(2)]] .
  ultimately show ?thesis by (simp add: shorter_def)
qed

text \<open>The whole loop, when nothing else runs in between, and the call that ends it.\<close>

function read_loop ::
  "'w env \<Rightarrow> nat \<Rightarrow> reader \<Rightarrow> client \<Rightarrow> 'w server \<Rightarrow> go_error + client \<times> 'w server" where
  "read_loop env self r c sv =
     (case read_turn env self r c sv of
        Inl e \<Rightarrow> Inl e
      | Inr (Next r1 c1 sv1) \<Rightarrow> read_loop env self r1 c1 sv1
      | Inr (Leave err c1 sv1) \<Rightarrow> set_disconnected env err c1 sv1)"
  by pat_completeness auto
termination
  by (relation "measure (\<lambda>(env, self, r, c, sv). length (rbuf r))") (auto dest: read_turn_shrinks)

declare read_loop.simps [simp del]

section \<open>The write loop\<close>

text \<open>Write packets up to the one that ends the loop.\<close>

fun write_bulk :: "packet list \<Rightarrow> writer \<Rightarrow> go_error + bool \<times> writer" where
  "write_bulk [] w = Inr (True, w)"
| "write_bulk (p # ps) w =
     (if p = PDisconnect then Inr (False, w)
      else case write_packet p w of Inl e \<Rightarrow> Inl e | Inr w1 \<Rightarrow> write_bulk ps w1)"

text \<open>
  One turn of the write loop, with at least one packet in the queue: the bytes handed to the
  connection, whether the loop goes on, and the state after it.  \<open>werr\<close> is the error of the
  connection's \<open>Write\<close>.  When the loop itself has to disconnect the client and the channel is
  full, its send waits for a receiver that is the loop itself.
\<close>

definition write_batch ::
  "'w env \<Rightarrow> go_error option \<Rightarrow> client \<Rightarrow> 'w server \<Rightarrow> go_error + byte list \<times> bool \<times> client \<times> 'w server" where
  "write_batch env werr c sv =
     (let bulk = take write_queue_size (cl_queue c);
          c1 = c\<lparr>cl_queue := drop write_queue_size (cl_queue c)\<rparr>
      in case write_bulk bulk [] of
           Inl e \<Rightarrow> Inl e
         | Inr (connected, bs) \<Rightarrow>
             if bs = [] then Inr ([], connected, c1, sv)
             else (case werr of
                 None \<Rightarrow> Inr (bs, connected, c1, sv)
               | Some e \<Rightarrow>
                   if connected then
                     (if cl_st c1 \<noteq> StateDisconnected \<and> length (cl_queue c1) \<ge> write_queue_size
                      then Inl Diverges
                      else case set_disconnected env (Some e) c1 sv of
                          Inl e' \<Rightarrow> Inl e'
                        | Inr (c2, sv1) \<Rightarrow> Inr (bs, False, c2, sv1))
                   else Inr (bs, False, c1, sv)))"

text \<open>
  The whole loop over the packets that are in the queue, when every write succeeds: the bytes
  sent, and whether the loop still waits for packets.  The fuel bounds the number of turns;
  each turn takes a packet, so the length of the queue is enough.
\<close>

fun write_loop ::
  "nat \<Rightarrow> 'w env \<Rightarrow> client \<Rightarrow> 'w server \<Rightarrow> go_error + byte list \<times> bool \<times> client \<times> 'w server" where
  "write_loop 0 env c sv = Inr ([], True, c, sv)"
| "write_loop (Suc n) env c sv =
     (if cl_queue c = [] then Inr ([], True, c, sv)
      else case write_batch env None c sv of
          Inl e \<Rightarrow> Inl e
        | Inr (bs, connected, c1, sv1) \<Rightarrow>
            if connected then
              (case write_loop n env c1 sv1 of
                 Inl e \<Rightarrow> Inl e
               | Inr (bs', connected', c2, sv2) \<Rightarrow> Inr (bs @ bs', connected', c2, sv2))
            else Inr (bs, False, c1, sv1))"

text \<open>What \<open>Serve\<close> does when both loops have ended.\<close>

definition serve_end :: "'w env \<Rightarrow> client \<Rightarrow> 'w server \<Rightarrow> 'w server" where
  "serve_end env c sv =
     (let sv1 = (case cl_connect c of
                   None \<Rightarrow> sv
                 | Some cp \<Rightarrow>
                     if clean_session cp then
                       (case sm_remove (env_nats env) (env_enum env) (client_id cp) (sv_sm sv) (sv_world sv) of
                          (m, w) \<Rightarrow> sv\<lparr>sv_sm := m, sv_world := w\<rparr>)
                     else sv)
      in case cl_nats c of None \<Rightarrow> sv1 | Some nc \<Rightarrow> close_conn env nc sv1)"

end
