(* ===== verification/Client_Safety.thy ===== *)
theory Client_Safety
  imports Client
begin

text \<open>
  What the operations of a client keep of its own state and of the server's: whatever bytes
  arrive and whatever NATS answers, the invariants hold on, and the process ends only where
  no packet identifier is free or a subscription is not valid UTF-8.
\<close>

section \<open>What the operations keep\<close>

text \<open>
  Every operation keeps the invariant of the server and every session that exists; the
  operations of a connected client keep its connection, its session and its state.
\<close>

definition sv_keeps :: "'w server \<Rightarrow> 'w server \<Rightarrow> bool" where
  "sv_keeps sv sv' \<longleftrightarrow> (sv_ok sv \<longrightarrow> sv_ok sv') \<and> dom (sm_heap (sv_sm sv)) \<subseteq> dom (sm_heap (sv_sm sv'))
     \<and> sv_clients sv' = sv_clients sv"

text \<open>
  The write queue grows at its end, by packets that a server sends and never by the one that
  ends the write loop; only \<open>SetDisconnected\<close> disconnects a client.
\<close>

fun outgoing :: "packet \<Rightarrow> bool" where
  "outgoing (PConnAck a) = True"
| "outgoing (PPublish p) = True"
| "outgoing (PPubAck i) = True"
| "outgoing (PSubAck s) = True"
| "outgoing (PUnsubAck i) = True"
| "outgoing PPingResponse = True"
| "outgoing _ = False"

definition q_ext :: "client \<Rightarrow> client \<Rightarrow> bool" where
  "q_ext c c' \<longleftrightarrow> (\<exists>ps. cl_queue c' = cl_queue c @ ps \<and> list_all outgoing ps)
     \<and> (cl_st c' = StateDisconnected \<longrightarrow> cl_st c = StateDisconnected)"

definition c_keeps :: "client \<Rightarrow> client \<Rightarrow> bool" where
  "c_keeps c c' \<longleftrightarrow> cl_nats c' = cl_nats c \<and> cl_session c' = cl_session c \<and> cl_connect c' = cl_connect c
     \<and> cl_st c' = cl_st c \<and> q_ext c c'"

lemma q_ext_refl [simp]: "q_ext c c"
  by (simp add: q_ext_def)

lemma q_ext_trans: "q_ext a b \<Longrightarrow> q_ext b c \<Longrightarrow> q_ext a c"
  by (auto simp: q_ext_def)

lemma q_ext_no_end: "q_ext c c' \<Longrightarrow> PDisconnect \<notin> set (cl_queue c) \<Longrightarrow> PDisconnect \<notin> set (cl_queue c')"
  by (fastforce simp: q_ext_def list_all_iff)

lemma q_ext_queue [simp]: "outgoing p \<Longrightarrow> q_ext c c' \<Longrightarrow> q_ext c (queue_for_write p c')"
  by (auto simp: q_ext_def queue_for_write_def)

lemma q_ext_fields [simp]:
  "q_ext c (c'\<lparr>cl_subs := m\<rparr>) = q_ext c c'" "q_ext c c' \<Longrightarrow> q_ext c (c'\<lparr>cl_st := StateConnected\<rparr>)"
  "q_ext c (c'\<lparr>cl_connect := cp\<rparr>) = q_ext c c'" "q_ext c (c'\<lparr>cl_nats := nc\<rparr>) = q_ext c c'"
  "q_ext c (c'\<lparr>cl_session := a\<rparr>) = q_ext c c'" "q_ext c (c'\<lparr>cl_session_present := pr\<rparr>) = q_ext c c'"
  "q_ext c (c'\<lparr>cl_max_wait := mw\<rparr>) = q_ext c c'"
  by (simp_all add: q_ext_def state_defs)

lemma sv_keeps_refl [simp]: "sv_keeps sv sv"
  by (simp add: sv_keeps_def)

lemma sv_keeps_trans [trans]: "sv_keeps a b \<Longrightarrow> sv_keeps b c \<Longrightarrow> sv_keeps a c"
  by (auto simp: sv_keeps_def)

lemma c_keeps_refl [simp]: "c_keeps c c"
  by (simp add: c_keeps_def)

lemma c_keeps_trans [trans]: "c_keeps a b \<Longrightarrow> c_keeps b c \<Longrightarrow> c_keeps a c"
  by (auto simp: c_keeps_def intro: q_ext_trans)

lemma c_keeps_fields [simp]: "c_keeps c (c'\<lparr>cl_subs := m\<rparr>) = c_keeps c c'"
  by (simp add: c_keeps_def)

lemma c_keeps_queue [simp]: "outgoing p \<Longrightarrow> c_keeps c c' \<Longrightarrow> c_keeps c (queue_for_write p c')"
  by (simp add: c_keeps_def) (simp add: queue_for_write_def)

lemma sv_keeps_world [simp]:
  "sv_keeps sv (sv'\<lparr>sv_world := w\<rparr>) = sv_keeps sv sv'" "sv_keeps sv (sv'\<lparr>sv_ids := ids\<rparr>) = sv_keeps sv sv'"
  "sv_keeps sv (sv'\<lparr>sv_conn := cn\<rparr>) = sv_keeps sv sv'" "sv_keeps sv (sv_release_id j sv') = sv_keeps sv sv'"
  "sv_keeps sv (close_conn env nc sv') = sv_keeps sv sv'" "sv_keeps sv (sv_cancel env nss sv') = sv_keeps sv sv'"
  by (simp_all add: sv_keeps_def close_conn_def sv_cancel_def sv_release_id_def)

lemma sv_ok_sm: "sv_ok sv \<Longrightarrow> sm_ok m \<Longrightarrow> dom (sm_heap (sv_sm sv)) \<subseteq> dom (sm_heap m) \<Longrightarrow> sv_ok (sv\<lparr>sv_sm := m\<rparr>)"
  unfolding sv_ok_def acks_ok_def by (simp del: domIff) blast

lemma sv_ok_sm_ok: "sv_ok sv \<Longrightarrow> sm_ok (sv_sm sv)"
  by (simp add: sv_ok_def)

text \<open>Session updates that keep the identity of the session.\<close>

definition keeps_identity :: "(session \<Rightarrow> session) \<Rightarrow> bool" where
  "keeps_identity f \<longleftrightarrow> (\<forall>s. ses_id (f s) = ses_id s \<and> ses_client_id (f s) = ses_client_id s)"

lemma keeps_identity_ops [simp]:
  "keeps_identity (ack_requested i sb)" "keeps_identity (client_ack_requested pp)"
  "keeps_identity (\<lambda>s. snd (ack_received i s))" "keeps_identity (\<lambda>s. s\<lparr>prel_awaits_ack := m\<rparr>)"
  by (simp_all add: keeps_identity_def)

lemma sv_keeps_update:
  assumes "sv_keeps sv sv'" "keeps_identity f"
  shows "sv_keeps sv (sv_update_session a f sv')"
proof -
  have "sv_ok (sv_update_session a f sv')" if "sv_ok sv'"
    unfolding sv_update_session_def using that assms(2)
    by (intro sv_ok_sm sm_update_ok sv_ok_sm_ok) (auto simp: keeps_identity_def)
  then show ?thesis using assms(1) by (simp add: sv_keeps_def) (simp add: sv_update_session_def)
qed

lemma client_session_iff: "client_session c sv = Inr (a, s) \<longleftrightarrow> cl_session c = Some a \<and> sm_heap (sv_sm sv) a = Some s"
  by (auto simp: client_session_def split: option.splits)

text \<open>The crashes that are left: no free packet identifier, and the regular expression.\<close>

definition known_crash :: "go_error \<Rightarrow> bool" where
  "known_crash e \<longleftrightarrow> e = Diverges \<or> e = Panic ''regexp: Compile: invalid UTF-8''"

definition has_session :: "client \<Rightarrow> 'w server \<Rightarrow> bool" where
  "has_session c sv \<longleftrightarrow> (\<exists>a s. client_session c sv = Inr (a, s))"

lemma has_session_keeps: "has_session c sv \<Longrightarrow> c_keeps c c' \<Longrightarrow> sv_keeps sv sv' \<Longrightarrow> has_session c' sv'"
  by (auto simp: has_session_def client_session_iff c_keeps_def sv_keeps_def)

definition safe :: "client \<Rightarrow> 'w server \<Rightarrow> go_error + client \<times> 'w server \<Rightarrow> bool" where
  "safe c sv res \<longleftrightarrow> (case res of Inl e \<Rightarrow> known_crash e
     | Inr (c', sv') \<Rightarrow> c_keeps c c' \<and> sv_keeps sv sv')"

lemma safe_Inr [simp]: "safe c sv (Inr (c', sv')) \<longleftrightarrow> c_keeps c c' \<and> sv_keeps sv sv'"
  by (simp add: safe_def)

lemma safe_Inl [simp]: "safe c sv (Inl e) \<longleftrightarrow> known_crash e"
  by (simp add: safe_def)

lemma safe_bind:
  assumes "safe c sv res" "\<And>c1 sv1. c_keeps c c1 \<Longrightarrow> sv_keeps sv sv1 \<Longrightarrow> safe c1 sv1 (k c1 sv1)"
  shows "safe c sv (case res of Inl e \<Rightarrow> Inl e | Inr (c1, sv1) \<Rightarrow> k c1 sv1)"
proof (cases res)
  case (Inl e)
  with assms(1) show ?thesis by simp
next
  case (Inr p)
  obtain c1 sv1 where p: "p = (c1, sv1)" by fastforce
  with Inr assms have k: "c_keeps c c1" "sv_keeps sv sv1" "safe c1 sv1 (k c1 sv1)" by simp_all
  then show ?thesis
    using Inr p c_keeps_trans [OF k(1)] sv_keeps_trans [OF k(2)] by (auto simp: safe_def split: sum.splits)
qed

lemma safe_from: "safe c1 sv1 res \<Longrightarrow> c_keeps c c1 \<Longrightarrow> sv_keeps sv sv1 \<Longrightarrow> safe c sv res"
  by (auto simp: safe_def split: sum.splits dest: c_keeps_trans sv_keeps_trans)

lemma publish_response_safe:
  assumes "has_session c sv"
  shows "safe c sv (publish_response q pp c sv)"
  using assms by (auto simp: publish_response_def has_session_def sv_keeps_update)

lemma publish_matches_safe:
  "has_session c sv \<Longrightarrow> \<forall>x \<in> set hits. fst x \<noteq> None \<Longrightarrow> safe c sv (publish_matches hits c sv)"
proof (induction hits arbitrary: c sv)
  case (Cons x hits)
  then obtain pp q where x: "x = (Some pp, q)" by (cases x) auto
  show ?case
    unfolding x publish_matches.simps
  proof (rule safe_bind)
    show "safe c sv (publish_response q pp c sv)" using Cons.prems(1) by (rule publish_response_safe)
    fix c1 sv1 assume "c_keeps c c1" "sv_keeps sv sv1"
    with Cons show "safe c1 sv1 (publish_matches hits c1 sv1)" by (auto intro: has_session_keeps)
  qed
qed simp

lemma publish_matching_safe:
  assumes "has_session c sv" "sv_ok sv"
  shows "safe c sv (publish_matching sp c sv)"
proof (cases "matching_messages (sub_topics sp) (sv_retained sv)")
  case (Inl e)
  then have "known_crash e"
    by (auto simp: matching_messages_def compile_topics_eq known_crash_def split: if_splits)
  with Inl show ?thesis by (simp add: publish_matching_def)
next
  case (Inr m)
  obtain pps qs where m: "m = (pps, qs)" by fastforce
  have "retained_ok (sv_retained sv)" using assms(2) by (simp add: sv_ok_def)
  from matching_messages_stored [OF this Inr [unfolded m]]
  have "\<forall>x \<in> set (zip pps qs). fst x \<noteq> None" by (auto dest!: set_zip_leftD)
  with Inr m assms(1) show ?thesis by (simp add: publish_matching_def publish_matches_safe)
qed

section \<open>Subscriptions and callbacks\<close>

lemma subscribe_all_keeps: "subscribe_all env self nc nqs sv = (nss, qss, sv') \<Longrightarrow> sv_keeps sv sv'"
proof (induction nqs arbitrary: sv nss qss sv')
  case (Cons x nqs)
  obtain nm q where x: "x = (nm, q)" by fastforce
  obtain res w where s: "nats_subscribe (env_nats env) nc nm
      (ResponseHandler self (if q > 1 then 1 else q)) (sv_world sv) = (res, w)" by fastforce
  obtain nss1 qss1 sv1 where r: "subscribe_all env self nc nqs (sv\<lparr>sv_world := w\<rparr>) = (nss1, qss1, sv1)"
    by (metis prod_cases3)
  have "sv' = sv1" using Cons.prems s r by (simp add: x Let_def split: sum.splits)
  moreover have "sv_keeps sv (sv\<lparr>sv_world := w\<rparr>)" by simp
  ultimately show ?case using Cons.IH [OF r] sv_keeps_trans by blast
qed simp

definition live :: "client \<Rightarrow> 'w server \<Rightarrow> bool" where
  "live c sv \<longleftrightarrow> has_session c sv \<and> cl_nats c \<noteq> None \<and> cl_connect c \<noteq> None \<and> sv_ok sv"

lemma live_keeps: "live c sv \<Longrightarrow> c_keeps c c' \<Longrightarrow> sv_keeps sv sv' \<Longrightarrow> live c' sv'"
  unfolding live_def using has_session_keeps by (auto simp: c_keeps_def sv_keeps_def)

lemma client_conn_live: "live c sv \<Longrightarrow> \<exists>nc. client_conn c = Inr nc"
  by (auto simp: live_def client_conn_def)

lemma client_session_live: "live c sv \<Longrightarrow> \<exists>a s. client_session c sv = Inr (a, s)"
  by (auto simp: live_def has_session_def)

lemma client_subscribe_safe:
  assumes "live c sv"
  shows "\<exists>c' sv'. client_subscribe env self sp c sv = Inr (c', sv') \<and> c_keeps c c' \<and> sv_keeps sv sv'"
proof -
  obtain nc where nc: "client_conn c = Inr nc" using client_conn_live [OF assms] by blast
  obtain nqs old subs1 where s: "collect_subs (sub_topics sp) (cl_subs c) = (nqs, old, subs1)"
    by (metis prod_cases3)
  obtain nss qss sv1 where a: "subscribe_all env self nc nqs (sv_cancel env old sv) = (nss, qss, sv1)"
    by (metis prod_cases3)
  have "sv_keeps sv (sv_cancel env old sv)" by simp
  with subscribe_all_keeps [OF a] have "sv_keeps sv sv1" using sv_keeps_trans by blast
  then show ?thesis by (simp add: client_subscribe_def s nc a)
qed

lemma client_unsubscribe_keeps:
  "client_unsubscribe env up c sv = (c', sv') \<Longrightarrow> c_keeps c c' \<and> sv_keeps sv sv'"
  by (auto simp: client_unsubscribe_def split: prod.splits)

lemma handle_retain_keeps: "sv_handle_retain p sv = (p', sv') \<Longrightarrow> sv_keeps sv sv'"
  using handle_retain_sv_ok [of sv p] by (auto simp: sv_keeps_def sv_handle_retain_def split: prod.splits)

lemma nats_subscribe_ack_keeps:
  assumes "live c sv"
  shows "\<exists>res w. nats_subscribe_ack env self subj c sv = Inr (res, sv\<lparr>sv_world := w\<rparr>)"
proof -
  obtain nc where nc: "client_conn c = Inr nc" using client_conn_live [OF assms] by blast
  obtain res w where "nats_subscribe (env_nats env) nc subj (AckHandler self) (sv_world sv) = (res, w)"
    by fastforce
  then have "nats_subscribe_ack env self subj c sv = Inr (res, sv\<lparr>sv_world := w\<rparr>)"
    by (simp add: nats_subscribe_ack_def nc)
  then show ?thesis by blast
qed

lemma nats_publish_packet_safe:
  assumes "live c sv"
  shows "\<exists>err sv'. nats_publish_packet env self p c sv = Inr (err, sv') \<and> sv_keeps sv sv'"
proof -
  obtain nc where nc: "client_conn c = Inr nc" using client_conn_live [OF assms] by blast
  obtain a s where s: "client_session c sv = Inr (a, s)" using client_session_live [OF assms] by blast
  have w: "already_waiting p c sv = Inr (is_dup p \<and> is_awaiting_ack (pub_id p) s)"
    by (simp add: already_waiting_def s)
  obtain res w where q: "nats_subscribe_ack env self (reply_topic_string (new_reply_topic s p)) c sv
      = Inr (res, sv\<lparr>sv_world := w\<rparr>)" using nats_subscribe_ack_keeps [OF assms] by blast
  have "\<exists>err sv'. nats_publish_qos1 env self p c sv = Inr (err, sv') \<and> sv_keeps sv sv'"
    by (cases res) (auto simp: nats_publish_qos1_def s q nc Let_def sv_keeps_update split: prod.split)
  then show ?thesis by (auto simp: nats_publish_packet_def w nc split: bool.split prod.split)
qed

lemma client_ack_received_identity: "keeps_identity (\<lambda>s. fst (snd (client_ack_received api i nc s w)))"
  by (auto simp: keeps_identity_def client_ack_received_def split: option.splits)

lemma sv_update_session_same:
  "client_session c sv = Inr (a, s) \<Longrightarrow> sv_update_session a (\<lambda>_. f s) sv = sv_update_session a f sv"
  by (simp add: client_session_iff sv_update_session_def sm_update_def)

lemma on_pub_ack_safe:
  assumes "live c sv"
  shows "\<exists>sv'. on_pub_ack env i c sv = Inr (None, c, sv') \<and> sv_keeps sv sv'"
proof -
  obtain nc where nc: "client_conn c = Inr nc" using client_conn_live [OF assms] by blast
  obtain a s where s: "client_session c sv = Inr (a, s)" using client_session_live [OF assms] by blast
  let ?f = "\<lambda>s. fst (snd (client_ack_received (env_nats env) i nc s (sv_world sv)))"
  have "sv_keeps sv (sv_update_session a (\<lambda>_. ?f s) sv)"
    unfolding sv_update_session_same [OF s, of ?f]
    by (rule sv_keeps_update [OF sv_keeps_refl client_ack_received_identity])
  then show ?thesis by (auto simp: on_pub_ack_def s nc split: prod.split)
qed

lemma on_ack_keeps: "on_ack env m c sv = (c', sv') \<Longrightarrow> c_keeps c c' \<and> sv_keeps sv sv'"
  by (auto simp: on_ack_def sv_keeps_update split: option.splits if_splits)

lemma sv_next_id_keeps: "sv_next_id sv = Inr (i, sv') \<Longrightarrow> sv_keeps sv sv'"
  by (auto simp: sv_next_id_def split: option.splits)

lemma nats_response_safe:
  assumes "has_session c sv"
  shows "safe c sv (nats_response q m c sv)"
proof -
  have h: "has_session c sv'" if "sv_keeps sv sv'" for sv'
    using assms that has_session_keeps [of c sv c sv'] by simp
  let ?ids = "if q > 0 \<and> msg_reply m \<noteq> [] then
      (case parse_reply_topic (msg_reply m) of
         Some mt \<Rightarrow> Inr (rt_p mt, rt_f mt, sv)
       | None \<Rightarrow> (case sv_next_id sv of Inl e \<Rightarrow> Inl e | Inr (i, sv1) \<Rightarrow> Inr (i, 2, sv1)))
    else Inr (0, 0, sv)"
  show ?thesis
  proof (cases ?ids)
    case (Inl e)
    then have "e = Diverges" by (auto simp: sv_next_id_def split: if_splits option.splits sum.splits)
    with Inl show ?thesis by (simp add: nats_response_def known_crash_def)
  next
    case (Inr x)
    obtain i flags sv1 where x: "x = (i, flags, sv1)" by (metis prod_cases3)
    with Inr have k: "sv_keeps sv sv1"
      by (auto split: if_splits option.splits sum.splits dest: sv_next_id_keeps)
    show ?thesis
      unfolding nats_response_def Inr x sum.case prod.case Let_def
      by (rule safe_from [OF publish_response_safe [OF h [OF k]] c_keeps_refl k])
  qed
qed

section \<open>Connecting\<close>

lemma attach_session_eq:
  "attach_session cid clean sv =
     (case sessions.attach cid clean (sv_sm sv) of (a, present, m) \<Rightarrow> (a, present, sv\<lparr>sv_sm := m\<rparr>))"
  by (auto simp: attach_session_def sessions.attach_def split: option.split prod.split)

lemma attach_session_ok:
  assumes "sv_ok sv" "sm_next (sv_sm sv) < 2 ^ 32 - 1" "attach_session cid clean sv = (a, present, sv')"
  shows "sv_keeps sv sv' \<and> sv_ok sv' \<and> a \<in> dom (sm_heap (sv_sm sv'))"
proof -
  have m: "sm_ok (sv_sm sv)" using assms(1) by (rule sv_ok_sm_ok)
  have k: "sv_keeps sv (sv\<lparr>sv_sm := m\<rparr>) \<and> sv_ok (sv\<lparr>sv_sm := m\<rparr>) \<and> a \<in> dom (sm_heap m)"
    if c: "sm_create cid (sv_sm sv) = (a, m)" for a m
  proof -
    have "sm_ok m" using sm_create_ok [OF m assms(2), of cid] c by simp
    moreover have d: "dom (sm_heap (sv_sm sv)) \<subseteq> dom (sm_heap m)" "a \<in> dom (sm_heap m)"
      using c by (auto simp: sm_create_def Let_def)
    ultimately have "sv_ok (sv\<lparr>sv_sm := m\<rparr>)" using assms(1) by (intro sv_ok_sm)
    with d show ?thesis by (simp add: sv_keeps_def)
  qed
  show ?thesis
  proof (cases "clean \<or> sm_get cid (sv_sm sv) = None")
    case True
    obtain a' m where c: "sm_create cid (sv_sm sv) = (a', m)" by fastforce
    with True assms(3) have "sv' = sv\<lparr>sv_sm := m\<rparr>" "a = a'"
      by (auto simp: attach_session_def split: if_splits)
    with k [OF c] show ?thesis by simp
  next
    case False
    then obtain b where b: "sm_m (sv_sm sv) cid = Some b" by (auto simp: sm_get_def)
    from sm_okD [OF m b] have "b \<in> dom (sm_heap (sv_sm sv))" by blast
    with False b assms(1,3) show ?thesis by (auto simp: attach_session_def sm_get_def)
  qed
qed

lemma restore_acks_keeps:
  "live c sv \<Longrightarrow> \<exists>sv'. restore_acks env self a m ks c sv = Inr sv' \<and> sv_keeps sv sv'"
proof (induction ks arbitrary: sv)
  case (Cons k ks)
  have IH: "\<exists>sv'. restore_acks env self a m ks c sv1 = Inr sv' \<and> sv_keeps sv sv'" if "sv_keeps sv sv1" for sv1
    using Cons.IH [of sv1] live_keeps [OF Cons.prems c_keeps_refl that] sv_keeps_trans [OF that] by blast
  show ?case
  proof (cases "m k")
    case None
    with IH [OF sv_keeps_refl] show ?thesis by simp
  next
    case (Some subj)
    obtain res w where q: "nats_subscribe_ack env self subj c sv = Inr (res, sv\<lparr>sv_world := w\<rparr>)"
      using nats_subscribe_ack_keeps [OF Cons.prems] by blast
    show ?thesis
      using IH [of "sv\<lparr>sv_world := w\<rparr>"] IH [OF sv_keeps_update, of "sv\<lparr>sv_world := w\<rparr>"] Some q
      by (cases res) simp_all
  qed
qed simp

lemma restore_ack_subscriptions_keeps:
  assumes "live c sv"
  shows "\<exists>sv'. restore_ack_subscriptions env self c sv = Inr sv' \<and> sv_keeps sv sv'"
proof -
  obtain a s where s: "client_session c sv = Inr (a, s)" using client_session_live [OF assms] by blast
  show ?thesis
  proof (cases "prel_awaits_ack s")
    case None
    then show ?thesis by (simp add: restore_ack_subscriptions_def s)
  next
    case (Some m)
    obtain sv1 where "restore_acks env self a m (env_enum env (dom m)) c sv = Inr sv1" "sv_keeps sv sv1"
      using restore_acks_keeps [OF assms] by blast
    then show ?thesis by (simp add: restore_ack_subscriptions_def s Some sv_keeps_update)
  qed
qed

lemma publish_responses_safe:
  "has_session c sv \<Longrightarrow>
   \<exists>c' sv'. publish_responses pps c sv = Inr (c', sv') \<and> c_keeps c c' \<and> sv_keeps sv sv'"
proof (induction pps arbitrary: c sv)
  case (Cons pp pps)
  obtain c1 sv1 where r: "publish_response (qos_level pp) pp c sv = Inr (c1, sv1)"
    using Cons.prems by (cases "qos_level pp > 0") (auto simp: publish_response_def has_session_def)
  then have k: "c_keeps c c1" "sv_keeps sv sv1"
    using publish_response_safe [OF Cons.prems, of "qos_level pp" pp] by simp_all
  from Cons.IH [OF has_session_keeps [OF Cons.prems k]] obtain c' sv'
    where "publish_responses pps c1 sv1 = Inr (c', sv')" "c_keeps c1 c'" "sv_keeps sv1 sv'" by blast
  with r k show ?case using c_keeps_trans sv_keeps_trans by auto
qed simp

lemma resend_client_unack_safe:
  assumes "live c sv"
  shows "\<exists>c' sv'. resend_client_unack env c sv = Inr (c', sv') \<and> c_keeps c c' \<and> sv_keeps sv sv'"
proof -
  obtain a s where "client_session c sv = Inr (a, s)" using client_session_live [OF assms] by blast
  then show ?thesis
    using publish_responses_safe [of c sv] assms by (simp add: resend_client_unack_def live_def Let_def)
qed

definition wills_ok :: "client \<Rightarrow> bool" where
  "wills_ok c \<longleftrightarrow> (\<forall>cp. cl_connect c = Some cp \<longrightarrow> has_will cp \<longrightarrow> conn_will cp \<noteq> None)"

lemma wills_ok_keeps: "c_keeps c c' \<Longrightarrow> wills_ok c' = wills_ok c"
  by (simp add: wills_ok_def c_keeps_def)

lemma nats_conn_keeps: "nats_conn env cr sv = (res, sv') \<Longrightarrow> sv_keeps sv sv' \<and> sv_sm sv' = sv_sm sv"
  using nats_conn_same [of env cr sv res sv'] sv_same_ok [of sv sv'] by (simp add: sv_same_def sv_keeps_def)

lemma handle_connect_safe:
  assumes ok: "sv_ok sv" "sm_next (sv_sm sv) < 2 ^ 32 - 1" and cp: "connect_ok cp"
  shows "\<exists>err c' sv'. handle_connect env self cp c sv = Inr (err, c', sv') \<and> sv_keeps sv sv' \<and> wills_ok c' \<and> q_ext c c'
    \<and> (err = None \<and> live c' sv' \<and> cl_st c' = StateConnected
       \<or> err = Some (RetCode RtServerUnavailable) \<and> cl_session c' = cl_session c)"
proof -
  have w: "wills_ok c'" if "cl_connect c' = Some cp" for c'
    using cp that by (auto simp: wills_ok_def connect_ok_def)
  obtain res sv1 where n: "nats_conn env (creds cp) sv = (res, sv1)" by fastforce
  have k1: "sv_keeps sv sv1" "sv_sm sv1 = sv_sm sv" using nats_conn_keeps [OF n] by simp_all
  show ?thesis
  proof (cases res)
    case (Inl e)
    with n k1 w show ?thesis by (simp add: handle_connect_def Let_def)
  next
    case (Inr nc)
    obtain a present sv2 where at: "attach_session (client_id cp) (clean_session cp) sv1 = (a, present, sv2)"
      by (metis prod_cases3)
    have "sv_ok sv1" using k1 ok(1) by (simp add: sv_keeps_def)
    from attach_session_ok [OF this _ at] ok(2) k1(2) have
      k2: "sv_keeps sv1 sv2" "sv_ok sv2" "a \<in> dom (sm_heap (sv_sm sv2))" by auto
    have k: "sv_keeps sv sv2" using k1(1) k2(1) by (rule sv_keeps_trans)
    define c3 where "c3 = queue_for_write (PConnAck (new_conn_ack present 0))
      (c\<lparr>cl_connect := Some cp, cl_nats := Some nc, cl_session := Some a, cl_session_present := present,
         cl_st := StateConnected, cl_max_wait := max_wait_of cp\<rparr>)"
    have c3: "cl_connect c3 = Some cp" "cl_nats c3 = Some nc" "cl_session c3 = Some a" "cl_st c3 = StateConnected"
      by (simp_all add: c3_def queue_for_write_def)
    have q3: "q_ext c c3" unfolding c3_def by simp
    from c3 have l: "live c3 sv2" using k2 by (auto simp: live_def has_session_def client_session_iff)
    show ?thesis
    proof (cases "\<not> clean_session cp \<and> present")
      case False
      then have "handle_connect env self cp c sv = Inr (None, c3, sv2)"
        unfolding handle_connect_def n Inr sum.case prod.case Let_def at c3_def by auto
      with k l c3 w q3 show ?thesis by blast
    next
      case True
      obtain sv3 where r: "restore_ack_subscriptions env self c3 sv2 = Inr sv3" "sv_keeps sv2 sv3"
        using restore_ack_subscriptions_keeps [OF l] by blast
      have l3: "live c3 sv3" using l r(2) live_keeps c_keeps_refl by blast
      obtain c4 sv4 where s: "resend_client_unack env c3 sv3 = Inr (c4, sv4)" "c_keeps c3 c4" "sv_keeps sv3 sv4"
        using resend_client_unack_safe [OF l3] by blast
      have "handle_connect env self cp c sv = Inr (None, c4, sv4)"
        using True r(1) s(1) unfolding handle_connect_def n Inr sum.case prod.case Let_def at c3_def by simp
      moreover have "q_ext c c4" using q3 s(2) q_ext_trans by (auto simp: c_keeps_def)
      moreover have "live c4 sv4" "cl_st c4 = StateConnected" "wills_ok c4"
        using live_keeps [OF l3 s(2,3)] s(2) c3 w wills_ok_keeps by (auto simp: c_keeps_def)
      moreover have "sv_keeps sv sv4" using k r(2) s(3) sv_keeps_trans by blast
      ultimately show ?thesis by blast
    qed
  qed
qed

section \<open>A packet and a turn of the read loop\<close>

text \<open>A session pointer leads to a session, and a will is there if the flags say so.\<close>

definition cl_inv :: "client \<Rightarrow> 'w server \<Rightarrow> bool" where
  "cl_inv c sv \<longleftrightarrow> wills_ok c \<and> (cl_session c \<noteq> None \<longrightarrow> has_session c sv)"

lemma cl_inv_keeps: "cl_inv c sv \<Longrightarrow> c_keeps c c' \<Longrightarrow> sv_keeps sv sv' \<Longrightarrow> cl_inv c' sv'"
  using has_session_keeps [of c sv c' sv'] wills_ok_keeps [of c c']
  by (auto simp: cl_inv_def) (auto simp: c_keeps_def)

lemma cl_inv_live: "live c sv \<Longrightarrow> wills_ok c \<Longrightarrow> cl_inv c sv"
  by (simp add: cl_inv_def live_def)

text \<open>A turn of client \<open>i\<close> may also register the client, once it is connected.\<close>

definition sv_turn :: "nat \<Rightarrow> client \<Rightarrow> client \<Rightarrow> 'w server \<Rightarrow> 'w server \<Rightarrow> bool" where
  "sv_turn i c c' sv sv' \<longleftrightarrow> (sv_ok sv \<longrightarrow> sv_ok sv')
     \<and> dom (sm_heap (sv_sm sv)) \<subseteq> dom (sm_heap (sv_sm sv'))
     \<and> (sv_clients sv' = sv_clients sv \<or>
        sv_clients sv' = sv_clients sv @ [i] \<and> cl_st c = StateInfant \<and> cl_st c' \<noteq> StateInfant)"

lemma sv_turn_keeps [simp]: "sv_keeps sv sv' \<Longrightarrow> sv_turn i c c' sv sv'"
  by (simp add: sv_turn_def sv_keeps_def)

lemma sv_turn_then: "sv_turn i c c1 sv sv1 \<Longrightarrow> sv_keeps sv1 sv2 \<Longrightarrow> cl_st c2 \<noteq> StateInfant \<Longrightarrow> sv_turn i c c2 sv sv2"
  by (auto simp: sv_turn_def sv_keeps_def)

lemma sv_turn_ok: "sv_turn i c c' sv sv' \<Longrightarrow> sv_ok sv \<Longrightarrow> sv_ok sv'"
  by (simp add: sv_turn_def)

lemma sv_turn_heap: "sv_turn i c c' sv sv' \<Longrightarrow> dom (sm_heap (sv_sm sv)) \<subseteq> dom (sm_heap (sv_sm sv'))"
  by (simp add: sv_turn_def)

lemma manage_client_frame [simp]:
  "client_session c (manage_client i sv) = client_session c sv" "sv_ok (manage_client i sv) = sv_ok sv"
  "sv_sm (manage_client i sv) = sv_sm sv" "sv_clients (manage_client i sv) = sv_clients sv @ [i]"
  by (simp_all add: manage_client_def client_session_def cong: option.case_cong)

lemma sv_turn_manage:
  "sv_keeps sv sv' \<Longrightarrow> cl_st c = StateInfant \<Longrightarrow> cl_st c' = StateConnected \<Longrightarrow> sv_turn i c c' sv (manage_client i sv')"
  by (simp add: sv_turn_def sv_keeps_def state_defs)

lemma live_manage [simp]: "live c (manage_client i sv) = live c sv" "cl_inv c (manage_client i sv) = cl_inv c sv"
  by (simp_all add: live_def has_session_def cl_inv_def)

definition good_result :: "nat \<Rightarrow> client \<Rightarrow> 'w server \<Rightarrow> go_error + go_error option \<times> client \<times> 'w server \<Rightarrow> bool" where
  "good_result i c sv res \<longleftrightarrow> (case res of Inl e \<Rightarrow> known_crash e
     | Inr (err, c', sv') \<Rightarrow> sv_turn i c c' sv sv' \<and> cl_inv c' sv' \<and> q_ext c c'
         \<and> (err = None \<longrightarrow> live c' sv' \<and> cl_st c' = StateConnected))"

definition handled_ok :: "nat \<Rightarrow> reader \<Rightarrow> client \<Rightarrow> 'w server \<Rightarrow> 'w handled \<Rightarrow> bool" where
  "handled_ok i r c sv res \<longleftrightarrow> (case res of Inl e \<Rightarrow> known_crash e
     | Inr (err, r', c', sv') \<Rightarrow> shorter r' r \<and> sv_turn i c c' sv sv' \<and> cl_inv c' sv' \<and> q_ext c c'
         \<and> (err = None \<longrightarrow> live c' sv' \<and> cl_st c' = StateConnected))"

lemma good_result_simps [simp]:
  "good_result i c sv (Inl e) = known_crash e"
  "good_result i c sv (Inr (err, c', sv')) \<longleftrightarrow> sv_turn i c c' sv sv' \<and> cl_inv c' sv' \<and> q_ext c c'
     \<and> (err = None \<longrightarrow> live c' sv' \<and> cl_st c' = StateConnected)"
  by (simp_all add: good_result_def)

lemma handled_ok_simps [simp]:
  "handled_ok i r c sv (Inl e) = known_crash e"
  "handled_ok i r c sv (Inr (err, r', c', sv')) \<longleftrightarrow> shorter r' r \<and> sv_turn i c c' sv sv' \<and> cl_inv c' sv' \<and> q_ext c c'
     \<and> (err = None \<longrightarrow> live c' sv' \<and> cl_st c' = StateConnected)"
  by (simp_all add: handled_ok_def)

lemma after_parse_ok:
  assumes rd: "behaves rd" "src_ok r" and c: "cl_inv c sv"
    and k: "\<And>p r1. rd r = Inr (p, r1) \<Longrightarrow> good_result self c sv (k p)"
  shows "handled_ok self r c sv (after_parse (rd r) r c sv k)"
proof (cases "rd r")
  case (Inl e)
  then have "calm e" using behaves_Inl [OF rd] by blast
  with Inl c show ?thesis by (cases e) (simp_all add: after_parse_def)
next
  case (Inr x)
  obtain p r1 where x: "x = (p, r1)" by fastforce
  have "shorter r1 r" using behaves_Inr [OF rd(1)] Inr x by blast
  with k [of p r1] Inr x show ?thesis
    by (auto simp: after_parse_def good_result_def split: sum.splits)
qed

lemma on_connect_ok:
  assumes ok: "sv_ok sv" "sm_next (sv_sm sv) < 2 ^ 32 - 1" "cl_inv c sv" "cl_st c = StateInfant" and rd: "0 \<le> rl" "src_ok r"
  shows "handled_ok self r c sv (on_connect env self b rl r c sv)"
proof -
  let ?k = "\<lambda>cp. case handle_connect env self cp c sv of
                 Inl e \<Rightarrow> Inl e
               | Inr (Some e, c1, sv1) \<Rightarrow> Inr (Some e, c1, sv1)
               | Inr (None, c1, sv1) \<Rightarrow> Inr (None, c1, manage_client self sv1)"
  have "good_result self c sv (?k cp)" if "parse_connect b rl r = Inr (cp, r1)" for cp r1
  proof -
    have "connect_ok cp" using parse_connect_Inr [OF that] by blast
    from handle_connect_safe [OF ok(1,2) this, of env self c] obtain err c' sv'
      where h: "handle_connect env self cp c sv = Inr (err, c', sv')" "sv_keeps sv sv'" "wills_ok c'" "q_ext c c'"
        "err = None \<and> live c' sv' \<and> cl_st c' = StateConnected
           \<or> err = Some (RetCode RtServerUnavailable) \<and> cl_session c' = cl_session c"
      by blast
    from h(5) show ?thesis
    proof
      assume "err = None \<and> live c' sv' \<and> cl_st c' = StateConnected"
      with h ok(4) show ?thesis by (auto simp: cl_inv_live sv_turn_manage)
    next
      assume e: "err = Some (RetCode RtServerUnavailable) \<and> cl_session c' = cl_session c"
      have "cl_inv c' sv'"
        using e ok(3) h(2,3) by (auto simp: cl_inv_def has_session_def client_session_iff sv_keeps_def)
      with e h show ?thesis by simp
    qed
  qed
  from after_parse_ok [OF parse_connect_behaves [OF rd(1)] rd(2) ok(3) this, of b]
  have "handled_ok self r c sv (after_parse (parse_connect b rl r) r c sv ?k)" by simp
  then show ?thesis
    unfolding on_connect_def
    by (auto simp: handled_ok_def cl_inv_def has_session_def client_session_iff wills_ok_def queue_for_write_def
        q_ext_def sv_turn_def state_defs split: sum.splits option.splits go_error.splits)
qed

lemma dispatch_ok:
  assumes ok: "sv_ok sv" "cl_inv c sv" and rd: "0 \<le> rl" "src_ok r"
    and st: "b AND TpMask = TpConnect \<and> cl_st c = StateInfant \<and> sm_next (sv_sm sv) < 2 ^ 32 - 1 \<or>
      b AND TpMask \<noteq> TpConnect \<and> live c sv \<and> cl_st c = StateConnected"
  shows "handled_ok self r c sv (dispatch env self b rl r c sv)"
proof (cases "b AND TpMask = TpConnect")
  case True
  then show ?thesis
    using on_connect_ok [OF ok(1) _ ok(2) _ rd] st by (simp add: dispatch_def Let_def tp_defs)
next
  case False
  with st have l: "live c sv" and s: "cl_st c = StateConnected" by simp_all
  have good: "good_result self c sv (Inr (err, c', sv'))" if "c_keeps c c'" "sv_keeps sv sv'" for err c' sv'
    using that live_keeps [OF l that] cl_inv_keeps [OF ok(2) that] s by (simp add: c_keeps_def)
  note ap = after_parse_ok [OF _ rd(2) ok(2)]
  have pub: "good_result self c sv (case sv_handle_retain p sv of (p1, sv1) \<Rightarrow>
      (case nats_publish_packet env self p1 c sv1 of Inl e \<Rightarrow> Inl e | Inr (err, sv2) \<Rightarrow> Inr (err, c, sv2)))" for p
  proof -
    obtain p1 sv1 where h: "sv_handle_retain p sv = (p1, sv1)" by fastforce
    then have k1: "sv_keeps sv sv1" by (rule handle_retain_keeps)
    from nats_publish_packet_safe [OF live_keeps [OF l c_keeps_refl k1], of env self p1] obtain err sv2
      where n: "nats_publish_packet env self p1 c sv1 = Inr (err, sv2)" "sv_keeps sv1 sv2" by blast
    with good [OF c_keeps_refl sv_keeps_trans [OF k1 n(2)]] h show ?thesis by simp
  qed
  have ack: "good_result self c sv (on_pub_ack env i c sv)" for i
    using on_pub_ack_safe [OF l, of env i] good by auto
  have sub: "good_result self c sv (case client_subscribe env self sp c sv of Inl e \<Rightarrow> Inl e
      | Inr (c1, sv1) \<Rightarrow> (case publish_matching sp c1 sv1 of Inl e \<Rightarrow> Inl e
           | Inr (c2, sv2) \<Rightarrow> Inr (None, c2, sv2)))" for sp
  proof -
    obtain c1 sv1 where cs: "client_subscribe env self sp c sv = Inr (c1, sv1)" "c_keeps c c1" "sv_keeps sv sv1"
      using client_subscribe_safe [OF l] by blast
    then have l1: "has_session c1 sv1" "sv_ok sv1" using live_keeps [OF l cs(2,3)] by (simp_all add: live_def)
    have "safe c sv (publish_matching sp c1 sv1)"
      by (rule safe_from [OF publish_matching_safe [OF l1] cs(2,3)])
    then show ?thesis
      using good by (cases "publish_matching sp c1 sv1") (auto simp: cs(1))
  qed
  have uns: "good_result self c sv (case client_unsubscribe env up c sv of (c1, sv1) \<Rightarrow> Inr (None, c1, sv1))" for up
    using client_unsubscribe_keeps [of env up c sv] good by (cases "client_unsubscribe env up c sv") auto
  have ping: "handled_ok self r c sv (Inr (None, r, queue_for_write PPingResponse c, sv))"
    using good [of "queue_for_write PPingResponse c" sv None] by simp
  show ?thesis
    unfolding dispatch_def Let_def
    using False ping good [OF c_keeps_refl sv_keeps_refl] ok(2)
    by (auto intro!: ap parsers_behave rd(1) pub ack sub uns uns [simplified])
qed

definition client_ok :: "client \<Rightarrow> 'w server \<Rightarrow> bool" where
  "client_ok c sv \<longleftrightarrow> sv_ok sv \<and> cl_inv c sv \<and> (cl_st c = StateConnected \<longrightarrow> live c sv)
     \<and> cl_st c \<in> {StateInfant, StateConnected, StateDisconnected}"

text \<open>What a turn leaves: an advanced reader and a connected client, or the end of the loop.\<close>

definition turn_ok :: "nat \<Rightarrow> reader \<Rightarrow> client \<Rightarrow> 'w server \<Rightarrow> go_error + 'w turn \<Rightarrow> bool" where
  "turn_ok i r c sv res \<longleftrightarrow> (case res of
       Inl e \<Rightarrow> known_crash e
     | Inr (Next r' c' sv') \<Rightarrow> shorter r' r \<and> client_ok c' sv' \<and> cl_st c' = StateConnected
         \<and> q_ext c c' \<and> sv_turn i c c' sv sv'
     | Inr (Leave err c' sv') \<Rightarrow> cl_inv c' sv' \<and> q_ext c c' \<and> sv_turn i c c' sv sv')"

lemma cl_inv_delete: "cl_inv c sv \<Longrightarrow> cl_inv (c\<lparr>cl_connect := Some (delete_will cp)\<rparr>) sv"
  by (auto simp: cl_inv_def has_session_def client_session_iff wills_ok_def delete_will_def has_will_def
      connect_flag_defs byte_bits)

text \<open>A turn whose header is read and whose packet may come.\<close>

lemma read_turn_packet:
  assumes "cl_st c \<noteq> StateDisconnected" "read_byte r = Inr (b, r1)" "read_var_int r1 = Inr (rl, r2)"
    and "\<not> (cl_st c = StateConnected \<and> b AND TpMask = TpConnect \<or> cl_st c = StateInfant \<and> b AND TpMask \<noteq> TpConnect)"
  shows "read_turn env self r c sv =
      (if b AND TpMask = TpDisconnect then
         (case cl_connect c of None \<Rightarrow> Inl (Panic ''nil connect packet'')
          | Some cp \<Rightarrow> Inr (Leave None (c\<lparr>cl_connect := Some (delete_will cp)\<rparr>) sv))
       else (case dispatch env self b rl r2 c sv of Inl e \<Rightarrow> Inl e
          | Inr (None, r3, c1, sv1) \<Rightarrow> Inr (Next r3 c1 sv1)
          | Inr (Some e, r3, c1, sv1) \<Rightarrow> Inr (Leave (Some e) c1 sv1)))"
  using assms by (auto simp: read_turn_def Let_def)

lemma read_turn_ok:
  assumes c: "client_ok c sv" and r: "src_ok r"
    and room: "cl_st c = StateInfant \<longrightarrow> sm_next (sv_sm sv) < 2 ^ 32 - 1"
  shows "turn_ok self r c sv (read_turn env self r c sv)"
proof -
  have w: "cl_inv c sv" "sv_ok sv" using c by (simp_all add: client_ok_def)
  have leave: "turn_ok self r c sv (Inr (Leave err c sv))" for err using w by (simp add: turn_ok_def)
  show ?thesis
  proof (cases "cl_st c = StateDisconnected \<or> (\<exists>e. read_byte r = Inl e)")
    case True
    with leave show ?thesis by (auto simp: read_turn_def)
  next
    case False
    then obtain b r1 where b: "read_byte r = Inr (b, r1)" and st: "cl_st c \<noteq> StateDisconnected"
      by (metis obj_sumE surj_pair)
    let ?tp = "b AND TpMask"
    have s1: "shorter r1 r" "length (rbuf r1) < length (rbuf r)" "src_ok r1"
      using behaves_Inr [OF read_byte_behaves b] read_byte_shrinks [OF b] src_ok_shorter [OF _ r] by auto
    show ?thesis
    proof (cases "cl_st c = StateConnected \<and> ?tp = TpConnect \<or> cl_st c = StateInfant \<and> ?tp \<noteq> TpConnect")
      case True
      with leave st b show ?thesis by (auto simp: read_turn_def Let_def)
    next
      case first: False
      show ?thesis
      proof (cases "read_var_int r1")
        case (Inl e)
        with leave st b first show ?thesis by (auto simp: read_turn_def Let_def)
      next
        case (Inr x)
        obtain rl r2 where x: "x = (rl, r2)" by fastforce
        have s2: "shorter r2 r1" "src_ok r2" "0 \<le> rl"
          using behaves_Inr [OF read_var_int_behaves] Inr x src_ok_shorter s1(3) read_var_int_pos
          by blast+
        have conn: "?tp = TpConnect \<and> cl_st c = StateInfant \<and> sm_next (sv_sm sv) < 2 ^ 32 - 1 \<or>
            ?tp \<noteq> TpConnect \<and> live c sv \<and> cl_st c = StateConnected"
          using first st c room by (auto simp: client_ok_def)
        note dis = dispatch_ok [OF w(2,1) s2(3,2) conn, where self = self and env = env]
        note eq = read_turn_packet [OF st b Inr [unfolded x] first]
        show ?thesis
        proof (cases "?tp = TpDisconnect")
          case True
          then have "live c sv" using conn by (auto simp: tp_defs)
          with True show ?thesis unfolding eq
            by (auto simp: live_def turn_ok_def cl_inv_delete w(1))
        next
          case False
          with dis s1 s2(1) show ?thesis unfolding eq
            by (auto simp: turn_ok_def handled_ok_def client_ok_def live_def shorter_def
                split: sum.splits option.splits)
        qed
      qed
    qed
  qed
qed

section \<open>The write loop\<close>

lemma write_bulk_bytes:
  "list_all packet_ok ps \<Longrightarrow> PDisconnect \<notin> set ps \<Longrightarrow>
   write_bulk (ps @ qs) w = write_bulk qs (w @ concat (map packet_bytes ps))"
  by (induction ps arbitrary: w) (auto simp: write_packet_bytes)

lemma packet_bytes_nonempty [simp]: "packet_bytes p \<noteq> []"
  by (simp add: packet_bytes_def frame_def)

lemma write_batch_success:
  assumes "write_bulk (take 1024 (cl_queue c)) [] = Inr (go_on, bs)"
  shows "write_batch env None c sv = Inr (bs, go_on, c\<lparr>cl_queue := drop 1024 (cl_queue c)\<rparr>, sv)"
  using assms by (simp add: write_batch_def write_queue_size_def Let_def)

lemma write_loop_flushes:
  "cl_queue c = ps @ [PDisconnect] \<Longrightarrow> list_all packet_ok ps \<Longrightarrow> PDisconnect \<notin> set ps \<Longrightarrow> length ps < n \<Longrightarrow>
   write_loop n env c sv = Inr (concat (map packet_bytes ps), False, c\<lparr>cl_queue := []\<rparr>, sv)"
proof (induction n arbitrary: c ps)
  case (Suc n)
  show ?case
  proof (cases "length ps < 1024")
    case True
    then have "write_bulk (take 1024 (cl_queue c)) [] = Inr (False, concat (map packet_bytes ps))"
      using write_bulk_bytes [OF Suc.prems(2,3), of "[PDisconnect]" "[]"] Suc.prems(1) by simp
    from write_batch_success [OF this, of env sv] True Suc.prems(1) show ?thesis by simp
  next
    case False
    define us vs where "us = take 1024 ps" and "vs = drop 1024 ps"
    have ps: "ps = us @ vs" "length us = 1024" using False by (simp_all add: us_def vs_def)
    then have q: "take 1024 (cl_queue c) = us" "drop 1024 (cl_queue c) = vs @ [PDisconnect]"
      using Suc.prems(1) by simp_all
    have "write_bulk us [] = Inr (True, concat (map packet_bytes us))"
      using write_bulk_bytes [of us "[]" "[]"] Suc.prems(2,3) ps(1) by simp
    from write_batch_success [of c True, unfolded q(1), OF this, of env sv]
    have b: "write_batch env None c sv
        = Inr (concat (map packet_bytes us), True, c\<lparr>cl_queue := vs @ [PDisconnect]\<rparr>, sv)" by (simp add: q(2))
    have "write_loop n env (c\<lparr>cl_queue := vs @ [PDisconnect]\<rparr>) sv
        = Inr (concat (map packet_bytes vs), False, c\<lparr>cl_queue := []\<rparr>, sv)"
      using Suc.IH [of "c\<lparr>cl_queue := vs @ [PDisconnect]\<rparr>" vs] Suc.prems ps by simp
    with b Suc.prems(1) ps(1) show ?thesis by simp
  qed
qed simp

section \<open>Disconnecting and the whole loop\<close>

lemma publish_will_no_id:
  "will_qos wl \<noteq> 0 \<Longrightarrow> next_free_packet_id (sv_ids sv) = None \<Longrightarrow> publish_will env wl cr sv = Inl Diverges"
  by (simp add: publish_will_def sv_next_id_def word_gt_0)

lemma publish_will_diverges:
  assumes "sv_ok sv" "publish_will env wl cr sv = Inl e"
  shows "e = Diverges"
proof (cases "will_qos wl = 0 \<or> next_free_packet_id (sv_ids sv) \<noteq> None")
  case True
  from publish_will_ok [OF assms(1) this, of env cr] assms(2) show ?thesis by auto
next
  case False
  with publish_will_no_id [of wl sv env cr] assms(2) show ?thesis by (simp del: not_None_eq)
qed

lemma publish_will_keeps:
  assumes "sv_ok sv" "publish_will env wl cr sv = Inr (err, sv')"
  shows "sv_keeps sv sv' \<and> sv_clients sv' = sv_clients sv"
proof -
  have "will_qos wl = 0 \<or> next_free_packet_id (sv_ids sv) \<noteq> None"
    using publish_will_no_id [of wl sv env cr] assms(2) by (auto simp del: not_None_eq)
  from publish_will_ok [OF assms(1) this, of env cr] assms(2) show ?thesis by (auto simp: sv_keeps_def)
qed

text \<open>The end of a client: disconnected, and its queue closed by the packet that ends the write loop.\<close>

definition ended :: "client \<Rightarrow> bool" where
  "ended c \<longleftrightarrow> cl_st c = StateDisconnected \<and> (\<exists>ps. cl_queue c = ps @ [PDisconnect] \<and> PDisconnect \<notin> set ps)"

lemma set_disconnected_ok:
  assumes "sv_ok sv" "wills_ok c" "cl_st c \<noteq> StateDisconnected"
  shows "case set_disconnected env err c sv of
      Inl e \<Rightarrow> e = Diverges
    | Inr (c', sv') \<Rightarrow> cl_st c' = StateDisconnected \<and> cl_queue c' = cl_queue c @ [PDisconnect]
        \<and> sv_keeps sv sv' \<and> cl_connect c' = cl_connect c \<and> cl_session c' = cl_session c
        \<and> cl_nats c' = cl_nats c"
proof (cases "\<exists>cp wl. cl_connect c = Some cp \<and> has_will cp \<and> conn_will cp = Some wl")
  case True
  then obtain cp wl where w: "cl_connect c = Some cp" "has_will cp" "conn_will cp = Some wl" by blast
  show ?thesis
  proof (cases "publish_will env wl (creds cp) sv")
    case (Inl e)
    with publish_will_diverges [OF assms(1) Inl] w assms(3) show ?thesis
      by (simp add: set_disconnected_def Let_def)
  next
    case (Inr x)
    obtain r sv1 where x: "x = (r, sv1)" by fastforce
    with publish_will_keeps [OF assms(1)] Inr have "sv_keeps sv sv1" by blast
    with w Inr x assms(3) show ?thesis by (simp add: set_disconnected_def Let_def)
  qed
next
  case False
  with assms show ?thesis
    by (auto simp: set_disconnected_def Let_def wills_ok_def split: option.split)
qed

lemma set_disconnected_again: "cl_st c = StateDisconnected \<Longrightarrow> set_disconnected env err c sv = Inr (c, sv)"
  by (simp add: set_disconnected_def)

lemma read_loop_ok:
  assumes "client_ok c sv" "src_ok r" "cl_st c \<noteq> StateDisconnected" "PDisconnect \<notin> set (cl_queue c)"
    and "cl_st c = StateInfant \<longrightarrow> sm_next (sv_sm sv) < 2 ^ 32 - 1"
  shows "case read_loop env self r c sv of
      Inl e \<Rightarrow> known_crash e
    | Inr (c', sv') \<Rightarrow> ended c' \<and> sv_ok sv'"
  using assms
proof (induction env self r c sv rule: read_loop.induct)
  case (1 env self r c sv)
  note t = read_turn_ok [OF "1.prems"(1,2,5), where self = self and env = env]
  note loop = read_loop.simps [of env self r c sv]
  show ?case
  proof (cases "read_turn env self r c sv")
    case (Inl e)
    with t show ?thesis by (simp add: loop turn_ok_def)
  next
    case (Inr tn)
    show ?thesis
    proof (cases tn)
      case (Next r1 c1 sv1)
      with Inr t have k: "shorter r1 r" "client_ok c1 sv1" "cl_st c1 = StateConnected" "q_ext c c1"
        by (simp_all add: turn_ok_def)
      have "PDisconnect \<notin> set (cl_queue c1)" using q_ext_no_end [OF k(4) "1.prems"(4)] .
      with "1.IH" [OF Inr Next] k src_ok_shorter [OF k(1) "1.prems"(2)] show ?thesis
        using Inr Next by (simp add: loop state_defs)
    next
      case (Leave err c1 sv1)
      with Inr t have k: "cl_inv c1 sv1" "q_ext c c1" "sv_turn self c c1 sv sv1" by (simp_all add: turn_ok_def)
      then have "PDisconnect \<notin> set (cl_queue c1)" "cl_st c1 \<noteq> StateDisconnected" "sv_ok sv1" "wills_ok c1"
        using "1.prems"(1,3) q_ext_no_end [OF k(2) "1.prems"(4)] sv_turn_ok [OF k(3)]
        by (auto simp: q_ext_def client_ok_def cl_inv_def)
      with set_disconnected_ok [of sv1 c1 env err] show ?thesis
        using Inr Leave
        by (auto simp: loop known_crash_def sv_keeps_def ended_def split: sum.splits)
    qed
  qed
qed

lemma new_client_ok: "sv_ok sv \<Longrightarrow> client_ok new_client sv"
  by (simp add: client_ok_def new_client_def wills_ok_def cl_inv_def state_defs)

end
