(* ===== verification/Client_Contract.thy ===== *)
theory Client_Contract
  imports Client_Safety
begin

text \<open>
  What the operations of a client do: the protocol of the first packet, when the will is
  published, the codes of a SUBACK and the table of subscriptions, the way of an
  acknowledgement through NATS in both directions, and the bytes that the write loop sends.
\<close>

section \<open>Leaving the read loop\<close>

lemma read_loop_leave:
  "read_turn env self r c sv = Inr (Leave err c1 sv1) \<Longrightarrow>
   read_loop env self r c sv = set_disconnected env err c1 sv1"
  by (simp add: read_loop.simps [of env self r c sv])

text \<open>The client as \<open>SetDisconnected\<close> leaves it.\<close>

definition closed :: "go_error option \<Rightarrow> client \<Rightarrow> client" where
  "closed err c = c\<lparr>cl_st := StateDisconnected, cl_max_wait := 1000000,
     cl_queue := cl_queue c @ [PDisconnect], cl_err := (if err = Some EOF then Some ErrUnexpectedEOF else err)\<rparr>"

lemma set_disconnected_no_will:
  assumes "cl_st c \<noteq> StateDisconnected" "\<forall>cp. cl_connect c = Some cp \<longrightarrow> \<not> has_will cp"
  shows "set_disconnected env err c sv = Inr (closed err c, sv)"
  using assms by (auto simp: set_disconnected_def Let_def closed_def split: option.split)

lemma set_disconnected_will:
  assumes "cl_st c \<noteq> StateDisconnected" "cl_connect c = Some cp" "has_will cp" "conn_will cp = Some wl"
    and "publish_will env wl (creds cp) sv = Inr (e, sv1)"
  shows "set_disconnected env err c sv = Inr (closed err c, sv1)"
  using assms by (simp add: set_disconnected_def Let_def closed_def)

lemma no_will_after_delete: "\<not> has_will (delete_will cp)"
  by (simp add: delete_will_def has_will_def connect_flag_defs byte_bits)

lemma read_turn_disconnect:
  assumes "cl_st c = StateConnected" "read_byte r = Inr (b, r1)" "b AND TpMask = TpDisconnect"
    "read_var_int r1 = Inr (rl, r2)" "cl_connect c = Some cp"
  shows "read_turn env self r c sv = Inr (Leave None (c\<lparr>cl_connect := Some (delete_will cp)\<rparr>) sv)"
  using assms by (simp add: read_turn_def Let_def state_defs tp_defs)

lemma read_turn_eof:
  assumes "cl_st c \<noteq> StateDisconnected" "read_byte r = Inl e"
  shows "read_turn env self r c sv = Inr (Leave (Some e) c sv)"
  using assms by (simp add: read_turn_def)

section \<open>Subscribing\<close>

definition subs_ok :: "(string \<rightharpoonup> nats_sub) \<Rightarrow> bool" where
  "subs_ok m \<longleftrightarrow> (\<forall>k ns. m k = Some ns \<longrightarrow> ns_subject ns = k)"

definition topic_subject :: "topic \<Rightarrow> string" where
  "topic_subject tp = to_nats_subscription (topic_name tp)"

lemma collect_subs_result:
  "collect_subs tps subs = (nqs, old, subs') \<Longrightarrow>
   nqs = map (\<lambda>tp. (topic_subject tp, topic_qos tp)) tps
   \<and> subs' = subs |` (- topic_subject ` set tps)"
proof (induction tps arbitrary: subs nqs old subs')
  case Nil
  then show ?case by (simp add: restrict_map_def)
next
  case (Cons tp tps)
  let ?nm = "topic_subject tp"
  obtain os subs1 where os: "(case subs ?nm of None \<Rightarrow> ([], subs) | Some os \<Rightarrow> ([os], subs(?nm := None))) = (os, subs1)"
    by fastforce
  obtain nqs1 nss1 subs2 where r: "collect_subs tps subs1 = (nqs1, nss1, subs2)" by (metis prod_cases3)
  have s1: "subs1 = subs(?nm := None)" using os by (auto split: option.splits)
  have "nqs = (?nm, topic_qos tp) # nqs1" "subs' = subs2"
    using Cons.prems os [unfolded topic_subject_def] r by (simp_all add: Let_def topic_subject_def)
  then show ?case
    using Cons.IH [OF r] by (simp add: s1) (auto simp: restrict_map_def)
qed

lemma subscribe_all_result:
  assumes "subscription_subjects (env_nats env)"
  shows "subscribe_all env self nc nqs sv = (nss, qss, sv') \<Longrightarrow>
    list_all2 (\<lambda>(nm, q) qs. qs = 0x80 \<or> qs = min q 1) nqs qss
    \<and> map ns_subject nss = [nm. ((nm, q), qs) \<leftarrow> zip nqs qss, qs \<noteq> 0x80]"
proof (induction nqs arbitrary: sv nss qss sv')
  case (Cons x nqs)
  obtain nm q where x: "x = (nm, q)" by fastforce
  let ?q1 = "if q > 1 then 1 else q"
  obtain res w where s: "nats_subscribe (env_nats env) nc nm (ResponseHandler self ?q1) (sv_world sv) = (res, w)"
    by fastforce
  obtain nss1 qss1 sv1 where r: "subscribe_all env self nc nqs (sv\<lparr>sv_world := w\<rparr>) = (nss1, qss1, sv1)"
    by (metis prod_cases3)
  have q1: "?q1 = min q 1" by (auto simp: min_def)
  have ne: "min q 1 \<noteq> (0x80 :: byte)"
  proof -
    have "min q 1 \<le> (1 :: byte)" by simp
    moreover have "\<not> (0x80 :: byte) \<le> 1" by code_simp
    ultimately show ?thesis by metis
  qed
  show ?case
  proof (cases res)
    case (Inl e)
    with Cons.prems Cons.IH [OF r] s r x show ?thesis by (auto simp: Let_def)
  next
    case (Inr ns)
    have "ns_subject ns = nm" using assms s Inr unfolding subscription_subjects_def by blast
    with Cons.prems Cons.IH [OF r] s r x Inr ne show ?thesis by (auto simp: Let_def q1)
  qed
qed simp

lemma add_subs_result:
  "subs_ok m \<Longrightarrow> subs_ok (add_subs nss m) \<and> dom (add_subs nss m) = dom m \<union> ns_subject ` set nss"
proof (induction nss arbitrary: m)
  case (Cons ns nss)
  then have "subs_ok (m(ns_subject ns \<mapsto> ns))"
    unfolding subs_ok_def by (metis fun_upd_apply option.inject)
  from Cons.IH [OF this] show ?case by (simp del: fun_upd_apply)
qed simp

text \<open>The subjects of the topics whose subscription succeeded.\<close>

definition accepted :: "topic list \<Rightarrow> byte list \<Rightarrow> string set" where
  "accepted tps qss = {topic_subject tp | tp qs. (tp, qs) \<in> set (zip tps qss) \<and> qs \<noteq> 0x80}"

section \<open>Acknowledgements\<close>

text \<open>A QoS 1 publish: the pending acknowledgement is registered before the message goes out.\<close>

lemma nats_publish_qos1_result:
  assumes "client_session c sv = Inr (a, s)" "nats_publish_qos1 env self p c sv = Inr (None, sv1)"
  shows "\<exists>sb. sm_heap (sv_sm sv1) a = Some (ack_requested (pub_id p) sb s) \<and> sm_m (sv_sm sv1) = sm_m (sv_sm sv)
    \<and> client_session c sv1 = Inr (a, ack_requested (pub_id p) sb s)"
proof -
  let ?rt = "reply_topic_string (new_reply_topic s p)"
  obtain nc where nc: "client_conn c = Inr nc"
    using assms by (cases "client_conn c") (auto simp: nats_publish_qos1_def nats_subscribe_ack_def Let_def)
  obtain res w where n: "nats_subscribe (env_nats env) nc ?rt (AckHandler self) (sv_world sv) = (res, w)"
    by fastforce
  then obtain sb where "res = Inr sb"
    using assms nc by (cases res) (auto simp: nats_publish_qos1_def nats_subscribe_ack_def Let_def)
  then obtain w' where "sv1 = sv_update_session a (ack_requested (pub_id p) sb) (sv\<lparr>sv_world := w\<rparr>)\<lparr>sv_world := w'\<rparr>"
    using assms nc n by (auto simp: nats_publish_qos1_def nats_subscribe_ack_def Let_def split: prod.splits)
  then show ?thesis
    using assms(1) by (auto simp: client_session_iff sv_update_session_def sm_update_Some)
qed

lemma parse_own_reply:
  assumes "sm_ok (sv_sm sv)" "sm_heap (sv_sm sv) a = Some s" "CHR ''.'' \<notin> set (ses_client_id s)"
  shows "parse_reply_topic (reply_topic_string (new_reply_topic s p)) = Some (new_reply_topic s p)"
proof -
  have "ses_id s = CHR ''s'' # itoa (int (Suc a))" using assms(1,2) by (simp add: sm_ok_def)
  then have "CHR ''.'' \<notin> set (ses_id s)" using session_id_dot_free by metis
  with assms(3) show ?thesis by (intro parse_dot_free) (simp add: dot_free_def new_reply_topic_def)
qed

text \<open>The acknowledgement of a registered session's message is passed on to the client.\<close>

lemma on_ack_result:
  assumes "parse_reply_topic (msg_subject m) = Some mt" "sm_get (rt_c mt) (sv_sm sv) = Some a"
    "sm_heap (sv_sm sv) a = Some s" "ses_id s = rt_s mt"
  shows "on_ack env m c sv = (queue_for_write (PPubAck (rt_p mt)) c,
    sv_cancel env (fst (ack_received (rt_p mt) s))
      (sv_update_session a (\<lambda>s. snd (ack_received (rt_p mt) s)) sv))"
  using assms by (simp add: on_ack_def)

section \<open>Connecting\<close>

lemma publish_responses_queue:
  "publish_responses pps c sv = Inr (c', sv') \<Longrightarrow> cl_st c = StateConnected \<Longrightarrow>
   cl_queue c' = cl_queue c @ map PPublish pps \<and> cl_session c' = cl_session c \<and> sm_m (sv_sm sv') = sm_m (sv_sm sv)"
proof (induction pps arbitrary: c sv)
  case (Cons pp pps)
  obtain c1 sv1 where r: "publish_response (qos_level pp) pp c sv = Inr (c1, sv1)"
    using Cons.prems(1) by (auto split: sum.splits)
  then have "cl_queue c1 = cl_queue c @ [PPublish pp] \<and> cl_session c1 = cl_session c \<and> cl_st c1 = StateConnected
      \<and> sm_m (sv_sm sv1) = sm_m (sv_sm sv)"
    using Cons.prems(2)
    by (auto simp: publish_response_def queue_for_write_def sv_update_session_def split: sum.splits if_splits)
  with Cons.IH [of c1 sv1] Cons.prems(1) r show ?case by simp
qed simp

text \<open>What restoring leaves alone: the registered sessions and the packets the client owes an answer for.\<close>

definition same_owed :: "nat \<Rightarrow> 'w server \<Rightarrow> 'w server \<Rightarrow> bool" where
  "same_owed a sv sv' \<longleftrightarrow> sm_m (sv_sm sv') = sm_m (sv_sm sv)
     \<and> map_option awaits_client_ack (sm_heap (sv_sm sv') a) = map_option awaits_client_ack (sm_heap (sv_sm sv) a)"

lemma same_owed_refl [simp]: "same_owed a sv sv"
  by (simp add: same_owed_def)

lemma same_owed_trans: "same_owed a x y \<Longrightarrow> same_owed a y z \<Longrightarrow> same_owed a x z"
  by (simp add: same_owed_def)

lemma same_owed_world [simp]: "same_owed a sv (sv'\<lparr>sv_world := w\<rparr>) = same_owed a sv sv'"
  by (simp add: same_owed_def)

lemma same_owed_update:
  "(\<And>s. awaits_client_ack (f s) = awaits_client_ack s) \<Longrightarrow> same_owed a sv sv' \<Longrightarrow>
   same_owed a sv (sv_update_session b f sv')"
  by (auto simp: same_owed_def sv_update_session_def sm_update_def option.map_comp comp_def)

lemma restore_acks_owed:
  "restore_acks env self b m ks c sv = Inr sv' \<Longrightarrow> same_owed a sv sv'"
proof (induction ks arbitrary: sv)
  case (Cons k ks)
  show ?case
  proof (cases "m k")
    case None
    with Cons show ?thesis by simp
  next
    case (Some subj)
    obtain nc where nc: "client_conn c = Inr nc"
      using Cons.prems Some by (cases "client_conn c") (simp_all add: nats_subscribe_ack_def)
    obtain res w where n: "nats_subscribe (env_nats env) nc subj (AckHandler self) (sv_world sv) = (res, w)"
      by fastforce
    have "same_owed a sv (sv\<lparr>sv_world := w\<rparr>)" by simp
    moreover have "same_owed a sv (sv_update_session b (ack_requested k sb) (sv\<lparr>sv_world := w\<rparr>))" for sb
      by (rule same_owed_update) (simp_all add: ack_requested_def)
    ultimately show ?thesis
      using Cons.prems Cons.IH Some nc n same_owed_trans
      by (cases res) (fastforce simp: nats_subscribe_ack_def)+
  qed
qed simp

lemma restore_ack_subscriptions_owed:
  assumes "restore_ack_subscriptions env self c sv = Inr sv'"
  shows "same_owed a sv sv'"
proof -
  obtain b s where s: "client_session c sv = Inr (b, s)"
    using assms by (auto simp: restore_ack_subscriptions_def split: sum.splits)
  show ?thesis
  proof (cases "prel_awaits_ack s")
    case None
    with assms s show ?thesis by (simp add: restore_ack_subscriptions_def)
  next
    case (Some m)
    then obtain sv1 where "restore_acks env self b m (env_enum env (dom m)) c sv = Inr sv1"
      "sv' = sv_update_session b (\<lambda>s. s\<lparr>prel_awaits_ack := None\<rparr>) sv1"
      using assms s by (auto simp: restore_ack_subscriptions_def split: sum.splits)
    moreover have "same_owed a sv sv1" using calculation(1) by (rule restore_acks_owed)
    ultimately show ?thesis
      using same_owed_update [of "\<lambda>s. s\<lparr>prel_awaits_ack := None\<rparr>" a sv sv1 b] by simp
  qed
qed

text \<open>The packets that a session still expects a PUBACK for, in the order of the iteration.\<close>

definition owed_packets :: "'w env \<Rightarrow> 'w server \<Rightarrow> nat \<Rightarrow> publish list" where
  "owed_packets env sv a = (case sm_heap (sv_sm sv) a of None \<Rightarrow> []
     | Some s \<Rightarrow> (let m = made_map (awaits_client_ack s) in map (\<lambda>k. the (m k)) (env_enum env (dom m))))"

lemma owed_packets_same: "same_owed a sv sv' \<Longrightarrow> owed_packets env sv' a = owed_packets env sv a"
  by (auto simp: same_owed_def owed_packets_def split: option.splits)

lemma resend_client_unack_queue:
  assumes "resend_client_unack env c sv = Inr (c', sv')" "cl_st c = StateConnected" "cl_session c = Some a"
  shows "cl_queue c' = cl_queue c @ map PPublish (owed_packets env sv a) \<and> cl_session c' = Some a
    \<and> sm_m (sv_sm sv') = sm_m (sv_sm sv)"
proof -
  obtain s where "client_session c sv = Inr (a, s)"
    using assms by (auto simp: resend_client_unack_def client_session_def split: sum.splits option.splits)
  moreover from this have "sm_heap (sv_sm sv) a = Some s" by (simp add: client_session_iff)
  ultimately show ?thesis
    using publish_responses_queue [of _ c sv c' sv'] assms
    by (simp add: resend_client_unack_def owed_packets_def Let_def)
qed

section \<open>An instance for evaluation\<close>

definition demo_connect :: connect where
  "demo_connect = \<lparr>client_id = ''c'', creds = None,
     conn_will = Some \<lparr>will_topic = ''gone'', will_message = [1], will_qos = 0, will_retain = False\<rparr>,
     conn_keep_alive = 0, client_level = 4, conn_flags = 0x06\<rparr>"

definition demo_server :: "nats_call list server" where
  "demo_server = (let sv = new_server ''u'' [] in sv\<lparr>sv_sm := snd (sm_create ''c'' (sv_sm sv))\<rparr>)"

definition demo_client :: client where
  "demo_client = new_client\<lparr>cl_nats := Some 0, cl_session := Some 1, cl_connect := Some demo_connect,
     cl_st := StateConnected\<rparr>"

lemma new_server_sm: "sv_sm (new_server uid w) = snd (sm_create (''mqtt-nats-'' @ uid) new_sm)"
  by (simp add: new_server_def split: prod.split)

lemma demo_sessions:
  "sm_heap (sv_sm demo_server) 1 = Some (new_session ''s2'' ''c'')" "sm_get ''c'' (sv_sm demo_server) = Some 1"
  "sm_next (sv_sm demo_server) = 2" "sv_world demo_server = []"
  by (simp_all add: demo_server_def Let_def new_server_sm sm_create_def new_sm_def sm_get_def)
    (simp_all add: new_server_def sm_create_def Let_def new_sm_def itoa_def itoa_nat.simps digit_char_def char_of_def bit_0)

lemma demo_session: "client_session demo_client demo_server = Inr (1, new_session ''s2'' ''c'')"
  using demo_sessions(1) by (simp add: client_session_def demo_client_def)

lemma demo_server_ok: "sv_ok demo_server"
proof -
  let ?sv = "new_server ''u'' ([] :: nats_call list)"
  have "sm_next (sv_sm ?sv) < 2 ^ 32 - 1"
    by (simp add: new_server_sm sm_create_def new_sm_def Let_def)
  with sm_create_ok [OF sv_ok_sm_ok [OF new_server_ok], of "''u''" "[] :: nats_call list" "''c''"]
  have "sm_ok (snd (sm_create ''c'' (sv_sm ?sv)))" by simp
  moreover have "dom (sm_heap (sv_sm ?sv)) \<subseteq> dom (sm_heap (snd (sm_create ''c'' (sv_sm ?sv))))"
    by (auto simp: sm_create_def Let_def)
  ultimately show ?thesis
    unfolding demo_server_def Let_def by (intro sv_ok_sm new_server_ok)
qed

lemma demo_live: "live demo_client demo_server"
  by (simp add: live_def has_session_def demo_session demo_server_ok) (simp add: demo_client_def)

lemma demo_conn [simp]: "client_conn demo_client = Inr 0" "env_nats log_env = log_nats" "cl_st demo_client = StateConnected"
  by (simp_all add: client_conn_def demo_client_def log_env_def)

lemma demo_will: "has_will demo_connect"
  by (simp add: demo_connect_def has_will_def connect_flag_defs)

section \<open>Properties\<close>

text \<open>C29: Until a CONNECT packet arrives a client has no effect: any other first packet closes the
  connection without an answer and without a change of the server; and a second CONNECT of a
  connected client is never handled, it disconnects the client.\<close>

theorem connect_first:
  assumes "read_byte r = Inr (b, r1)"
  shows "(b AND TpMask \<noteq> TpConnect \<longrightarrow> read_loop env self r new_client sv =
      Inr (closed (Some (ErrorString ''not connected'')) new_client, sv))
    \<and> (b AND TpMask = TpConnect \<and> cl_st c = StateConnected \<longrightarrow> read_loop env self r c sv =
      set_disconnected env (Some (ErrorString ''second connect packet'')) c sv)"
proof (intro conjI impI)
  assume "b AND TpMask \<noteq> TpConnect"
  then have "read_turn env self r new_client sv = Inr (Leave (Some (ErrorString ''not connected'')) new_client sv)"
    using assms by (simp add: read_turn_def Let_def new_client_def state_defs)
  moreover have "cl_st new_client \<noteq> StateDisconnected" "cl_connect new_client = None"
    by (simp_all add: new_client_def state_defs)
  ultimately show "read_loop env self r new_client sv =
      Inr (closed (Some (ErrorString ''not connected'')) new_client, sv)"
    by (simp add: read_loop_leave set_disconnected_no_will)
next
  assume "b AND TpMask = TpConnect \<and> cl_st c = StateConnected"
  then have "read_turn env self r c sv = Inr (Leave (Some (ErrorString ''second connect packet'')) c sv)"
    using assms by (simp add: read_turn_def Let_def state_defs)
  then show "read_loop env self r c sv =
      set_disconnected env (Some (ErrorString ''second connect packet'')) c sv"
    by (rule read_loop_leave)
qed

theorem connect_first_witness:
  "read_loop log_env 0 (slice_reader [0xc0, 0]) new_client demo_server =
     Inr (closed (Some (ErrorString ''not connected'')) new_client, demo_server)"
proof -
  have "read_byte (slice_reader [0xc0, 0]) = Inr (0xc0, slice_reader [0])"
    by (simp add: read_byte_def)
  from connect_first [OF this, of log_env 0 demo_server demo_client] show ?thesis by (simp add: tp_defs)
qed

text \<open>C27: The will of a client is published when the connection breaks, once, before the write loop is
  told to end, and it is not published after a DISCONNECT packet.\<close>

theorem will_only_when_abrupt:
  assumes "cl_st c = StateConnected" "cl_connect c = Some cp" "has_will cp" "conn_will cp = Some wl"
    and "publish_will env wl (creds cp) sv = Inr (e, sv1)"
  shows "(read_byte r = Inl err \<longrightarrow> read_loop env self r c sv = Inr (closed (Some err) c, sv1)
        \<and> set_disconnected env err2 (closed (Some err) c) sv1 = Inr (closed (Some err) c, sv1))
    \<and> (read_byte r = Inr (b, r1) \<and> b AND TpMask = TpDisconnect \<and> read_var_int r1 = Inr (rl, r2) \<longrightarrow>
        read_loop env self r c sv = Inr (closed None (c\<lparr>cl_connect := Some (delete_will cp)\<rparr>), sv))"
proof (intro conjI impI)
  assume "read_byte r = Inl err"
  with assms(1) have "read_turn env self r c sv = Inr (Leave (Some err) c sv)"
    by (intro read_turn_eof) (simp_all add: state_defs)
  with set_disconnected_will [OF _ assms(2-5)] assms(1)
  show "read_loop env self r c sv = Inr (closed (Some err) c, sv1)"
    by (simp add: read_loop_leave state_defs)
  show "set_disconnected env err2 (closed (Some err) c) sv1 = Inr (closed (Some err) c, sv1)"
    by (rule set_disconnected_again) (simp add: closed_def)
next
  assume "read_byte r = Inr (b, r1) \<and> b AND TpMask = TpDisconnect \<and> read_var_int r1 = Inr (rl, r2)"
  then have "read_turn env self r c sv = Inr (Leave None (c\<lparr>cl_connect := Some (delete_will cp)\<rparr>) sv)"
    using read_turn_disconnect [OF assms(1)] assms(2) by blast
  moreover have "cl_st c \<noteq> StateDisconnected" using assms(1) by (simp add: state_defs)
  ultimately show "read_loop env self r c sv = Inr (closed None (c\<lparr>cl_connect := Some (delete_will cp)\<rparr>), sv)"
    by (simp add: read_loop_leave set_disconnected_no_will no_will_after_delete)
qed

theorem will_only_when_abrupt_witness:
  "\<exists>e sv1. publish_will log_env \<lparr>will_topic = ''gone'', will_message = [1], will_qos = 0, will_retain = False\<rparr>
       None demo_server = Inr (e, sv1)
    \<and> read_loop log_env 0 (slice_reader []) demo_client demo_server = Inr (closed (Some EOF) demo_client, sv1)"
proof -
  let ?wl = "\<lparr>will_topic = ''gone'', will_message = [1], will_qos = 0, will_retain = False\<rparr>"
  obtain e sv1 where w: "publish_will log_env ?wl (creds demo_connect) demo_server = Inr (e, sv1)"
    using publish_will_ok [OF demo_server_ok, of ?wl log_env "creds demo_connect"] by auto
  have "cl_st demo_client = StateConnected" "cl_connect demo_client = Some demo_connect"
    "conn_will demo_connect = Some ?wl"
    by (simp_all add: demo_client_def demo_connect_def)
  moreover have "read_byte (slice_reader []) = Inl EOF" by (simp add: read_byte_def src_err_def)
  ultimately show ?thesis
    using will_only_when_abrupt [OF _ _ demo_will _ w, of demo_client "slice_reader []" EOF] w
    by (simp add: demo_connect_def)
qed



text \<open>C3: A QoS 1 message of a client whose identifier has no dot is acknowledged: when its reply arrives
  under the subject it was published with, the pending entry is taken out and exactly one
  PUBACK with the identifier of the packet is queued for the client.\<close>

theorem publish_acknowledged:
  assumes "sv_ok sv" "client_session c sv = Inr (a, s)" "sm_get (ses_client_id s) (sv_sm sv) = Some a"
    and "CHR ''.'' \<notin> set (ses_client_id s)" "cl_st c = StateConnected"
    and "nats_publish_qos1 env self p c sv = Inr (None, sv1)"
    and "msg_subject m = reply_topic_string (new_reply_topic s p)"
  shows "\<exists>s1 s2 sv2. client_session c sv1 = Inr (a, s1) \<and> is_awaiting_ack (pub_id p) s1
    \<and> on_ack env m c sv1 = (c\<lparr>cl_queue := cl_queue c @ [PPubAck (pub_id p)]\<rparr>, sv2)
    \<and> client_session c sv2 = Inr (a, s2) \<and> \<not> is_awaiting_ack (pub_id p) s2"
proof -
  obtain sb where r: "sm_heap (sv_sm sv1) a = Some (ack_requested (pub_id p) sb s)"
    "sm_m (sv_sm sv1) = sm_m (sv_sm sv)" "client_session c sv1 = Inr (a, ack_requested (pub_id p) sb s)"
    using nats_publish_qos1_result [OF assms(2,6)] by blast
  let ?s1 = "ack_requested (pub_id p) sb s"
  let ?mt = "new_reply_topic s p"
  have "sm_heap (sv_sm sv) a = Some s" using assms(2) by (simp add: client_session_iff)
  then have pt: "parse_reply_topic (msg_subject m) = Some ?mt"
    unfolding assms(7) by (intro parse_own_reply [OF sv_ok_sm_ok [OF assms(1)]] assms(4))
  have mt: "rt_c ?mt = ses_client_id s" "rt_s ?mt = ses_id s" "rt_p ?mt = pub_id p"
    by (simp_all add: new_reply_topic_def)
  define sv2 where "sv2 = sv_cancel env (fst (ack_received (pub_id p) ?s1))
      (sv_update_session a (\<lambda>s. snd (ack_received (pub_id p) s)) sv1)"
  have "on_ack env m c sv1 = (queue_for_write (PPubAck (pub_id p)) c, sv2)"
    using on_ack_result [OF pt, of sv1 a ?s1 env c] r assms(3)
    by (simp add: mt sm_get_def sv2_def ack_requested_def)
  moreover have "client_session c sv2 = Inr (a, snd (ack_received (pub_id p) ?s1))"
    using r(3) by (auto simp: client_session_iff sv2_def sv_cancel_def sv_update_session_def sm_update_Some)
  moreover have "is_awaiting_ack (pub_id p) ?s1" "\<not> is_awaiting_ack (pub_id p) (snd (ack_received (pub_id p) ?s1))"
    using nats_acks.pending_request [of "pub_id p" sb s] nats_acks.pending_receive [of "pub_id p" ?s1]
    by (auto simp: is_awaiting_ack_def split: prod.splits)
  ultimately show ?thesis using r(3) assms(5) by (simp add: queue_for_write_def)
qed

theorem publish_acknowledged_witness:
  "\<exists>sv1 sv2. nats_publish_qos1 log_env 0 (new_publish 5 ''t'' 2 [9] False []) demo_client demo_server = Inr (None, sv1)
    \<and> on_ack log_env \<lparr>msg_subject = reply_topic_string (new_reply_topic (new_session ''s2'' ''c'')
          (new_publish 5 ''t'' 2 [9] False [])), msg_reply = [], msg_data = []\<rparr> demo_client sv1
      = (demo_client\<lparr>cl_queue := cl_queue demo_client @ [PPubAck 5]\<rparr>, sv2)"
proof -
  let ?p = "new_publish 5 ''t'' 2 [9] False []"
  let ?m = "\<lparr>msg_subject = reply_topic_string (new_reply_topic (new_session ''s2'' ''c'') ?p), msg_reply = [], msg_data = []\<rparr>"
  obtain sv1 where p: "nats_publish_qos1 log_env 0 ?p demo_client demo_server = Inr (None, sv1)"
    by (simp add: nats_publish_qos1_def demo_session nats_subscribe_ack_def demo_conn Let_def)
  have "sm_get (ses_client_id (new_session ''s2'' ''c'')) (sv_sm demo_server) = Some 1"
    "CHR ''.'' \<notin> set (ses_client_id (new_session ''s2'' ''c''))" "cl_st demo_client = StateConnected"
    "pub_id ?p = 5"
    using demo_sessions(2) by (simp_all add: new_session_def demo_client_def new_publish_def)
  with publish_acknowledged [OF demo_server_ok demo_session _ _ _ p, of ?m] p show ?thesis by auto
qed

text \<open>C4: A message that is delivered to a client with a quality of service above zero is acknowledged
  to its sender: the PUBACK of the client publishes one acknowledgement to the reply subject of
  the message, and a second PUBACK publishes nothing.\<close>

theorem response_acknowledged:
  assumes "live c sv" "cl_st c = StateConnected" "nats_response q m c sv = Inr (c1, sv1)"
    and "cl_queue c1 = cl_queue c @ [PPublish pp]" "q > 0" "qos_level pp > 0" "client_conn c = Inr nc"
  shows "\<exists>sv2 sv3. on_pub_ack env (pub_id pp) c1 sv1 = Inr (None, c1, sv2)
    \<and> sv_world sv2 = snd (nats_publish (env_nats env) nc (msg_reply m) [0] (sv_world sv1))
    \<and> on_pub_ack env (pub_id pp) c1 sv2 = Inr (None, c1, sv3) \<and> sv_world sv3 = sv_world sv2"
proof -
  obtain i flags sv0 where n: "publish_response
      (if qos_level (new_publish i (from_nats (msg_subject m)) flags (msg_data m) False (msg_reply m)) < q
       then qos_level (new_publish i (from_nats (msg_subject m)) flags (msg_data m) False (msg_reply m)) else q)
      (new_publish i (from_nats (msg_subject m)) flags (msg_data m) False (msg_reply m)) c sv0 = Inr (c1, sv1)"
    using assms(3) by (auto simp: nats_response_def Let_def split: sum.splits)
  define p where "p = new_publish i (from_nats (msg_subject m)) flags (msg_data m) False (msg_reply m)"
  have "pp = p" using n assms(2,4)
    by (auto simp: p_def publish_response_def queue_for_write_def split: sum.splits if_splits)
  then have reply: "pub_reply_to pp = msg_reply m" by (simp add: p_def new_publish_def)
  have "(if qos_level pp < q then qos_level pp else q) > 0" using assms(5,6) by simp
  with n obtain a s where s: "client_session c sv0 = Inr (a, s)"
    "c1 = queue_for_write (PPublish pp) c" "sv1 = sv_update_session a (client_ack_requested pp) sv0"
    unfolding p_def [symmetric] \<open>pp = p\<close> [symmetric]
    by (auto simp: publish_response_def split: sum.splits)
  have c1: "client_conn c1 = Inr nc" "cl_session c1 = Some a"
    using s assms(7) by (auto simp: queue_for_write_def client_conn_def client_session_iff)
  then have cs: "client_session c1 sv1 = Inr (a, client_ack_requested pp s)"
    using s by (auto simp: client_session_iff sv_update_session_def sm_update_Some)
  obtain f s1 w1 where r: "client_ack_received (env_nats env) (pub_id pp) nc (client_ack_requested pp s) (sv_world sv1) = (f, s1, w1)"
    by (metis prod_cases3)
  have "read_map (awaits_client_ack (client_ack_requested pp s)) (pub_id pp) = Some pp"
    using client_acks.pending_request [of pp "pub_id pp"] by simp
  then have w1: "w1 = snd (nats_publish (env_nats env) nc (msg_reply m) [0] (sv_world sv1))"
    using client_ack_received_found [OF r] reply by simp
  define sv2 where "sv2 = sv_release_id (pub_id pp) (sv_update_session a (\<lambda>_. s1) sv1\<lparr>sv_world := w1\<rparr>)"
  have first: "on_pub_ack env (pub_id pp) c1 sv1 = Inr (None, c1, sv2)"
    by (simp add: on_pub_ack_def cs c1 r sv2_def)
  have cs2: "client_session c1 sv2 = Inr (a, s1)"
    using cs by (auto simp: client_session_iff sv2_def sv_release_id_def sv_update_session_def sm_update_Some)
  have "read_map (awaits_client_ack s1) (pub_id pp) = None" using client_ack_taken [OF r] by simp
  then have "client_ack_received (env_nats env) (pub_id pp) nc s1 (sv_world sv2) = (False, s1, sv_world sv2)"
    by (auto simp: client_ack_received_def read_map_def split: option.splits)
  then have "on_pub_ack env (pub_id pp) c1 sv2 =
      Inr (None, c1, sv_release_id (pub_id pp) (sv_update_session a (\<lambda>_. s1) sv2\<lparr>sv_world := sv_world sv2\<rparr>))"
    by (simp add: on_pub_ack_def cs2 c1)
  with first w1 show ?thesis by (simp add: sv2_def sv_release_id_def)
qed

theorem response_acknowledged_witness:
  "\<exists>c1 sv1 (pp :: publish) sv2. nats_response 1 \<lparr>msg_subject = ''t'', msg_reply = ''_INBOX.a.s1.7.2'', msg_data = [9]\<rparr>
       demo_client demo_server = Inr (c1, sv1)
    \<and> on_pub_ack log_env (pub_id pp) c1 sv1 = Inr (None, c1, sv2)
    \<and> sv_world sv2 = sv_world sv1 @ [CallPublish 0 ''_INBOX.a.s1.7.2'' [0]]"
proof -
  let ?m = "\<lparr>msg_subject = ''t'', msg_reply = ''_INBOX.a.s1.7.2'', msg_data = [9]\<rparr>"
  let ?rt = "\<lparr>rt_s = ''s1'', rt_c = ''a'', rt_p = 7, rt_f = 2\<rparr>"
  let ?pp = "new_publish 7 (from_nats ''t'') 2 [9] False ''_INBOX.a.s1.7.2''"
  have str: "reply_topic_string ?rt = ''_INBOX.a.s1.7.2''"
    by (simp add: reply_topic_string_def itoa_def itoa_nat.simps digit_char_def char_of_def bit_0)
  have "dot_free ?rt" by (simp add: dot_free_def)
  from parse_dot_free [OF this] have rt: "parse_reply_topic ''_INBOX.a.s1.7.2'' = Some ?rt" by (simp only: str)
  have q: "qos_level ?pp = 1" by (simp add: qos_level_def new_publish_def publish_flag_defs)
  obtain c1 sv1 where r: "nats_response 1 ?m demo_client demo_server = Inr (c1, sv1)"
    "cl_queue c1 = cl_queue demo_client @ [PPublish ?pp]"
    using q by (simp add: nats_response_def rt Let_def publish_response_def demo_session queue_for_write_def)
  with response_acknowledged [OF demo_live _ r, of 0 log_env] q obtain sv2 where
    "on_pub_ack log_env (pub_id ?pp) c1 sv1 = Inr (None, c1, sv2)"
    "sv_world sv2 = sv_world sv1 @ [CallPublish 0 ''_INBOX.a.s1.7.2'' [0]]" by auto
  with r(1) show ?thesis by blast
qed

text \<open>C39: A client that ends removes the session of its client identifier even if a newer connection
  has replaced it: from then on no acknowledgement from NATS reaches the newer client.\<close>

theorem takeover_loses_acks:
  assumes "cl_connect old = Some cp" "clean_session cp"
    and "parse_reply_topic (msg_subject m) = Some mt" "rt_c mt = client_id cp"
  shows "on_ack env m new (serve_end env old sv) = (new, serve_end env old sv)"
proof -
  obtain sm w where r: "sm_remove (env_nats env) (env_enum env) (client_id cp) (sv_sm sv) (sv_world sv) = (sm, w)"
    by fastforce
  have "sm_get (client_id cp) sm = None"
    using sessions.get_remove [of "client_id cp" "env_nats env" "env_enum env" "client_id cp" "sv_sm sv" "sv_world sv"] r
    by simp
  moreover have "sv_sm (serve_end env old sv) = sm"
    using assms(1,2) r by (simp add: serve_end_def Let_def close_conn_def split: option.split)
  ultimately show ?thesis using assms(3,4) by (simp add: on_ack_def)
qed

theorem takeover_loses_acks_witness:
  "on_ack log_env \<lparr>msg_subject = ''_INBOX.c.s2.5.2'', msg_reply = [], msg_data = []\<rparr> demo_client
     (serve_end log_env demo_client demo_server) = (demo_client, serve_end log_env demo_client demo_server)"
proof -
  let ?rt = "\<lparr>rt_s = ''s2'', rt_c = ''c'', rt_p = 5, rt_f = 2\<rparr>"
  have str: "reply_topic_string ?rt = ''_INBOX.c.s2.5.2''"
    by (simp add: reply_topic_string_def itoa_def itoa_nat.simps digit_char_def char_of_def bit_0)
  have "dot_free ?rt" by (simp add: dot_free_def)
  from parse_dot_free [OF this] have rt: "parse_reply_topic ''_INBOX.c.s2.5.2'' = Some ?rt" by (simp only: str)
  have "cl_connect demo_client = Some demo_connect" "clean_session demo_connect" "client_id demo_connect = ''c''"
    by (simp_all add: demo_client_def demo_connect_def clean_session_def connect_flag_defs)
  then show ?thesis
    using takeover_loses_acks [of demo_client demo_connect _ ?rt log_env demo_client demo_server] rt by simp
qed

text \<open>C30: The write loop sends the queued packets in order, up to the packet that ends it and nothing
  after it, and the receiver reads back each packet from what follows the ones before it.\<close>

theorem written_in_order:
  assumes "list_all packet_ok ps" "PDisconnect \<notin> set ps"
  shows "write_bulk (ps @ PDisconnect # qs) [] = Inr (False, concat (map packet_bytes ps))
    \<and> write_bulk ps [] = Inr (True, concat (map packet_bytes ps))
    \<and> (ps = us @ p # vs \<longrightarrow> parse_packet (slice_reader (concat (map packet_bytes (p # vs))))
        = Inr (p, slice_reader (concat (map packet_bytes vs))))"
proof -
  have "write_bulk (ps @ []) [] = Inr (True, concat (map packet_bytes ps))"
    using write_bulk_bytes [OF assms, of "[]" "[]"] by simp
  moreover have "parse_packet (slice_reader (concat (map packet_bytes (p # vs))))
      = Inr (p, slice_reader (concat (map packet_bytes vs)))" if "ps = us @ p # vs"
    using assms(1) that packet.slice_enc(1) [of p "concat (map packet_bytes vs)"] by simp
  ultimately show ?thesis using write_bulk_bytes [OF assms, of "PDisconnect # qs" "[]"] by simp
qed

theorem written_in_order_witness:
  "write_bulk [PPingResponse, PPubAck 3, PDisconnect, PPubAck 4] []
     = Inr (False, packet_bytes PPingResponse @ packet_bytes (PPubAck 3))"
  using written_in_order [of "[PPingResponse, PPubAck 3]" "[PPubAck 4]" "[]" PPingResponse "[]"] by simp

text \<open>C31: When a write fails, the write loop disconnects the client itself: that returns unless the
  queue has been refilled to its capacity of 1024 packets meanwhile, in which case the loop
  waits for itself and never ends.\<close>

theorem failed_write_blocks:
  assumes "list_all packet_ok (take 1024 (cl_queue c))" "PDisconnect \<notin> set (take 1024 (cl_queue c))"
    and "cl_queue c \<noteq> []" "cl_st c = StateConnected" "\<forall>cp. cl_connect c = Some cp \<longrightarrow> \<not> has_will cp"
  shows "write_batch env (Some e) c sv =
    (if length (cl_queue c) \<ge> 2048 then Inl Diverges
     else Inr (concat (map packet_bytes (take 1024 (cl_queue c))), False,
               closed (Some e) (c\<lparr>cl_queue := drop 1024 (cl_queue c)\<rparr>), sv))"
proof -
  let ?ps = "take 1024 (cl_queue c)"
  have "write_bulk (?ps @ []) [] = Inr (True, concat (map packet_bytes ?ps))"
    using write_bulk_bytes [OF assms(1,2), of "[]" "[]"] by simp
  then have w: "write_bulk ?ps [] = Inr (True, concat (map packet_bytes ?ps))" by simp
  obtain p ps where "?ps = p # ps" using assms(3) by (cases "cl_queue c") auto
  then have ne: "concat (map packet_bytes ?ps) \<noteq> []" by simp
  have st: "cl_st c \<noteq> StateDisconnected" using assms(4) by (simp add: state_defs)
  have "set_disconnected env (Some e) (c\<lparr>cl_queue := drop 1024 (cl_queue c)\<rparr>) sv =
      Inr (closed (Some e) (c\<lparr>cl_queue := drop 1024 (cl_queue c)\<rparr>), sv)"
    using st assms(5) by (intro set_disconnected_no_will) simp_all
  moreover have "1024 \<le> length (cl_queue c) - 1024 \<longleftrightarrow> 2048 \<le> length (cl_queue c)" by arith
  ultimately show ?thesis
    using w ne st by (simp add: write_batch_def write_queue_size_def Let_def)
qed

theorem failed_write_blocks_witness:
  "write_batch log_env (Some EOF) (demo_client\<lparr>cl_connect := None, cl_queue := [PPingResponse]\<rparr>) demo_server =
     Inr (packet_bytes PPingResponse, False, closed (Some EOF) (demo_client\<lparr>cl_connect := None, cl_queue := []\<rparr>), demo_server)"
  using failed_write_blocks [of "demo_client\<lparr>cl_connect := None, cl_queue := [PPingResponse]\<rparr>" log_env EOF demo_server]
  by simp

text \<open>C2: Whatever bytes a client sends, the read loop ends: either in a panic of the regular expression
  library or for want of a packet identifier, or with the client disconnected, its queue closed
  by the packet that ends the write loop, and the invariant of the server intact.\<close>

theorem client_bytes_safe:
  assumes "sv_ok sv" "sm_next (sv_sm sv) < 2 ^ 32 - 1" "src_ok r"
  shows "case read_loop env self r new_client sv of
      Inl e \<Rightarrow> known_crash e
    | Inr (c', sv') \<Rightarrow> ended c' \<and> sv_ok sv'"
proof -
  have "cl_st new_client \<noteq> StateDisconnected" "PDisconnect \<notin> set (cl_queue new_client)"
    by (simp_all add: new_client_def state_defs)
  from read_loop_ok [OF new_client_ok [OF assms(1)] assms(3) this, of env self] assms(1,2)
  show ?thesis by simp
qed

theorem client_bytes_safe_witness:
  "case read_loop log_env 0 (slice_reader [0x10, 0xff, 0xff, 0xff, 0xff, 1]) new_client demo_server of
      Inl e \<Rightarrow> known_crash e
    | Inr (c', sv') \<Rightarrow> ended c' \<and> sv_ok sv'"
  by (rule client_bytes_safe) (simp_all add: demo_server_ok demo_sessions)

text \<open>A CONNECT that succeeds: the session is attached and the CONNACK queued before what was owed.\<close>

lemma handle_connect_attached:
  assumes "handle_connect env self cp c sv = Inr (None, c', sv')"
  obtains a present sv1 sv2 c3 where "sv_sm sv1 = sv_sm sv"
    and "attach_session (client_id cp) (clean_session cp) sv1 = (a, present, sv2)"
    and "cl_queue c3 = cl_queue c @ [PConnAck (new_conn_ack present 0)]" "cl_session c3 = Some a" "cl_st c3 = StateConnected"
    and "(if \<not> clean_session cp \<and> present then
            (case restore_ack_subscriptions env self c3 sv2 of Inl e \<Rightarrow> Inl e
             | Inr sv3 \<Rightarrow> (case resend_client_unack env c3 sv3 of Inl e \<Rightarrow> Inl e
                 | Inr (c4, sv4) \<Rightarrow> Inr (None, c4, sv4)))
          else Inr (None, c3, sv2)) = Inr (None :: go_error option, c', sv')"
proof -
  obtain res sv1 where n: "nats_conn env (creds cp) sv = (res, sv1)" by fastforce
  have sm1: "sv_sm sv1 = sv_sm sv" using nats_conn_keeps [OF n] by simp
  obtain nc where nc: "res = Inr nc" using assms n by (cases res) (auto simp: handle_connect_def Let_def)
  obtain a present sv2 where at: "attach_session (client_id cp) (clean_session cp) sv1 = (a, present, sv2)"
    by (metis prod_cases3)
  define c3 where "c3 = queue_for_write (PConnAck (new_conn_ack present 0))
      (c\<lparr>cl_connect := Some cp, cl_nats := Some nc, cl_session := Some a, cl_session_present := present,
         cl_st := StateConnected, cl_max_wait := max_wait_of cp\<rparr>)"
  have c3: "cl_queue c3 = cl_queue c @ [PConnAck (new_conn_ack present 0)]" "cl_session c3 = Some a"
    "cl_st c3 = StateConnected"
    by (simp_all add: c3_def queue_for_write_def)
  have "(if \<not> clean_session cp \<and> present then
            (case restore_ack_subscriptions env self c3 sv2 of Inl e \<Rightarrow> Inl e
             | Inr sv3 \<Rightarrow> (case resend_client_unack env c3 sv3 of Inl e \<Rightarrow> Inl e
                 | Inr (c4, sv4) \<Rightarrow> Inr (None, c4, sv4)))
          else Inr (None, c3, sv2)) = Inr (None :: go_error option, c', sv')"
    using assms unfolding handle_connect_def n nc sum.case prod.case Let_def at c3_def .
  with sm1 at c3 show ?thesis by (rule that)
qed

text \<open>C25: A client that connects is first sent a CONNACK whose session-present flag says whether it
  continues the registered session of its identifier, which it does unless it asked for a clean
  session or there is none; then all packets that the session still expects an answer for.\<close>

theorem connack_session_present:
  assumes "handle_connect env self cp c sv = Inr (None, c', sv')"
  shows "\<exists>a present owed. cl_queue c' = cl_queue c @ PConnAck (new_conn_ack present 0) # map PPublish owed
    \<and> (present \<longleftrightarrow> \<not> clean_session cp \<and> sm_get (client_id cp) (sv_sm sv) \<noteq> None)
    \<and> (present \<longrightarrow> sm_get (client_id cp) (sv_sm sv) = Some a)
    \<and> owed = (if present then owed_packets env sv a else [])
    \<and> cl_session c' = Some a \<and> sm_get (client_id cp) (sv_sm sv') = Some a"
proof -
  obtain a present sv1 sv2 c3 where sm1: "sv_sm sv1 = sv_sm sv"
    and at: "attach_session (client_id cp) (clean_session cp) sv1 = (a, present, sv2)"
    and c3: "cl_queue c3 = cl_queue c @ [PConnAck (new_conn_ack present 0)]" "cl_session c3 = Some a" "cl_st c3 = StateConnected"
    and eq: "(if \<not> clean_session cp \<and> present then
            (case restore_ack_subscriptions env self c3 sv2 of Inl e \<Rightarrow> Inl e
             | Inr sv3 \<Rightarrow> (case resend_client_unack env c3 sv3 of Inl e \<Rightarrow> Inl e
                 | Inr (c4, sv4) \<Rightarrow> Inr (None, c4, sv4)))
          else Inr (None, c3, sv2)) = Inr (None :: go_error option, c', sv')"
    using handle_connect_attached [OF assms] .
  obtain m where att: "sessions.attach (client_id cp) (clean_session cp) (sv_sm sv) = (a, present, m)"
    "sv_sm sv2 = m"
    using at by (auto simp: attach_session_eq sm1 split: prod.splits)
  have reg: "sm_get (client_id cp) (sv_sm sv2) = Some a" using sessions.attach_get [OF att(1)] att(2) by simp
  have pres: "present \<longleftrightarrow> \<not> clean_session cp \<and> sm_get (client_id cp) (sv_sm sv) \<noteq> None"
    "present \<longrightarrow> sm_get (client_id cp) (sv_sm sv) = Some a"
    using sessions.attach_present_iff [OF att(1)] sessions.attach_present [OF att(1)] by blast+
  show ?thesis
  proof (cases present)
    case False
    then have "c' = c3" "sv' = sv2" "cl_queue c3 = cl_queue c @ [PConnAck (new_conn_ack False 0)]"
      using eq c3(1) by simp_all
    with False c3(2) reg pres(1) show ?thesis by (intro exI [of _ a] exI [of _ False]) auto
  next
    case True
    have sv2: "sv2 = sv1" using True at pres(1) by (auto simp: attach_session_def split: if_splits option.splits prod.splits)
    obtain sv3 where r: "restore_ack_subscriptions env self c3 sv2 = Inr sv3"
      using eq True pres(1) by (auto split: sum.splits)
    have rs: "resend_client_unack env c3 sv3 = Inr (c', sv')"
      using eq True pres(1) r by (auto split: sum.splits)
    have "same_owed a sv2 sv3" using r by (rule restore_ack_subscriptions_owed)
    then have owed: "owed_packets env sv3 a = owed_packets env sv a" "sm_m (sv_sm sv3) = sm_m (sv_sm sv2)"
      using owed_packets_same [of a sv2 sv3 env] by (simp_all add: sv2 same_owed_def)
        (simp_all add: owed_packets_def sm1)
    from resend_client_unack_queue [OF rs c3(3,2)] owed True c3 reg pres show ?thesis
      by (intro exI [of _ a] exI [of _ True]) (simp add: sm_get_def)
  qed
qed

theorem connack_session_present_witness:
  "\<exists>c' sv' a present owed. handle_connect log_env 1 demo_connect new_client demo_server = Inr (None, c', sv')
    \<and> cl_queue c' = PConnAck (new_conn_ack present 0) # map PPublish owed
    \<and> cl_session c' = Some a \<and> sm_get ''c'' (sv_sm sv') = Some a"
proof -
  have "clean_session demo_connect" "creds demo_connect = None"
    by (simp_all add: demo_connect_def clean_session_def connect_flag_defs)
  then obtain c' sv' where h: "handle_connect log_env 1 demo_connect new_client demo_server = Inr (None, c', sv')"
    by (auto simp: handle_connect_def log_conn attach_session_def sm_create_def Let_def)
  have "client_id demo_connect = ''c''" by (simp add: demo_connect_def)
  with connack_session_present [OF h] h show ?thesis by (auto simp: new_client_def)
qed

end
