(* ===== verification/Logger.thy ===== *)
theory Logger
  imports Main
begin

text \<open>
  The log levels and the logger of \<open>logger/logger.go\<close>: one standard logger per severity, or none.
  A line is recorded as the output it goes to, its prefix and its operands; the date that the
  standard library adds is left out.
\<close>

type_synonym level = int

definition LevelSilent :: level where "LevelSilent = 0"
definition LevelError :: level where "LevelError = 1"
definition LevelInfo :: level where "LevelInfo = 2"
definition LevelDebug :: level where "LevelDebug = 3"

lemmas level_defs = LevelSilent_def LevelError_def LevelInfo_def LevelDebug_def

text \<open>\<open>log.Logger\<close> of the standard library.\<close>

record 'o std_log =
  std_out :: 'o
  std_prefix :: string

type_synonym 'o log = "('o \<times> string \<times> string list) list"

definition std_println :: "'o std_log \<Rightarrow> string list \<Rightarrow> 'o log \<Rightarrow> 'o log" where
  "std_println l args w = w @ [(std_out l, std_prefix l, args)]"

record 'o log_writer =
  lw_debug :: "'o std_log option"
  lw_info :: "'o std_log option"
  lw_err :: "'o std_log option"

datatype 'o logger = SilentLogger | WriterLogger "'o log_writer"

definition println_if :: "'o std_log option \<Rightarrow> string list \<Rightarrow> 'o log \<Rightarrow> 'o log" where
  "println_if l args w = (case l of None \<Rightarrow> w | Some sl \<Rightarrow> std_println sl args w)"

fun log_debug :: "'o logger \<Rightarrow> string list \<Rightarrow> 'o log \<Rightarrow> 'o log" where
  "log_debug SilentLogger args w = w"
| "log_debug (WriterLogger l) args w = println_if (lw_debug l) args w"

fun log_info :: "'o logger \<Rightarrow> string list \<Rightarrow> 'o log \<Rightarrow> 'o log" where
  "log_info SilentLogger args w = w"
| "log_info (WriterLogger l) args w = println_if (lw_info l) args w"

fun log_error :: "'o logger \<Rightarrow> string list \<Rightarrow> 'o log \<Rightarrow> 'o log" where
  "log_error SilentLogger args w = w"
| "log_error (WriterLogger l) args w = println_if (lw_err l) args w"

fun debug_enabled :: "'o logger \<Rightarrow> bool" where
  "debug_enabled SilentLogger = False"
| "debug_enabled (WriterLogger l) = (lw_debug l \<noteq> None)"

fun info_enabled :: "'o logger \<Rightarrow> bool" where
  "info_enabled SilentLogger = False"
| "info_enabled (WriterLogger l) = (lw_info l \<noteq> None)"

fun error_enabled :: "'o logger \<Rightarrow> bool" where
  "error_enabled SilentLogger = False"
| "error_enabled (WriterLogger l) = (lw_err l \<noteq> None)"

text \<open>The cases of the switch fall through from \<open>Debug\<close> to \<open>Info\<close> to \<open>Error\<close>.\<close>

definition with_err :: "'o \<Rightarrow> 'o log_writer \<Rightarrow> 'o log_writer" where
  "with_err err l = l\<lparr>lw_err := Some \<lparr>std_out = err, std_prefix = ''ERROR ''\<rparr>\<rparr>"

definition with_info :: "'o \<Rightarrow> 'o \<Rightarrow> 'o log_writer \<Rightarrow> 'o log_writer" where
  "with_info out err l = with_err err (l\<lparr>lw_info := Some \<lparr>std_out = out, std_prefix = ''INFO  ''\<rparr>\<rparr>)"

definition with_debug :: "'o \<Rightarrow> 'o \<Rightarrow> 'o log_writer \<Rightarrow> 'o log_writer" where
  "with_debug out err l = with_info out err (l\<lparr>lw_debug := Some \<lparr>std_out = out, std_prefix = ''DEBUG ''\<rparr>\<rparr>)"

definition new_logger :: "level \<Rightarrow> 'o \<Rightarrow> 'o \<Rightarrow> 'o logger" where
  "new_logger level out err =
     (if level = LevelSilent then SilentLogger
      else
        (let l = \<lparr>lw_debug = None, lw_info = None, lw_err = None\<rparr>
         in WriterLogger (if level = LevelDebug then with_debug out err l
                          else if level = LevelInfo then with_info out err l
                          else if level = LevelError then with_err err l else l)))"

section \<open>Properties\<close>

text \<open>The logger of a level writes the messages of that severity and the more severe ones, once and
  to the right output; a level that is none of the four writes nothing.\<close>

theorem logger_levels:
  "log_error (new_logger l out err) args w = (if l \<in> {1..3} then w @ [(err, ''ERROR '', args)] else w)"
  "log_info (new_logger l out err) args w = (if l \<in> {2..3} then w @ [(out, ''INFO  '', args)] else w)"
  "log_debug (new_logger l out err) args w = (if l = 3 then w @ [(out, ''DEBUG '', args)] else w)"
  by (auto simp: new_logger_def level_defs with_debug_def with_info_def with_err_def println_if_def std_println_def Let_def)

lemma enabled_levels:
  "error_enabled (new_logger l out err) \<longleftrightarrow> l \<in> {1..3}" "info_enabled (new_logger l out err) \<longleftrightarrow> l \<in> {2..3}"
  "debug_enabled (new_logger l out err) \<longleftrightarrow> l = 3"
  by (auto simp: new_logger_def level_defs with_debug_def with_info_def with_err_def Let_def)

end
