(* ===== verification/Client_Log.thy ===== *)
theory Client_Log
  imports Client Packet_Text Logger
begin

text \<open>
  The text of a client and its log lines (\<open>bridge/client.go\<close>).  The printing functions of the
  standard library recover from a panic of a \<open>String\<close> method and print it instead.
\<close>

definition client_string :: "client \<Rightarrow> go_error + string" where
  "client_string c =
     (if cl_st c = StateInfant then Inr ''Client (not yet connected)''
      else if cl_st c = StateConnected then deref (cl_connect c) (\<lambda>cp. Inr (''Client '' @ client_id cp))
      else deref (cl_connect c) (\<lambda>cp. Inr (''Client '' @ client_id cp @ '' (disconnected)'')))"

fun error_text :: "go_error \<Rightarrow> string" where
  "error_text EOF = ''EOF''"
| "error_text ErrUnexpectedEOF = ''unexpected EOF''"
| "error_text (ConnError s) = s"
| "error_text (ErrorString s) = s"
| "error_text (RetCode rc) = return_code_error rc"
| "error_text (Panic s) = ''runtime error: '' @ s"
| "error_text Diverges = []"

text \<open>An operand with a \<open>String\<close> method.\<close>

definition operand :: "go_error + string \<Rightarrow> string" where
  "operand s = (case s of Inr t \<Rightarrow> t | Inl e \<Rightarrow> ''%!v(PANIC=String method: '' @ error_text e @ '')'')"

definition add_first :: "client \<Rightarrow> string list \<Rightarrow> string list" where
  "add_first c args = operand (client_string c) # args"

definition client_debug :: "'o logger \<Rightarrow> client \<Rightarrow> string list \<Rightarrow> 'o log \<Rightarrow> 'o log" where
  "client_debug lg c args w = (if debug_enabled lg then log_debug lg (add_first c args) w else w)"

definition client_error :: "'o logger \<Rightarrow> client \<Rightarrow> string list \<Rightarrow> 'o log \<Rightarrow> 'o log" where
  "client_error lg c args w = (if error_enabled lg then log_error lg (add_first c args) w else w)"

text \<open>What \<open>Serve\<close> logs at the end of a connection.\<close>

definition serve_log :: "'o logger \<Rightarrow> client \<Rightarrow> 'o log \<Rightarrow> 'o log" where
  "serve_log lg c w =
     (let w = (case cl_err c of None \<Rightarrow> w | Some e \<Rightarrow> client_error lg c [error_text e] w)
      in case cl_connect c of
           None \<Rightarrow> client_debug lg c [''client connection could not be established''] w
         | Some cp \<Rightarrow>
             (let w = client_debug lg c [''disconnected''] w
              in if clean_session cp then client_debug lg c [''session removed''] w else w))"

section \<open>Properties\<close>

lemma set_disconnected_logged:
  assumes "set_disconnected env (Some e) c0 sv = Inr (c, sv')" "cl_st c0 \<noteq> StateDisconnected"
  shows "cl_st c = StateDisconnected \<and> cl_err c = Some (if e = EOF then ErrUnexpectedEOF else e)
    \<and> cl_connect c = cl_connect c0"
  using assms by (auto simp: set_disconnected_def Let_def split: sum.splits)

text \<open>When the first error of a connection ends it before its CONNECT, the one line that reports the
  error shows, in place of the client, the panic of its \<open>String\<close> method; after a CONNECT the line
  names the client.  An end of file is reported as unexpected.  Nothing else is logged as an
  error, and nothing at all by a silent logger.\<close>

theorem end_of_connection_logged:
  assumes "set_disconnected env (Some e) c0 sv = Inr (c, sv')" "cl_st c0 \<noteq> StateDisconnected"
  shows "filter (\<lambda>(_, p, _). p = ''ERROR '') (serve_log (new_logger l out err) c [])
    = (if l \<in> {1..3}
       then [(err, ''ERROR '',
         [case cl_connect c0 of
            None \<Rightarrow> ''%!v(PANIC=String method: runtime error: invalid memory address or nil pointer dereference)''
          | Some cp \<Rightarrow> ''Client '' @ client_id cp @ '' (disconnected)'',
          if e = EOF then ''unexpected EOF'' else error_text e])]
       else [])"
proof -
  note d = set_disconnected_logged [OF assms]
  have [simp]: "filter (\<lambda>(_, p, _). p = ''ERROR '') (client_debug (new_logger l out err) c args w)
      = filter (\<lambda>(_, p, _). p = ''ERROR '') w" for args w
    by (auto simp: client_debug_def logger_levels)
  have "client_string c = deref (cl_connect c) (\<lambda>cp. Inr (''Client '' @ client_id cp @ '' (disconnected)''))"
    using d by (simp add: client_string_def StateInfant_def StateConnected_def StateDisconnected_def)
  then show ?thesis
    using d
    by (auto simp: serve_log_def client_error_def logger_levels enabled_levels add_first_def operand_def deref_def Let_def
        split: option.split)
qed

theorem end_of_connection_logged_witness:
  "\<exists>c sv. set_disconnected log_env (Some (ErrorString ''not connected'')) new_client (new_server ''u'' []) = Inr (c, sv)
    \<and> filter (\<lambda>(_, p, _). p = ''ERROR '') (serve_log (new_logger LevelError ''out'' ''err'') c [])
      = [(''err'', ''ERROR '', [''%!v(PANIC=String method: runtime error: invalid memory address or nil pointer dereference)'',
           ''not connected''])]"
proof -
  obtain c sv where c: "set_disconnected log_env (Some (ErrorString ''not connected'')) new_client (new_server ''u'' []) = Inr (c, sv)"
    by (simp add: set_disconnected_def new_client_def StateInfant_def StateDisconnected_def Let_def)
  have "cl_st new_client \<noteq> StateDisconnected" by (simp add: new_client_def StateInfant_def StateDisconnected_def)
  from end_of_connection_logged [OF c this, of LevelError "''out''" "''err''"] c
  show ?thesis by (auto simp: level_defs new_client_def)
qed

end
