(* ===== verification/Bridge.thy ===== *)
theory Bridge
  imports Client_Contract
begin

text \<open>
  The bridge with all its connections (\<open>ServeClient\<close> and \<open>drainAndShutdown\<close> of
  \<open>bridge/server.go\<close>, \<open>Serve\<close> of \<open>bridge/client.go\<close>) as a transition system: the goroutines
  of the connections, the callbacks of their NATS subscriptions, the timer and the shutdown
  are interleaved step by step.  A step is one turn of a loop or one callback; a panic of
  any of them, or a loop that waits for itself, ends in an error instead of a state.
\<close>

section \<open>State\<close>

text \<open>A connection: what its peer has sent, the client, and which of its two loops still run.\<close>

record connection =
  cn_reader :: reader
  cn_client :: client
  cn_reading :: bool
  cn_writing :: bool

definition new_connection :: "reader \<Rightarrow> connection" where
  "new_connection r = \<lparr>cn_reader = r, cn_client = new_client, cn_reading = True, cn_writing = True\<rparr>"

text \<open>\<open>br_draining\<close> holds the clients that the shutdown still has to disconnect.\<close>

record 'w bridge =
  br_server :: "'w server"
  br_conns :: "nat \<rightharpoonup> connection"
  br_next :: nat
  br_draining :: "nat list"

definition new_bridge :: "string \<Rightarrow> 'w \<Rightarrow> 'w bridge" where
  "new_bridge uid w = \<lparr>br_server = new_server uid w, br_conns = Map.empty, br_next = 0, br_draining = []\<rparr>"

definition set_conn :: "nat \<Rightarrow> connection \<Rightarrow> 'w server \<Rightarrow> 'w bridge \<Rightarrow> 'w bridge" where
  "set_conn i cn sv b = b\<lparr>br_server := sv, br_conns := (br_conns b)(i \<mapsto> cn)\<rparr>"

section \<open>Operations\<close>

text \<open>Each operation works on the whole state; \<open>Inl\<close> ends the process or never returns.\<close>

definition accept_conn :: "reader \<Rightarrow> 'w bridge \<Rightarrow> 'w bridge" where
  "accept_conn r b = b\<lparr>br_conns := (br_conns b)(br_next b \<mapsto> new_connection r), br_next := Suc (br_next b)\<rparr>"

definition read_step :: "'w env \<Rightarrow> nat \<Rightarrow> connection \<Rightarrow> 'w bridge \<Rightarrow> go_error + 'w bridge" where
  "read_step env i cn b =
     (case read_turn env i (cn_reader cn) (cn_client cn) (br_server b) of
        Inl e \<Rightarrow> Inl e
      | Inr (Next r c sv) \<Rightarrow> Inr (set_conn i (cn\<lparr>cn_reader := r, cn_client := c\<rparr>) sv b)
      | Inr (Leave err c sv) \<Rightarrow>
          (case set_disconnected env err c sv of
             Inl e \<Rightarrow> Inl e
           | Inr (c1, sv1) \<Rightarrow> Inr (set_conn i (cn\<lparr>cn_reading := False, cn_client := c1\<rparr>) sv1 b)))"

definition write_step :: "'w env \<Rightarrow> go_error option \<Rightarrow> nat \<Rightarrow> connection \<Rightarrow> 'w bridge \<Rightarrow> go_error + 'w bridge" where
  "write_step env werr i cn b =
     (case write_batch env werr (cn_client cn) (br_server b) of
        Inl e \<Rightarrow> Inl e
      | Inr (bs, go_on, c, sv) \<Rightarrow> Inr (set_conn i (cn\<lparr>cn_client := c, cn_writing := go_on\<rparr>) sv b))"

definition ack_step :: "'w env \<Rightarrow> nats_msg \<Rightarrow> nat \<Rightarrow> connection \<Rightarrow> 'w bridge \<Rightarrow> 'w bridge" where
  "ack_step env m i cn b =
     (case on_ack env m (cn_client cn) (br_server b) of (c, sv) \<Rightarrow> set_conn i (cn\<lparr>cn_client := c\<rparr>) sv b)"

definition response_step :: "byte \<Rightarrow> nats_msg \<Rightarrow> nat \<Rightarrow> connection \<Rightarrow> 'w bridge \<Rightarrow> go_error + 'w bridge" where
  "response_step q m i cn b =
     (case nats_response q m (cn_client cn) (br_server b) of
        Inl e \<Rightarrow> Inl e
      | Inr (c, sv) \<Rightarrow> Inr (set_conn i (cn\<lparr>cn_client := c\<rparr>) sv b))"

definition tick_step :: "'w env \<Rightarrow> 'w bridge \<Rightarrow> go_error + 'w bridge" where
  "tick_step env b =
     (case ack_check_tick env (br_server b) of Inl e \<Rightarrow> Inl e | Inr sv \<Rightarrow> Inr (b\<lparr>br_server := sv\<rparr>))"

text \<open>The end of \<open>ServeClient\<close>, when both loops have ended.\<close>

definition end_step :: "'w env \<Rightarrow> nat \<Rightarrow> connection \<Rightarrow> 'w bridge \<Rightarrow> 'w bridge" where
  "end_step env i cn b =
     b\<lparr>br_server := unmanage_client i (serve_end env (cn_client cn) (br_server b)),
       br_conns := (br_conns b)(i := None)\<rparr>"

text \<open>
  The shutdown takes the list of managed clients and disconnects one after the other; a
  client whose connection has gone is disconnected already.
\<close>

definition drain_start :: "'w bridge \<Rightarrow> 'w bridge" where
  "drain_start b = b\<lparr>br_draining := sv_clients (br_server b), br_server := (br_server b)\<lparr>sv_clients := []\<rparr>\<rparr>"

definition drain_one :: "'w env \<Rightarrow> 'w bridge \<Rightarrow> go_error + 'w bridge" where
  "drain_one env b =
     (case br_draining b of
        [] \<Rightarrow> Inr b
      | i # is \<Rightarrow>
          (case br_conns b i of
             None \<Rightarrow> Inr (b\<lparr>br_draining := is\<rparr>)
           | Some cn \<Rightarrow>
               (case set_disconnected env None (cn_client cn) (br_server b) of
                  Inl e \<Rightarrow> Inl e
                | Inr (c, sv) \<Rightarrow> Inr ((set_conn i (cn\<lparr>cn_client := c\<rparr>) sv b)\<lparr>br_draining := is\<rparr>))))"

section \<open>Steps\<close>

text \<open>
  A callback of a subscription runs only for a client that has made one, and so has a session;
  the source of a reader gives an error value but does not panic.  \<open>limit\<close> bounds the number of
  sessions, beyond which session identifiers would repeat.
\<close>

inductive bridge_step :: "'w env \<Rightarrow> 'w bridge \<Rightarrow> go_error + 'w bridge \<Rightarrow> bool" for env where
  Accept: "src_ok r \<Longrightarrow> bridge_step env b (Inr (accept_conn r b))"
| Read: "br_conns b i = Some cn \<Longrightarrow> cn_reading cn \<Longrightarrow> sm_next (sv_sm (br_server b)) < 2 ^ 32 - 1 \<Longrightarrow>
    bridge_step env b (read_step env i cn b)"
| Write: "br_conns b i = Some cn \<Longrightarrow> cn_writing cn \<Longrightarrow> cl_queue (cn_client cn) \<noteq> [] \<Longrightarrow>
    bridge_step env b (write_step env werr i cn b)"
| Ack: "br_conns b i = Some cn \<Longrightarrow> cl_session (cn_client cn) \<noteq> None \<Longrightarrow>
    bridge_step env b (Inr (ack_step env m i cn b))"
| Response: "br_conns b i = Some cn \<Longrightarrow> cl_session (cn_client cn) \<noteq> None \<Longrightarrow>
    bridge_step env b (response_step q m i cn b)"
| Tick: "sv_timer (br_server b) \<Longrightarrow> bridge_step env b (tick_step env b)"
| End: "br_conns b i = Some cn \<Longrightarrow> \<not> cn_reading cn \<Longrightarrow> \<not> cn_writing cn \<Longrightarrow>
    bridge_step env b (Inr (end_step env i cn b))"
| DrainStart: "bridge_step env b (Inr (drain_start b))"
| DrainOne: "br_draining b \<noteq> [] \<Longrightarrow> bridge_step env b (drain_one env b)"

inductive bridge_reach :: "'w env \<Rightarrow> 'w bridge \<Rightarrow> go_error + 'w bridge \<Rightarrow> bool" for env where
  Start: "bridge_reach env b (Inr b)"
| Step: "bridge_reach env b (Inr b1) \<Longrightarrow> bridge_step env b1 x \<Longrightarrow> bridge_reach env b x"

section \<open>The invariant\<close>

text \<open>
  The queue of a client that is not disconnected holds packets for the peer only; once it is
  disconnected, the last packet is the one that ends the write loop, until that has ended.
\<close>

definition queue_ok :: "client \<Rightarrow> bool \<Rightarrow> bool" where
  "queue_ok c writing \<longleftrightarrow>
     (if cl_st c = StateDisconnected
      then writing \<longrightarrow> (\<exists>ps. cl_queue c = ps @ [PDisconnect] \<and> list_all outgoing ps)
      else writing \<and> list_all outgoing (cl_queue c))"

definition conn_ok :: "nat \<Rightarrow> 'w server \<Rightarrow> nat \<Rightarrow> connection \<Rightarrow> bool" where
  "conn_ok next sv i cn \<longleftrightarrow> i < next \<and> src_ok (cn_reader cn) \<and> cl_inv (cn_client cn) sv
     \<and> queue_ok (cn_client cn) (cn_writing cn)
     \<and> cl_st (cn_client cn) \<in> {StateInfant, StateConnected, StateDisconnected}
     \<and> (cl_st (cn_client cn) = StateConnected \<longrightarrow> cl_nats (cn_client cn) \<noteq> None
          \<and> cl_connect (cn_client cn) \<noteq> None \<and> cl_session (cn_client cn) \<noteq> None)
     \<and> (cn_reading cn \<or> cl_st (cn_client cn) = StateDisconnected)"

text \<open>Every client in the list is there, once, and has been connected.\<close>

definition managed_ok :: "'w bridge \<Rightarrow> bool" where
  "managed_ok b \<longleftrightarrow> distinct (sv_clients (br_server b))
     \<and> (\<forall>i \<in> set (sv_clients (br_server b)). \<exists>cn. br_conns b i = Some cn \<and> cl_st (cn_client cn) \<noteq> StateInfant)
     \<and> (\<forall>i \<in> set (br_draining b). i < br_next b \<and> (\<forall>cn. br_conns b i = Some cn \<longrightarrow> cl_st (cn_client cn) \<noteq> StateInfant))"

definition bridge_ok :: "'w bridge \<Rightarrow> bool" where
  "bridge_ok b \<longleftrightarrow> sv_ok (br_server b)
     \<and> (\<forall>i cn. br_conns b i = Some cn \<longrightarrow> conn_ok (br_next b) (br_server b) i cn) \<and> managed_ok b"

lemma cl_inv_heap:
  "cl_inv c sv \<Longrightarrow> dom (sm_heap (sv_sm sv)) \<subseteq> dom (sm_heap (sv_sm sv')) \<Longrightarrow> cl_inv c sv'"
  by (auto simp: cl_inv_def has_session_def client_session_iff)

lemma conn_ok_mono:
  "conn_ok n sv i cn \<Longrightarrow> dom (sm_heap (sv_sm sv)) \<subseteq> dom (sm_heap (sv_sm sv')) \<Longrightarrow> n \<le> n' \<Longrightarrow> conn_ok n' sv' i cn"
  using cl_inv_heap [of "cn_client cn" sv sv'] by (auto simp: conn_ok_def)

lemma bridge_ok_conn: "bridge_ok b \<Longrightarrow> br_conns b i = Some cn \<Longrightarrow> conn_ok (br_next b) (br_server b) i cn"
  by (simp add: bridge_ok_def)

lemma conn_ok_client: "sv_ok sv \<Longrightarrow> conn_ok n sv i cn \<Longrightarrow> client_ok (cn_client cn) sv"
  by (auto simp: conn_ok_def client_ok_def live_def cl_inv_def)

text \<open>Every step of a connection replaces that connection and the server.\<close>

lemma bridge_ok_set_conn:
  assumes b: "bridge_ok b" "br_conns b i = Some cn" and sv: "sv_turn i (cn_client cn) (cn_client cn') (br_server b) sv'"
    and cn': "conn_ok (br_next b) sv' i cn'"
    and infant: "cl_st (cn_client cn') = StateInfant \<longrightarrow> cl_st (cn_client cn) = StateInfant"
  shows "bridge_ok (set_conn i cn' sv' b)"
proof -
  let ?b = "set_conn i cn' sv' b"
  have "sv_ok sv'" using sv_turn_ok [OF sv] b(1) by (simp add: bridge_ok_def)
  moreover have "conn_ok (br_next b) sv' j cj" if "br_conns ?b j = Some cj" for j cj
    using that cn' bridge_ok_conn [OF b(1)] conn_ok_mono [OF _ sv_turn_heap [OF sv] order_refl]
    by (auto simp: set_conn_def split: if_splits)
  moreover have m: "managed_ok b" using b(1) by (simp add: bridge_ok_def)
  have "managed_ok ?b"
  proof (cases "sv_clients sv' = sv_clients (br_server b)")
    case True
    with m infant b(2) show ?thesis by (auto simp: managed_ok_def set_conn_def)
  next
    case False
    with sv have new: "sv_clients sv' = sv_clients (br_server b) @ [i]" "cl_st (cn_client cn) = StateInfant"
      "cl_st (cn_client cn') \<noteq> StateInfant"
      by (auto simp: sv_turn_def)
    with m b(2) have "i \<notin> set (sv_clients (br_server b))" by (auto simp: managed_ok_def)
    with new m b(2) show ?thesis by (auto simp: managed_ok_def set_conn_def state_defs)
  qed
  ultimately show ?thesis by (simp add: bridge_ok_def) (simp add: set_conn_def)
qed

section \<open>The steps keep the invariant\<close>

definition step_ok :: "go_error + 'w bridge \<Rightarrow> bool" where
  "step_ok x \<longleftrightarrow> (case x of Inl e \<Rightarrow> known_crash e | Inr b \<Rightarrow> bridge_ok b)"

lemma step_ok_simps [simp]: "step_ok (Inl e) = known_crash e" "step_ok (Inr b) = bridge_ok b"
  by (simp_all add: step_ok_def)

lemma queue_ok_ext:
  "queue_ok c w \<Longrightarrow> q_ext c c' \<Longrightarrow> cl_st c \<noteq> StateDisconnected \<Longrightarrow> queue_ok c' w"
  by (auto simp: queue_ok_def q_ext_def)

lemma queue_ok_ended:
  "queue_ok c w \<Longrightarrow> cl_st c \<noteq> StateDisconnected \<Longrightarrow> cl_st c' = StateDisconnected \<Longrightarrow>
   cl_queue c' = cl_queue c @ [PDisconnect] \<Longrightarrow> queue_ok c' w"
  by (auto simp: queue_ok_def)

text \<open>Disconnecting a client of the bridge, whoever does it.\<close>

lemma disconnect_ok:
  assumes b: "bridge_ok b" "br_conns b i = Some cn" and sv: "sv_turn i (cn_client cn) c1 (br_server b) sv1"
    and c1: "cl_inv c1 sv1" "queue_ok c1 (cn_writing cn)" "src_ok (cn_reader cn')"
    and cn': "cn_writing cn' = cn_writing cn"
  shows "case set_disconnected env err c1 sv1 of Inl e \<Rightarrow> known_crash e
    | Inr (c2, sv2) \<Rightarrow> bridge_ok (set_conn i (cn'\<lparr>cn_client := c2\<rparr>) sv2 b)"
proof (cases "cl_st c1 = StateDisconnected")
  case True
  have "i < br_next b" using bridge_ok_conn [OF b] by (simp add: conn_ok_def)
  with True c1 cn' have "conn_ok (br_next b) sv1 i (cn'\<lparr>cn_client := c1\<rparr>)"
    by (simp add: conn_ok_def state_defs)
  from bridge_ok_set_conn [OF b _ this] sv True show ?thesis
    by (simp add: set_disconnected_again state_defs)
next
  case False
  have ok1: "sv_ok sv1" using sv_turn_ok [OF sv] b(1) by (simp add: bridge_ok_def)
  have w: "wills_ok c1" using c1(1) by (simp add: cl_inv_def)
  note d = set_disconnected_ok [OF ok1 w False, of env err]
  show ?thesis
  proof (cases "set_disconnected env err c1 sv1")
    case (Inl e)
    with d show ?thesis by (simp add: known_crash_def)
  next
    case (Inr x)
    obtain c2 sv2 where x: "x = (c2, sv2)" by fastforce
    with d Inr have k: "cl_st c2 = StateDisconnected" "cl_queue c2 = cl_queue c1 @ [PDisconnect]" "sv_keeps sv1 sv2"
      "cl_connect c2 = cl_connect c1" "cl_session c2 = cl_session c1" by simp_all
    have inv: "cl_inv c2 sv2"
      using c1(1) k by (auto simp: cl_inv_def wills_ok_def has_session_def client_session_iff sv_keeps_def)
    have "i < br_next b" using bridge_ok_conn [OF b] by (simp add: conn_ok_def)
    with inv k(1) queue_ok_ended [OF c1(2) False k(1,2)] c1(3) cn'
    have cn2: "conn_ok (br_next b) sv2 i (cn'\<lparr>cn_client := c2\<rparr>)"
      by (simp add: conn_ok_def state_defs)
    have "sv_turn i (cn_client cn) c2 (br_server b) sv2"
      using sv k(3) by (rule sv_turn_then) (simp add: k(1) state_defs)
    with bridge_ok_set_conn [OF b _ cn2] k(1) Inr x show ?thesis by (simp add: state_defs)
  qed
qed

lemma accept_ok:
  assumes "bridge_ok b" "src_ok r"
  shows "bridge_ok (accept_conn r b)"
proof -
  have sv: "sv_ok (br_server b)" using assms(1) by (simp add: bridge_ok_def)
  have "conn_ok (Suc (br_next b)) (br_server b) (br_next b) (new_connection r)"
    using assms(2) new_client_ok [OF sv]
    by (simp add: conn_ok_def new_connection_def client_ok_def queue_ok_def) (simp add: new_client_def state_defs)
  moreover have "br_conns b (br_next b) = None"
    using bridge_ok_conn [OF assms(1), of "br_next b"] by (cases "br_conns b (br_next b)") (auto simp: conn_ok_def)
  moreover have "conn_ok (Suc (br_next b)) (br_server b) i cn" if "br_conns b i = Some cn" for i cn
    using bridge_ok_conn [OF assms(1) that] by (rule conn_ok_mono) simp_all
  ultimately show ?thesis
    using assms(1) by (auto simp: bridge_ok_def accept_conn_def managed_ok_def)
qed

lemma read_turn_next_live:
  "read_turn env i r c sv = Inr (Next r' c' sv') \<Longrightarrow> cl_st c \<noteq> StateDisconnected"
  by (auto simp: read_turn_def)

lemma read_step_ok:
  assumes b: "bridge_ok b" "br_conns b i = Some cn" and room: "sm_next (sv_sm (br_server b)) < 2 ^ 32 - 1"
  shows "step_ok (read_step env i cn b)"
proof -
  let ?c = "cn_client cn"
  have cn: "conn_ok (br_next b) (br_server b) i cn" using bridge_ok_conn [OF b] .
  then have src: "src_ok (cn_reader cn)" and q: "queue_ok ?c (cn_writing cn)" and lt: "i < br_next b"
    by (simp_all add: conn_ok_def)
  have "client_ok ?c (br_server b)" using b(1) conn_ok_client [OF _ cn] by (simp add: bridge_ok_def)
  from read_turn_ok [OF this src, of i env] room
  have t: "turn_ok i (cn_reader cn) ?c (br_server b) (read_turn env i (cn_reader cn) ?c (br_server b))" by simp
  show ?thesis
  proof (cases "read_turn env i (cn_reader cn) ?c (br_server b)")
    case (Inl e)
    with t show ?thesis by (simp add: read_step_def turn_ok_def)
  next
    case (Inr tn)
    show ?thesis
    proof (cases tn)
      case (Next r c sv)
      with t Inr have k: "shorter r (cn_reader cn)" "client_ok c sv" "cl_st c = StateConnected" "q_ext ?c c"
        "sv_turn i ?c c (br_server b) sv" by (simp_all add: turn_ok_def)
      have nd: "cl_st ?c \<noteq> StateDisconnected" using Inr Next read_turn_next_live by blast
      then have "queue_ok c (cn_writing cn)" by (rule queue_ok_ext [OF q k(4)])
      then have "conn_ok (br_next b) sv i (cn\<lparr>cn_reader := r, cn_client := c\<rparr>)"
        using k(2,3) lt src_ok_shorter [OF k(1) src] cn nd
        by (auto simp: conn_ok_def client_ok_def live_def has_session_def client_session_iff state_defs)
      from bridge_ok_set_conn [OF b _ this] k(3,5) Inr Next show ?thesis
        by (simp add: read_step_def state_defs)
    next
      case (Leave err c sv)
      with t Inr have k: "cl_inv c sv" "q_ext ?c c" "sv_turn i ?c c (br_server b) sv" by (simp_all add: turn_ok_def)
      have "queue_ok c (cn_writing cn)"
      proof (cases "cl_st ?c = StateDisconnected")
        case True
        then have "c = ?c" using Inr Leave by (simp add: read_turn_def)
        with q show ?thesis by simp
      next
        case False
        show ?thesis by (rule queue_ok_ext [OF q k(2) False])
      qed
      from disconnect_ok [OF b k(3,1) this, of "cn\<lparr>cn_reading := False\<rparr>" env err] src Inr Leave
      show ?thesis by (auto simp: read_step_def step_ok_def split: sum.splits)
    qed
  qed
qed

text \<open>The write loop can write every packet that a server sends.\<close>

lemma outgoing_writes: "outgoing p \<Longrightarrow> \<exists>w'. write_packet p w = Inr w'"
  by (cases p) (simp_all add: write_conn_ack_def write_publish_frame write_pub_ack_def write_sub_ack_frame
      write_unsub_ack_def write_ping_response_def)

lemma write_bulk_outgoing:
  "list_all outgoing ps \<Longrightarrow> \<exists>w'. write_bulk (ps @ qs) w = write_bulk qs w'"
proof (induction ps arbitrary: w)
  case Nil
  show ?case by (rule exI [of _ w]) simp
next
  case (Cons p ps)
  then have "p \<noteq> PDisconnect" by auto
  moreover obtain w1 where "write_packet p w = Inr w1" using Cons.prems outgoing_writes by auto
  ultimately show ?case using Cons.IH [of w1] Cons.prems by simp
qed

lemma write_bulk_queue:
  assumes q: "queue_ok c True" and qs: "cl_queue c = bulk @ rest"
  obtains go_on bs where "write_bulk bulk [] = Inr (go_on, bs)" "queue_ok (c\<lparr>cl_queue := rest\<rparr>) go_on"
    "cl_st c \<noteq> StateDisconnected \<Longrightarrow> go_on"
proof (cases "list_all outgoing bulk")
  case True
  then have "\<exists>bs. write_bulk bulk [] = Inr (True, bs)" using write_bulk_outgoing [of bulk "[]" "[]"] by simp
  moreover have "queue_ok (c\<lparr>cl_queue := rest\<rparr>) True"
  proof (cases "cl_st c = StateDisconnected")
    case False
    with q qs show ?thesis by (simp add: queue_ok_def)
  next
    case d: True
    with q obtain ps where ps: "bulk @ rest = ps @ [PDisconnect]" "list_all outgoing ps"
      by (auto simp: queue_ok_def qs)
    have "rest \<noteq> []" using ps True by (auto simp: list_all_iff)
    then obtain xs where "rest = xs @ [PDisconnect]" "ps = bulk @ xs"
      using ps(1) by (metis append_butlast_last_id append_assoc append1_eq_conv)
    with ps(2) d show ?thesis by (simp add: queue_ok_def)
  qed
  ultimately show ?thesis using that by blast
next
  case False
  then have d: "cl_st c = StateDisconnected" using q by (auto simp: queue_ok_def qs split: if_splits)
  with q obtain ps where ps: "bulk @ rest = ps @ [PDisconnect]" "list_all outgoing ps"
    by (auto simp: queue_ok_def qs)
  have "rest = []"
  proof (rule ccontr)
    assume "rest \<noteq> []"
    then obtain xs where "ps = bulk @ xs"
      using ps(1) by (metis append_butlast_last_id append_assoc append1_eq_conv)
    with ps(2) False show False by simp
  qed
  then have "bulk = ps @ [PDisconnect]" using ps(1) by simp
  then have "\<exists>bs. write_bulk bulk [] = Inr (False, bs)"
    using write_bulk_outgoing [OF ps(2), of "[PDisconnect]" "[]"] by auto
  moreover have "queue_ok (c\<lparr>cl_queue := rest\<rparr>) False" using d by (simp add: queue_ok_def)
  ultimately show ?thesis using that d by blast
qed

lemma write_batch_ok:
  assumes sv: "sv_ok sv" "wills_ok c" and q: "queue_ok c True"
  shows "case write_batch env werr c sv of
      Inl e \<Rightarrow> e = Diverges
    | Inr (bs, go_on, c', sv') \<Rightarrow> sv_keeps sv sv' \<and> queue_ok c' go_on
        \<and> cl_connect c' = cl_connect c \<and> cl_session c' = cl_session c \<and> cl_nats c' = cl_nats c
        \<and> (cl_st c' = cl_st c \<or> cl_st c' = StateDisconnected)"
proof -
  define bulk rest where "bulk = take 1024 (cl_queue c)" and "rest = drop 1024 (cl_queue c)"
  define c1 where "c1 = c\<lparr>cl_queue := rest\<rparr>"
  have qs: "cl_queue c = bulk @ rest" by (simp add: bulk_def rest_def)
  obtain go_on bs where w: "write_bulk bulk [] = Inr (go_on, bs)" and q1: "queue_ok c1 go_on"
    and go_on: "cl_st c \<noteq> StateDisconnected \<Longrightarrow> go_on"
    using write_bulk_queue [OF q qs] unfolding c1_def by blast
  have eq: "write_batch env werr c sv =
      (if bs = [] then Inr ([], go_on, c1, sv)
       else case werr of None \<Rightarrow> Inr (bs, go_on, c1, sv)
       | Some e \<Rightarrow> if go_on then
            (if cl_st c1 \<noteq> StateDisconnected \<and> length (cl_queue c1) \<ge> write_queue_size then Inl Diverges
             else case set_disconnected env (Some e) c1 sv of Inl e' \<Rightarrow> Inl e'
               | Inr (c2, sv1) \<Rightarrow> Inr (bs, False, c2, sv1))
          else Inr (bs, False, c1, sv))"
    using w unfolding write_batch_def Let_def bulk_def rest_def c1_def write_queue_size_def by simp
  have c1: "wills_ok c1" "cl_st c1 = cl_st c" "cl_connect c1 = cl_connect c" "cl_session c1 = cl_session c"
    "cl_nats c1 = cl_nats c" using sv(2) by (simp_all add: c1_def wills_ok_def)
  show ?thesis
  proof (cases "bs = [] \<or> werr = None \<or> \<not> go_on")
    case True
    with eq q1 c1 go_on show ?thesis by (cases werr) (auto simp: queue_ok_def)
  next
    case False
    then obtain e where e: "werr = Some e" "bs \<noteq> []" "go_on" by auto
    show ?thesis
    proof (cases "cl_st c = StateDisconnected")
      case True
      with eq e c1 show ?thesis by (simp add: set_disconnected_again queue_ok_def)
    next
      case False
      with set_disconnected_ok [OF sv(1) c1(1), of env "Some e"] c1 eq e show ?thesis
        by (auto simp: queue_ok_def split: sum.splits)
    qed
  qed
qed

lemma write_step_ok:
  assumes b: "bridge_ok b" "br_conns b i = Some cn" "cn_writing cn"
  shows "step_ok (write_step env werr i cn b)"
proof -
  let ?c = "cn_client cn"
  have cn: "conn_ok (br_next b) (br_server b) i cn" using bridge_ok_conn [OF b(1,2)] .
  then have "wills_ok ?c" "queue_ok ?c True" using b(3) by (simp_all add: conn_ok_def cl_inv_def)
  from write_batch_ok [OF _ this, of "br_server b" env werr] b(1)
  have w: "case write_batch env werr ?c (br_server b) of Inl e \<Rightarrow> e = Diverges
    | Inr (bs, go_on, c', sv') \<Rightarrow> sv_keeps (br_server b) sv' \<and> queue_ok c' go_on
        \<and> cl_connect c' = cl_connect ?c \<and> cl_session c' = cl_session ?c \<and> cl_nats c' = cl_nats ?c
        \<and> (cl_st c' = cl_st ?c \<or> cl_st c' = StateDisconnected)"
    by (simp add: bridge_ok_def)
  show ?thesis
  proof (cases "write_batch env werr ?c (br_server b)")
    case (Inl e)
    with w show ?thesis by (simp add: write_step_def known_crash_def)
  next
    case (Inr x)
    obtain bs go_on c' sv' where x: "x = (bs, go_on, c', sv')" by (metis prod_cases4)
    with Inr w have k: "sv_keeps (br_server b) sv'" "queue_ok c' go_on" "cl_connect c' = cl_connect ?c"
      "cl_session c' = cl_session ?c" "cl_nats c' = cl_nats ?c" "cl_st c' = cl_st ?c \<or> cl_st c' = StateDisconnected"
      by simp_all
    have "cl_inv c' sv'"
      using cn k by (auto simp: conn_ok_def cl_inv_def wills_ok_def has_session_def client_session_iff sv_keeps_def)
    then have "conn_ok (br_next b) sv' i (cn\<lparr>cn_client := c', cn_writing := go_on\<rparr>)"
      using cn k(2-6) by (auto simp: conn_ok_def state_defs)
    from bridge_ok_set_conn [OF b(1,2) _ this] k(1,6) Inr x show ?thesis
      by (auto simp: write_step_def state_defs)
  qed
qed

text \<open>The callbacks queue nothing for a client that is not connected.\<close>

lemma queue_for_write_closed: "cl_st c \<noteq> StateConnected \<Longrightarrow> queue_for_write p c = c"
  by (simp add: queue_for_write_def)

lemma callback_ok:
  assumes b: "bridge_ok b" "br_conns b i = Some cn"
    and c: "c_keeps (cn_client cn) c" "sv_keeps (br_server b) sv"
    and closed: "cl_st (cn_client cn) \<noteq> StateConnected \<Longrightarrow> c = cn_client cn"
  shows "bridge_ok (set_conn i (cn\<lparr>cn_client := c\<rparr>) sv b)"
proof -
  have cn: "conn_ok (br_next b) (br_server b) i cn" using bridge_ok_conn [OF b] .
  have inv: "cl_inv c sv" using cl_inv_keeps [OF _ c] cn by (simp add: conn_ok_def)
  have q: "queue_ok c (cn_writing cn)"
  proof (cases "cl_st (cn_client cn) = StateConnected")
    case True
    have "q_ext (cn_client cn) c" "queue_ok (cn_client cn) (cn_writing cn)"
      using c(1) cn by (simp_all add: c_keeps_def conn_ok_def)
    with True show ?thesis using queue_ok_ext by (simp add: state_defs)
  next
    case False
    with closed cn show ?thesis by (simp add: conn_ok_def)
  qed
  have "conn_ok (br_next b) sv i (cn\<lparr>cn_client := c\<rparr>)"
    using cn inv q c(1) by (simp add: conn_ok_def c_keeps_def)
  from bridge_ok_set_conn [OF b _ this] c show ?thesis by (simp add: c_keeps_def)
qed

lemma ack_step_ok:
  assumes "bridge_ok b" "br_conns b i = Some cn"
  shows "bridge_ok (ack_step env m i cn b)"
proof -
  obtain c sv where a: "on_ack env m (cn_client cn) (br_server b) = (c, sv)" by fastforce
  then have "cl_st (cn_client cn) \<noteq> StateConnected \<Longrightarrow> c = cn_client cn"
    by (auto simp: on_ack_def queue_for_write_closed split: option.splits if_splits)
  with callback_ok [OF assms] on_ack_keeps [OF a] a show ?thesis by (simp add: ack_step_def)
qed

lemma publish_response_closed:
  "publish_response q pp c sv = Inr (c', sv') \<Longrightarrow> cl_st c \<noteq> StateConnected \<Longrightarrow> c' = c"
  by (auto simp: publish_response_def queue_for_write_closed split: if_splits sum.splits)

lemma nats_response_closed:
  assumes "nats_response q m c sv = Inr (c', sv')" "cl_st c \<noteq> StateConnected"
  shows "c' = c"
proof -
  obtain q1 pp sv1 where "publish_response q1 pp c sv1 = Inr (c', sv')"
    using assms(1) unfolding nats_response_def Let_def by (auto split: sum.splits prod.splits)
  then show ?thesis using assms(2) by (rule publish_response_closed)
qed

lemma response_step_ok:
  assumes b: "bridge_ok b" "br_conns b i = Some cn" and s: "cl_session (cn_client cn) \<noteq> None"
  shows "step_ok (response_step q m i cn b)"
proof -
  have "has_session (cn_client cn) (br_server b)"
    using bridge_ok_conn [OF b] s by (simp add: conn_ok_def cl_inv_def)
  then have safe: "safe (cn_client cn) (br_server b) (nats_response q m (cn_client cn) (br_server b))"
    by (rule nats_response_safe)
  show ?thesis
  proof (cases "nats_response q m (cn_client cn) (br_server b)")
    case (Inl e)
    with safe show ?thesis by (simp add: response_step_def)
  next
    case (Inr x)
    obtain c sv where x: "x = (c, sv)" by fastforce
    have "c = cn_client cn" if "cl_st (cn_client cn) \<noteq> StateConnected"
      using Inr x that nats_response_closed by blast
    with callback_ok [OF b] safe Inr x show ?thesis by (simp add: response_step_def)
  qed
qed

text \<open>Steps of the server alone.\<close>

lemma bridge_ok_server:
  assumes "bridge_ok b" "sv_keeps (br_server b) sv"
  shows "bridge_ok (b\<lparr>br_server := sv\<rparr>)"
  using assms conn_ok_mono [of "br_next b" "br_server b" _ _ sv "br_next b"]
  by (auto simp: bridge_ok_def managed_ok_def sv_keeps_def)

lemma tick_step_ok:
  assumes "bridge_ok b" "sv_timer (br_server b)"
  shows "step_ok (tick_step env b)"
proof -
  have "sv_ok (br_server b)" using assms(1) by (simp add: bridge_ok_def)
  from republish_all_less [OF this, of env "awaits_ack_snapshot env (br_server b)"] obtain sv
    where t: "ack_check_tick env (br_server b) = Inr sv" "tracked_less (br_server b) sv"
    using assms(2) by (auto simp: ack_check_tick_def)
  then have "sv_keeps (br_server b) sv" by (simp add: tracked_less_def sv_keeps_def)
  with bridge_ok_server [OF assms(1)] t(1) show ?thesis by (simp add: tick_step_def)
qed

lemma sm_remove_keeps:
  assumes "sm_remove api enum cid (sv_sm sv) w = (m, w')"
  shows "sv_keeps sv (sv\<lparr>sv_sm := m, sv_world := w1\<rparr>)"
proof -
  have m: "m = fst (sm_remove api enum cid (sv_sm sv) w)" using assms by simp
  have d: "dom (sm_heap (sv_sm sv)) \<subseteq> dom (sm_heap m)"
    unfolding m by (auto simp: sm_remove_eq Let_def sm_update_def split: option.splits)
  then have "sv_ok sv \<Longrightarrow> sv_ok (sv\<lparr>sv_sm := m\<rparr>)"
    unfolding m by (intro sv_ok_sm sm_remove_ok sv_ok_sm_ok)
  with d show ?thesis by (simp add: sv_keeps_def)
qed

lemma serve_end_keeps: "sv_keeps sv (serve_end env c sv)"
proof -
  obtain sv1 where s1: "serve_end env c sv = (case cl_nats c of None \<Rightarrow> sv1 | Some nc \<Rightarrow> close_conn env nc sv1)"
    "sv_keeps sv sv1"
  proof (cases "\<exists>cp. cl_connect c = Some cp \<and> clean_session cp")
    case True
    then obtain cp where cp: "cl_connect c = Some cp" "clean_session cp" by blast
    obtain m w where "sm_remove (env_nats env) (env_enum env) (client_id cp) (sv_sm sv) (sv_world sv) = (m, w)"
      by fastforce
    with cp that sm_remove_keeps [OF this, of w] show ?thesis by (simp add: serve_end_def Let_def)
  next
    case False
    with that [of sv] show ?thesis by (auto simp: serve_end_def Let_def split: option.splits)
  qed
  then show ?thesis by (simp split: option.split)
qed

lemma unmanage_clients:
  assumes "distinct (sv_clients sv)"
  shows "distinct (sv_clients (unmanage_client i sv)) \<and> set (sv_clients (unmanage_client i sv)) = set (sv_clients sv) - {i}"
proof -
  let ?cs = "sv_clients (unmanage_client i sv)"
  have "mset ?cs = mset (remove1 i (sv_clients sv))"
    using unmanage_loop_mset [of i "sv_clients sv" 0] by (simp add: unmanage_client_def diff_single_trivial)
  then have "distinct ?cs = distinct (remove1 i (sv_clients sv))" "set ?cs = set (remove1 i (sv_clients sv))"
    by (metis mset_eq_imp_distinct_iff, metis mset_eq_setD)
  with assms show ?thesis by simp
qed

lemma end_step_ok:
  assumes "bridge_ok b"
  shows "bridge_ok (end_step env i cn b)"
proof -
  let ?sv = "serve_end env (cn_client cn) (br_server b)"
  have b: "bridge_ok (b\<lparr>br_server := ?sv\<rparr>)" using bridge_ok_server [OF assms serve_end_keeps] .
  then have d: "distinct (sv_clients ?sv)" by (simp add: bridge_ok_def managed_ok_def)
  have "conn_ok n (unmanage_client i ?sv) j cj = conn_ok n ?sv j cj" for n j cj
    by (simp add: conn_ok_def cl_inv_def has_session_def client_session_iff unmanage_client_def)
  moreover have "sv_ok (unmanage_client i ?sv) = sv_ok ?sv" by (simp add: unmanage_client_def)
  ultimately show ?thesis
    using b unmanage_clients [OF d, of i] by (auto simp: bridge_ok_def managed_ok_def end_step_def)
qed

lemma drain_start_ok: "bridge_ok b \<Longrightarrow> bridge_ok (drain_start b)"
  by (auto simp: bridge_ok_def managed_ok_def drain_start_def conn_ok_def cl_inv_def has_session_def client_session_iff)

lemma drain_one_ok:
  assumes "bridge_ok b" "br_draining b \<noteq> []"
  shows "step_ok (drain_one env b)"
proof -
  have tl: "bridge_ok b' \<Longrightarrow> br_draining b' = i # is \<Longrightarrow> bridge_ok (b'\<lparr>br_draining := is\<rparr>)" for b' :: "'a bridge" and i "is"
    by (simp add: bridge_ok_def managed_ok_def)
  obtain i "is" where dr: "br_draining b = i # is" using assms(2) by (cases "br_draining b") auto
  show ?thesis
  proof (cases "br_conns b i")
    case None
    with dr tl [OF assms(1) dr] show ?thesis by (simp add: drain_one_def)
  next
    case (Some cn)
    have cn: "conn_ok (br_next b) (br_server b) i cn" using bridge_ok_conn [OF assms(1) Some] .
    then have "cl_inv (cn_client cn) (br_server b)" "queue_ok (cn_client cn) (cn_writing cn)" "src_ok (cn_reader cn)"
      by (simp_all add: conn_ok_def)
    from disconnect_ok [OF assms(1) Some _ this, of env None] have
      d: "case set_disconnected env None (cn_client cn) (br_server b) of Inl e \<Rightarrow> known_crash e
        | Inr (c2, sv2) \<Rightarrow> bridge_ok (set_conn i (cn\<lparr>cn_client := c2\<rparr>) sv2 b)" by simp
    have "br_draining (set_conn i cn' sv b) = i # is" for cn' sv by (simp add: set_conn_def dr)
    with d tl show ?thesis by (auto simp: drain_one_def dr Some split: sum.splits)
  qed
qed

lemma new_bridge_ok: "bridge_ok (new_bridge uid w)"
proof -
  have "sv_clients (new_server uid w) = []" by (simp add: new_server_def split: prod.split)
  then show ?thesis by (simp add: bridge_ok_def new_bridge_def managed_ok_def new_server_ok)
qed

lemma bridge_step_ok: "bridge_step env b x \<Longrightarrow> bridge_ok b \<Longrightarrow> step_ok x"
  by (induction rule: bridge_step.induct)
    (auto simp: accept_ok read_step_ok write_step_ok ack_step_ok response_step_ok tick_step_ok end_step_ok
      drain_start_ok drain_one_ok)

lemma bridge_reach_ok: "bridge_reach env b x \<Longrightarrow> bridge_ok b \<Longrightarrow> step_ok x"
  by (induction rule: bridge_reach.induct) (auto intro: bridge_step_ok)

section \<open>Properties\<close>



text \<open>C28: No connection gets stuck in its write loop: whenever the read loop of a connection has ended and
  its write loop still runs, the queue ends with the packet that ends the write loop, which then
  sends all packets before it, in order, and stops.\<close>

theorem write_loop_ends:
  assumes "bridge_reach env (new_bridge uid w) (Inr b)" "br_conns b i = Some cn"
    and "\<not> cn_reading cn" "cn_writing cn" "list_all packet_ok (cl_queue (cn_client cn))"
  shows "\<exists>ps. cl_queue (cn_client cn) = ps @ [PDisconnect]
    \<and> write_loop (length (cl_queue (cn_client cn))) env (cn_client cn) (br_server b)
      = Inr (concat (map packet_bytes ps), False, (cn_client cn)\<lparr>cl_queue := []\<rparr>, br_server b)"
proof -
  have "bridge_ok b" using bridge_reach_ok [OF assms(1) new_bridge_ok] by simp
  from bridge_ok_conn [OF this assms(2)] assms(3,4) obtain ps
    where ps: "cl_queue (cn_client cn) = ps @ [PDisconnect]" "list_all outgoing ps"
    by (auto simp: conn_ok_def queue_ok_def)
  have "PDisconnect \<notin> set ps" using ps(2) by (fastforce simp: list_all_iff)
  with write_loop_flushes [of "cn_client cn" ps "length (cl_queue (cn_client cn))" env "br_server b"] ps(1) assms(5)
  show ?thesis by auto
qed

definition demo_ended :: "nats_call list bridge" where
  "demo_ended = set_conn 0 \<lparr>cn_reader = slice_reader [], cn_client = closed (Some EOF) new_client,
     cn_reading = False, cn_writing = True\<rparr> (new_server ''u'' []) (accept_conn (slice_reader []) (new_bridge ''u'' []))"

lemma demo_ended_reached: "bridge_reach log_env (new_bridge ''u'' []) (Inr demo_ended)"
proof -
  let ?b = "accept_conn (slice_reader []) (new_bridge ''u'' ([] :: nats_call list))"
  let ?cn = "new_connection (slice_reader [])"
  have c: "br_conns ?b 0 = Some ?cn" by (simp add: accept_conn_def new_bridge_def)
  have "cl_st new_client \<noteq> StateDisconnected" "cl_connect new_client = None"
    by (simp_all add: new_client_def state_defs)
  then have "read_step log_env 0 ?cn ?b = Inr demo_ended"
    by (simp add: read_step_def new_connection_def read_turn_eof [where e = EOF] read_byte_def src_err_def
        set_disconnected_no_will demo_ended_def)
      (simp add: accept_conn_def new_bridge_def)
  moreover have "bridge_step log_env ?b (read_step log_env 0 ?cn ?b)"
  proof (rule bridge_step.Read [OF c])
    show "cn_reading ?cn" by (simp add: new_connection_def)
    show "sm_next (sv_sm (br_server ?b)) < 2 ^ 32 - 1"
      by (simp add: accept_conn_def new_bridge_def new_server_sm sm_create_def new_sm_def Let_def)
  qed
  moreover have "bridge_reach log_env (new_bridge ''u'' []) (Inr ?b)"
    by (rule bridge_reach.Step [OF bridge_reach.Start]) (rule bridge_step.Accept, simp)
  ultimately show ?thesis using bridge_reach.Step by metis
qed

theorem write_loop_ends_witness:
  "\<exists>c. write_loop 1 log_env (closed (Some EOF) new_client) (new_server ''u'' []) = Inr ([], False, c, new_server ''u'' [])"
proof -
  let ?cn = "\<lparr>cn_reader = slice_reader [], cn_client = closed (Some EOF) new_client, cn_reading = False, cn_writing = True\<rparr>"
  have q: "cl_queue (closed (Some EOF) new_client) = [PDisconnect]" by (simp add: closed_def new_client_def)
  have "br_conns demo_ended 0 = Some ?cn" "br_server demo_ended = new_server ''u'' []"
    by (simp_all add: demo_ended_def set_conn_def)
  with write_loop_ends [OF demo_ended_reached, of 0 ?cn] q obtain ps where
    "[PDisconnect] = ps @ [PDisconnect]"
    "write_loop (length [PDisconnect]) log_env (closed (Some EOF) new_client) (new_server ''u'' [])
      = Inr (concat (map packet_bytes ps), False, (closed (Some EOF) new_client)\<lparr>cl_queue := []\<rparr>, new_server ''u'' [])"
    by (auto simp del: write_loop.simps)
  then show ?thesis by (auto simp del: write_loop.simps)
qed

text \<open>C40: The shutdown disconnects the clients of its list only: a connection that has not sent a CONNECT
  packet is never in the list, no step of the shutdown touches it, and no deadline is set on its
  reads, so the shutdown, which waits for all connections, waits as long as the peer likes.\<close>

theorem shutdown_skips_unconnected:
  assumes "bridge_reach env (new_bridge uid w) (Inr b)" "br_conns b i = Some cn"
    and "cl_st (cn_client cn) = StateInfant" "drain_one env b = Inr b'"
  shows "i \<notin> set (sv_clients (br_server b)) \<and> i \<notin> set (br_draining b)
    \<and> br_conns (drain_start b) i = Some cn \<and> br_conns b' i = Some cn"
proof -
  have "bridge_ok b" using bridge_reach_ok [OF assms(1) new_bridge_ok] by simp
  then have no: "i \<notin> set (sv_clients (br_server b))" "i \<notin> set (br_draining b)"
    using assms(2,3) by (auto simp: bridge_ok_def managed_ok_def)
  moreover have "br_conns b' i = Some cn"
    using assms(2,4) no(2)
    by (auto simp: drain_one_def set_conn_def split: list.splits option.splits sum.splits)
  ultimately show ?thesis using assms(2) by (simp add: drain_start_def)
qed

theorem shutdown_skips_unconnected_witness:
  "br_conns (drain_start (accept_conn (slice_reader []) (new_bridge ''u'' ([] :: nats_call list)))) 0
     = Some (new_connection (slice_reader []))"
proof -
  let ?b = "accept_conn (slice_reader []) (new_bridge ''u'' ([] :: nats_call list))"
  have r: "bridge_reach log_env (new_bridge ''u'' []) (Inr ?b)"
    by (rule bridge_reach.Step [OF bridge_reach.Start]) (rule bridge_step.Accept, simp)
  have "br_conns ?b 0 = Some (new_connection (slice_reader []))" "br_draining ?b = []"
    "cl_st (cn_client (new_connection (slice_reader []))) = StateInfant"
    by (simp_all add: accept_conn_def new_bridge_def new_connection_def new_client_def)
  with shutdown_skips_unconnected [OF r, of 0] show ?thesis by (simp add: drain_one_def)
qed

text \<open>A tick that has fired before the shutdown stops the timer finds it gone.\<close>

theorem late_tick_panics: "ack_check_tick env (drain_end env sv) = Inl (Panic ''nil timer'')"
  by (simp add: ack_check_tick_def drain_end_def close_conn_def Let_def split: option.split)

end
