(* ===== verification/Base64.thy ===== *)
theory Base64
  imports Bridge_Prelude
begin

text \<open>
  The standard base64 encoding of the Go library (\<open>base64.StdEncoding\<close>), which the program uses
  for payloads and passwords in JSON: \<open>EncodeToString\<close> with padding, and \<open>DecodeString\<close>, which
  skips line breaks and rejects every other character outside the alphabet, missing or wrong
  padding, and anything after the padding.
\<close>

definition b64_alphabet :: string where
  "b64_alphabet = ''ABCDEFGHIJKLMNOPQRSTUVWXYZabcdefghijklmnopqrstuvwxyz0123456789+/''"

definition b64_char :: "nat \<Rightarrow> char" where
  "b64_char n = b64_alphabet ! n"

definition b64_value :: "char \<Rightarrow> nat option" where
  "b64_value c = (if c \<in> set b64_alphabet then Some (length (takeWhile (\<lambda>x. x \<noteq> c) b64_alphabet)) else None)"

text \<open>The four characters of a value of 24 bits.\<close>

definition b64_chars :: "nat \<Rightarrow> char \<times> char \<times> char \<times> char" where
  "b64_chars v = (b64_char (v div 2 ^ 18 mod 64), b64_char (v div 2 ^ 12 mod 64),
     b64_char (v div 2 ^ 6 mod 64), b64_char (v mod 64))"

fun b64_encode :: "byte list \<Rightarrow> string" where
  "b64_encode [] = []"
| "b64_encode [a] =
     (case b64_chars (unat a * 2 ^ 16) of (p, q, _) \<Rightarrow> [p, q, CHR ''='', CHR ''=''])"
| "b64_encode [a, b] =
     (case b64_chars (unat a * 2 ^ 16 + unat b * 2 ^ 8) of (p, q, r, _) \<Rightarrow> [p, q, r, CHR ''=''])"
| "b64_encode (a # b # c # bs) =
     (case b64_chars (unat a * 2 ^ 16 + unat b * 2 ^ 8 + unat c) of
        (p, q, r, s) \<Rightarrow> p # q # r # s # b64_encode bs)"

fun b64_quanta :: "string \<Rightarrow> byte list option" where
  "b64_quanta [] = Some []"
| "b64_quanta (p # q # r # s # cs) =
     (case (b64_value p, b64_value q) of
        (Some x, Some y) \<Rightarrow>
          (let v = x * 2 ^ 18 + y * 2 ^ 12
           in if r = CHR ''='' then
                if s = CHR ''='' \<and> cs = [] then Some [word_of_nat (v div 2 ^ 16)] else None
              else case b64_value r of
                  None \<Rightarrow> None
                | Some z \<Rightarrow>
                    (let v = v + z * 2 ^ 6
                     in if s = CHR ''='' then
                          if cs = [] then Some [word_of_nat (v div 2 ^ 16), word_of_nat (v div 2 ^ 8)] else None
                        else case b64_value s of
                            None \<Rightarrow> None
                          | Some u \<Rightarrow>
                              (let v = v + u
                               in case b64_quanta cs of
                                    None \<Rightarrow> None
                                  | Some bs \<Rightarrow>
                                      Some (word_of_nat (v div 2 ^ 16) # word_of_nat (v div 2 ^ 8)
                                            # word_of_nat v # bs))))
      | _ \<Rightarrow> None)"
| "b64_quanta _ = None"

definition b64_decode :: "string \<Rightarrow> byte list option" where
  "b64_decode s = b64_quanta (filter (\<lambda>c. (of_char c :: nat) \<noteq> 10 \<and> (of_char c :: nat) \<noteq> 13) s)"

section \<open>The alphabet\<close>

lemma length_takeWhile_nth:
  "distinct xs \<Longrightarrow> n < length xs \<Longrightarrow> length (takeWhile (\<lambda>x. x \<noteq> xs ! n) xs) = n"
proof (induction xs arbitrary: n)
  case (Cons x xs)
  then show ?case by (cases n) auto
qed simp

lemma length_alphabet [simp]: "length b64_alphabet = 64"
  by (simp add: b64_alphabet_def)

lemma distinct_alphabet: "distinct b64_alphabet"
  by (simp add: b64_alphabet_def)

lemma b64_char_in: "n < 64 \<Longrightarrow> b64_char n \<in> set b64_alphabet"
  by (simp add: b64_char_def)

lemma b64_value_char [simp]: "n < 64 \<Longrightarrow> b64_value (b64_char n) = Some n"
  using length_takeWhile_nth [OF distinct_alphabet, of n] b64_char_in [of n]
  by (simp add: b64_value_def) (simp add: b64_char_def)

lemma alphabet_special: "c \<in> set b64_alphabet \<Longrightarrow> c \<noteq> CHR ''='' \<and> 43 \<le> (of_char c :: nat) \<and> (of_char c :: nat) < 128"
  by (auto simp: b64_alphabet_def)

lemma b64_char_pad [simp]: "n < 64 \<Longrightarrow> b64_char n \<noteq> CHR ''=''"
  using alphabet_special [OF b64_char_in] by simp

lemma b64_encode_chars: "c \<in> set (b64_encode bs) \<Longrightarrow> c \<in> set b64_alphabet \<or> c = CHR ''=''"
  by (induction bs rule: b64_encode.induct) (auto simp: b64_chars_def b64_char_in)

lemma b64_encode_ascii: "c \<in> set (b64_encode bs) \<Longrightarrow> 43 \<le> (of_char c :: nat) \<and> (of_char c :: nat) < 128"
  using b64_encode_chars [of c bs] alphabet_special [of c] by auto

section \<open>Round trip\<close>

lemma sextets:
  fixes v :: nat
  assumes "v < 16777216"
  shows "v div 262144 mod 64 * 262144 + v div 4096 mod 64 * 4096 + v div 64 mod 64 * 64 + v mod 64 = v"
proof -
  have d: "v div 4096 = v div 64 div 64" "v div 262144 = v div 64 div 64 div 64"
    by (simp_all add: div_mult2_eq [symmetric])
  have lt: "v div 64 div 64 div 64 < 64" using assms by (simp add: div_mult2_eq [symmetric] less_mult_imp_div_less)
  have split: "n div 64 * 64 + n mod 64 = n" for n :: nat by simp
  have "v div 64 div 64 div 64 * 262144 + v div 64 div 64 mod 64 * 4096 + v div 64 mod 64 * 64 + v mod 64 = v"
    using split [of v] split [of "v div 64"] split [of "v div 64 div 64"] by linarith
  with lt show ?thesis unfolding d by (simp only: mod_less)
qed

lemma byte_of_mod: "n mod 256 = unat (b :: byte) \<Longrightarrow> word_of_nat n = b"
  by (simp add: word_unat_eq_iff unat_of_nat)

lemma octet_parts:
  assumes "a < 256" "b < 256" "c < (256 :: nat)"
  shows "(a * 65536 + b * 256 + c) div 65536 = a" "(a * 65536 + b * 256 + c) div 256 mod 256 = b"
    "(a * 65536 + b * 256 + c) mod 256 = c"
proof -
  have "b * 256 + c < 65536" using assms by linarith
  then show "(a * 65536 + b * 256 + c) div 65536 = a"
    using div_mult_self3 [of 65536 a "b * 256 + c"] by (simp add: add.assoc)
  have e: "a * 65536 + b * 256 + c = (a * 256 + b) * 256 + c" by (simp add: algebra_simps)
  show "(a * 65536 + b * 256 + c) mod 256 = c" unfolding e using assms by (simp only: mod_mult_self3 mod_less)
  have "(a * 65536 + b * 256 + c) div 256 = a * 256 + b"
    unfolding e using assms div_mult_self3 [of 256 "a * 256 + b" c] by simp
  then show "(a * 65536 + b * 256 + c) div 256 mod 256 = b" using assms by (simp only: mod_mult_self3 mod_less)
qed

lemma octets:
  fixes a b c :: byte
  defines "v \<equiv> unat a * 65536 + unat b * 256 + unat c"
  shows "v < 16777216" "word_of_nat (v div 65536) = a" "word_of_nat (v div 256) = b" "word_of_nat v = c"
proof -
  have lt: "unat a < 256" "unat b < 256" "unat c < 256" by simp_all
  then show "v < 16777216" unfolding v_def by linarith
  from octet_parts [OF lt, folded v_def]
  show "word_of_nat (v div 65536) = a" "word_of_nat (v div 256) = b" "word_of_nat v = c"
    by (auto intro: byte_of_mod)
qed

lemma low_sextets:
  "a * 65536 div 64 mod 64 = (0 :: nat)" "a * 65536 mod 64 = (0 :: nat)" "(a * 65536 + b * 256) mod 64 = (0 :: nat)"
proof -
  have e: "a * 65536 = a * 1024 * 64" "a * 1024 = a * 16 * 64" "a * 1024 * 64 + b * 256 = (a * 1024 + b * 4) * 64"
    by (simp_all add: algebra_simps)
  show "a * 65536 div 64 mod 64 = 0" "a * 65536 mod 64 = 0" "(a * 65536 + b * 256) mod 64 = 0"
    unfolding e(1) e(3) by (simp_all only: nonzero_mult_div_cancel_right mod_mult_self2_is_0 e(2))
qed

lemma quanta_sextets:
  assumes "x < 64" "y < 64" "z < 64" "u < 64"
  shows "b64_quanta [b64_char x, b64_char y, CHR ''='', CHR ''='']
      = Some [word_of_nat ((x * 262144 + y * 4096) div 65536)]"
    and "b64_quanta [b64_char x, b64_char y, b64_char z, CHR ''='']
      = Some [word_of_nat ((x * 262144 + y * 4096 + z * 64) div 65536),
          word_of_nat ((x * 262144 + y * 4096 + z * 64) div 256)]"
    and "b64_quanta cs = Some bs \<Longrightarrow> b64_quanta (b64_char x # b64_char y # b64_char z # b64_char u # cs)
      = Some (word_of_nat ((x * 262144 + y * 4096 + z * 64 + u) div 65536)
          # word_of_nat ((x * 262144 + y * 4096 + z * 64 + u) div 256)
          # word_of_nat (x * 262144 + y * 4096 + z * 64 + u) # bs)"
  using assms by (simp_all add: Let_def)

lemma quanta_chars:
  assumes "v < 16777216" "b64_chars v = (p, q, r, s)"
  shows "v div 64 mod 64 = 0 \<Longrightarrow> v mod 64 = 0 \<Longrightarrow> b64_quanta [p, q, CHR ''='', CHR ''=''] = Some [word_of_nat (v div 65536)]"
    and "v mod 64 = 0 \<Longrightarrow> b64_quanta [p, q, r, CHR ''='']
      = Some [word_of_nat (v div 65536), word_of_nat (v div 256)]"
    and "b64_quanta cs = Some bs \<Longrightarrow> b64_quanta (p # q # r # s # cs)
      = Some (word_of_nat (v div 65536) # word_of_nat (v div 256) # word_of_nat v # bs)"
proof -
  define x y z u where xs: "x = v div 262144 mod 64" "y = v div 4096 mod 64" "z = v div 64 mod 64" "u = v mod 64"
  have lt: "x < 64" "y < 64" "z < 64" "u < 64" by (simp_all add: xs)
  have v: "x * 262144 + y * 4096 + z * 64 + u = v" unfolding xs by (rule sextets [OF assms(1)])
  have c: "p = b64_char x" "q = b64_char y" "r = b64_char z" "s = b64_char u"
    using assms(2) by (simp_all add: b64_chars_def xs)
  note q = quanta_sextets [OF lt, unfolded v, folded c]
  show "b64_quanta [p, q, CHR ''='', CHR ''=''] = Some [word_of_nat (v div 65536)]"
    if "v div 64 mod 64 = 0" "v mod 64 = 0"
    using q(1) v that [folded xs] by simp
  show "b64_quanta [p, q, r, CHR ''=''] = Some [word_of_nat (v div 65536), word_of_nat (v div 256)]"
    if "v mod 64 = 0"
    using q(2) v that [folded xs] by simp
  show "b64_quanta (p # q # r # s # cs) = Some (word_of_nat (v div 65536) # word_of_nat (v div 256) # word_of_nat v # bs)"
    if "b64_quanta cs = Some bs"
    using that by (rule q(3))
qed

lemma quanta_encode: "b64_quanta (b64_encode bs) = Some bs"
proof (induction bs rule: b64_encode.induct)
  case (2 a)
  obtain p q r s where c: "b64_chars (unat a * 65536) = (p, q, r, s)" by (metis prod_cases4)
  show ?case using quanta_chars(1) [OF _ c] octets(1,2) [of a 0 0] low_sextets [of "unat a"] c by simp
next
  case (3 a b)
  obtain p q r s where c: "b64_chars (unat a * 65536 + unat b * 256) = (p, q, r, s)" by (metis prod_cases4)
  show ?case using quanta_chars(2) [OF _ c] octets(1-3) [of a b 0] low_sextets(3) [of "unat a" "unat b"] c by simp
next
  case (4 a b c bs)
  obtain p q r s where d: "b64_chars (unat a * 65536 + unat b * 256 + unat c) = (p, q, r, s)" by (metis prod_cases4)
  have "b64_quanta (b64_encode bs) = Some bs" using 4 by (simp add: d)
  from quanta_chars(3) [OF octets(1) d this] octets(2-4) [of a b c] d show ?case by simp
qed simp

theorem b64_round_trip: "b64_decode (b64_encode bs) = Some bs"
proof -
  have "filter (\<lambda>c. (of_char c :: nat) \<noteq> 10 \<and> (of_char c :: nat) \<noteq> 13) (b64_encode bs) = b64_encode bs"
    using b64_encode_ascii [of _ bs] by (subst filter_id_conv) fastforce
  then show ?thesis by (simp add: b64_decode_def quanta_encode)
qed

end
