(* ===== verification/Json.thy ===== *)
theory Json
  imports Wire Decimal Utf8 Base64
begin

text \<open>
  The JSON form in which the bridge is persisted.  The streaming packages (\<open>catch/pio\<close> and
  \<open>jsonstream\<close>) are not part of the repository: they are a record of functions over an abstract
  decoder \<open>'d\<close>, with what the bridge relies on as the named hypothesis \<open>json_library\<close>.  The
  interface \<open>persistent\<close> is the contract of a type that is both a \<open>jsonstream.Streamer\<close> and a
  \<open>jsonstream.Consumer\<close>.
\<close>

section \<open>Documents and tokens\<close>

datatype token = TDelim char | TString string | TInt int | TFloat string | TBool bool | TNull

datatype doc = Str string | Num int | Obj "(string \<times> doc) list" | Arr "doc list"

abbreviation obj_open :: token where "obj_open \<equiv> TDelim CHR ''{''"
abbreviation obj_close :: token where "obj_close \<equiv> TDelim CHR ''}''"
abbreviation arr_open :: token where "arr_open \<equiv> TDelim CHR ''[''"
abbreviation arr_close :: token where "arr_close \<equiv> TDelim CHR '']''"

text \<open>The tokens of a document: commas and colons are left out.\<close>

fun tokens :: "doc \<Rightarrow> token list" where
  "tokens (Str s) = [TString s]"
| "tokens (Num n) = [TInt n]"
| "tokens (Obj ms) = obj_open # concat (map (\<lambda>(k, v). TString k # tokens v) ms) @ [obj_close]"
| "tokens (Arr vs) = arr_open # concat (map tokens vs) @ [arr_close]"

abbreviation member_tokens :: "(string \<times> doc) list \<Rightarrow> token list" where
  "member_tokens ms \<equiv> concat (map (\<lambda>(k, v). TString k # tokens v) ms)"

text \<open>What JSON can carry: strings that are valid UTF-8, and integers of 64 bits.\<close>

abbreviation text_ok :: "string \<Rightarrow> bool" where "text_ok \<equiv> valid_string"

fun doc_ok :: "doc \<Rightarrow> bool" where
  "doc_ok (Str s) = text_ok s"
| "doc_ok (Num n) = (- (2 ^ 63) \<le> n \<and> n < 2 ^ 63)"
| "doc_ok (Obj ms) = (\<forall>m \<in> set ms. text_ok (fst m) \<and> doc_ok (snd m))"
| "doc_ok (Arr vs) = (\<forall>v \<in> set vs. doc_ok v)"

section \<open>The packages that are not part of the repository\<close>

text \<open>
  Writing: \<open>pio.WriteString\<close>, \<open>pio.WriteByte\<close>, \<open>pio.WriteInt\<close> and \<open>jsonstream.WriteString\<close>.
  Reading: \<open>jsonstream.NewDecoder\<close> on a file, \<open>AssertDelim\<close>, and the methods of its \<open>Decoder\<close>;
  a panic of them with a \<open>catch.Error\<close>, which \<open>catch.Do\<close> turns into an error, is an error.
  \<open>js_next\<close> is what \<open>ReadConsumer\<close> does before it hands the first token to the consumer, and
  \<open>js_next_or_end\<close> likewise for \<open>ReadConsumerOrEnd\<close>.
\<close>

record 'd json =
  js_text :: "string \<Rightarrow> writer \<Rightarrow> writer"
  js_byte :: "byte \<Rightarrow> writer \<Rightarrow> writer"
  js_int :: "int \<Rightarrow> writer \<Rightarrow> writer"
  js_quoted :: "string \<Rightarrow> writer \<Rightarrow> writer"
  js_decoder :: "byte list \<Rightarrow> 'd"
  js_assert :: "token \<Rightarrow> char \<Rightarrow> go_error option"
  js_next :: "'d \<Rightarrow> go_error + token \<times> 'd"
  js_next_or_end :: "char \<Rightarrow> 'd \<Rightarrow> go_error + token option \<times> 'd"
  js_read_string :: "'d \<Rightarrow> go_error + string \<times> 'd"
  js_read_string_or_end :: "char \<Rightarrow> 'd \<Rightarrow> go_error + string option \<times> 'd"
  js_read_int :: "'d \<Rightarrow> go_error + int \<times> 'd"
  js_read_int_or_end :: "char \<Rightarrow> 'd \<Rightarrow> go_error + int option \<times> 'd"
  js_read_delim :: "char \<Rightarrow> 'd \<Rightarrow> go_error + unit \<times> 'd"

text \<open>The text of a document, given how strings are quoted.\<close>

fun render :: "'d json \<Rightarrow> doc \<Rightarrow> byte list" where
  "render js (Str s) = js_quoted js s []"
| "render js (Num n) = bytes_of (itoa n)"
| "render js (Obj ms) = bytes_of ''{''
     @ join_with (byte_of_char CHR '','') (map (\<lambda>(k, v). js_quoted js k [] @ bytes_of '':'' @ render js v) ms)
     @ bytes_of ''}''"
| "render js (Arr vs) = bytes_of ''['' @ join_with (byte_of_char CHR '','') (map (render js) vs) @ bytes_of '']''"

text \<open>A string of letters and digits is quoted as it is.\<close>

definition plain_char :: "char \<Rightarrow> bool" where
  "plain_char c \<longleftrightarrow> (let n = of_char c :: nat in 48 \<le> n \<and> n \<le> 57 \<or> 65 \<le> n \<and> n \<le> 90 \<or> 97 \<le> n \<and> n \<le> 122)"

definition plain :: "string \<Rightarrow> bool" where
  "plain s \<longleftrightarrow> list_all plain_char s"

definition writes_text :: "'d json \<Rightarrow> bool" where
  "writes_text js \<longleftrightarrow> (\<forall>s w. js_text js s w = w @ bytes_of s) \<and> (\<forall>b w. js_byte js b w = w @ [b])
     \<and> (\<forall>n w. js_int js n w = w @ bytes_of (itoa n)) \<and> (\<forall>s w. js_quoted js s w = w @ js_quoted js s [])
     \<and> (\<forall>s. plain s \<longrightarrow> js_quoted js s [] = bytes_of (''\"'' @ s @ ''\"''))"

text \<open>\<open>consumes toks rd ts x ts'\<close>: in front of the tokens \<open>ts\<close>, \<open>rd\<close> returns \<open>x\<close> and leaves \<open>ts'\<close>.\<close>

definition consumes ::
  "('d \<Rightarrow> token list) \<Rightarrow> ('d \<Rightarrow> go_error + 'a \<times> 'd) \<Rightarrow> token list \<Rightarrow> 'a \<Rightarrow> token list \<Rightarrow> bool" where
  "consumes toks rd ts x ts' \<longleftrightarrow> (\<forall>d. toks d = ts \<longrightarrow> (\<exists>d'. rd d = Inr (x, d') \<and> toks d' = ts'))"

definition reads_tokens :: "'d json \<Rightarrow> ('d \<Rightarrow> token list) \<Rightarrow> bool" where
  "reads_tokens js toks \<longleftrightarrow>
     (\<forall>s ts. consumes toks (js_read_string js) (TString s # ts) s ts)
   \<and> (\<forall>c s ts. consumes toks (js_read_string_or_end js c) (TString s # ts) (Some s) ts)
   \<and> (\<forall>c ts. consumes toks (js_read_string_or_end js c) (TDelim c # ts) None ts)
   \<and> (\<forall>n ts. consumes toks (js_read_int js) (TInt n # ts) n ts)
   \<and> (\<forall>c n ts. consumes toks (js_read_int_or_end js c) (TInt n # ts) (Some n) ts)
   \<and> (\<forall>c ts. consumes toks (js_read_int_or_end js c) (TDelim c # ts) None ts)
   \<and> (\<forall>c ts. consumes toks (js_read_delim js c) (TDelim c # ts) () ts)
   \<and> (\<forall>t ts. consumes toks (js_next js) (t # ts) t ts)
   \<and> (\<forall>c t ts. t \<noteq> TDelim c \<longrightarrow> consumes toks (js_next_or_end js c) (t # ts) (Some t) ts)
   \<and> (\<forall>c ts. consumes toks (js_next_or_end js c) (TDelim c # ts) None ts)
   \<and> (\<forall>c. js_assert js (TDelim c) c = None)"

definition reads_documents :: "'d json \<Rightarrow> ('d \<Rightarrow> token list) \<Rightarrow> bool" where
  "reads_documents js toks \<longleftrightarrow> (\<forall>v. doc_ok v \<longrightarrow> toks (js_decoder js (render js v)) = tokens v)"

text \<open>
  What the bridge relies on: the writers append the text they are given, and a decoder on the
  text of a document hands out its tokens one at a time.
\<close>

definition json_library :: "'d json \<Rightarrow> ('d \<Rightarrow> token list) \<Rightarrow> bool" where
  "json_library js toks \<longleftrightarrow> writes_text js \<and> reads_tokens js toks \<and> reads_documents js toks"

section \<open>Reading loops\<close>

text \<open>
  \<open>for { k, ok := next(); if !ok { break }; ... }\<close>: the loops over the members of an object and
  the elements of an array.  An abstract decoder may never end one, which is \<open>Diverges\<close>.
\<close>

partial_function (option) read_loop_until ::
  "('d \<Rightarrow> go_error + 'k option \<times> 'd) \<Rightarrow> ('k \<Rightarrow> 'a \<Rightarrow> 'd \<Rightarrow> go_error + 'a \<times> 'd) \<Rightarrow> 'a \<Rightarrow> 'd
   \<Rightarrow> (go_error + 'a \<times> 'd) option" where
  "read_loop_until item step a d =
     (case item d of
        Inl e \<Rightarrow> Some (Inl e)
      | Inr (None, d1) \<Rightarrow> Some (Inr (a, d1))
      | Inr (Some k, d1) \<Rightarrow>
          (case step k a d1 of
             Inl e \<Rightarrow> Some (Inl e)
           | Inr (a1, d2) \<Rightarrow> read_loop_until item step a1 d2))"

definition read_until ::
  "('d \<Rightarrow> go_error + 'k option \<times> 'd) \<Rightarrow> ('k \<Rightarrow> 'a \<Rightarrow> 'd \<Rightarrow> go_error + 'a \<times> 'd) \<Rightarrow> 'a \<Rightarrow> 'd
   \<Rightarrow> go_error + 'a \<times> 'd" where
  "read_until item step a d = (case read_loop_until item step a d of None \<Rightarrow> Inl Diverges | Some res \<Rightarrow> res)"

lemma read_until_unfold:
  "read_until item step a d =
     (case item d of
        Inl e \<Rightarrow> Inl e
      | Inr (None, d1) \<Rightarrow> Inr (a, d1)
      | Inr (Some k, d1) \<Rightarrow>
          (case step k a d1 of Inl e \<Rightarrow> Inl e | Inr (a1, d2) \<Rightarrow> read_until item step a1 d2))"
  by (simp add: read_until_def read_loop_until.simps [of item step a d] split: sum.split prod.split option.split)

text \<open>Sequencing, and a result that is passed through a function.\<close>

definition read_then ::
  "('d \<Rightarrow> go_error + 'a \<times> 'd) \<Rightarrow> ('a \<Rightarrow> 'd \<Rightarrow> go_error + 'b \<times> 'd) \<Rightarrow> 'd \<Rightarrow> go_error + 'b \<times> 'd" where
  "read_then rd k d = (case rd d of Inl e \<Rightarrow> Inl e | Inr (x, d1) \<Rightarrow> k x d1)"

definition read_map_to ::
  "('a \<Rightarrow> 'b) \<Rightarrow> ('d \<Rightarrow> go_error + 'a \<times> 'd) \<Rightarrow> 'd \<Rightarrow> go_error + 'b \<times> 'd" where
  "read_map_to f rd = read_then rd (\<lambda>x d. Inr (f x, d))"

definition read_object ::
  "'d json \<Rightarrow> (string \<Rightarrow> 'a \<Rightarrow> 'd \<Rightarrow> go_error + 'a \<times> 'd) \<Rightarrow> 'a \<Rightarrow> 'd \<Rightarrow> go_error + 'a \<times> 'd" where
  "read_object js = read_until (js_read_string_or_end js CHR ''}'')"

text \<open>A consumer is given its first token; \<open>ReadConsumer\<close> calls it unless that is null.\<close>

type_synonym ('d, 'a) consumer = "'a \<Rightarrow> token \<Rightarrow> 'd \<Rightarrow> go_error + 'a \<times> 'd"

definition asserting :: "'d json \<Rightarrow> char \<Rightarrow> token \<Rightarrow> ('d \<Rightarrow> go_error + 'a \<times> 'd) \<Rightarrow> 'd \<Rightarrow> go_error + 'a \<times> 'd" where
  "asserting js c t rd d = (case js_assert js t c of Some e \<Rightarrow> Inl e | None \<Rightarrow> rd d)"

definition read_consumer :: "'d json \<Rightarrow> ('d, 'a) consumer \<Rightarrow> 'a \<Rightarrow> 'd \<Rightarrow> go_error + (bool \<times> 'a) \<times> 'd" where
  "read_consumer js um a =
     read_then (js_next js)
       (\<lambda>t. if t = TNull then (\<lambda>d. Inr ((False, a), d)) else read_map_to (Pair True) (um a t))"

definition read_consumer_or_end ::
  "'d json \<Rightarrow> ('d, 'a) consumer \<Rightarrow> 'a \<Rightarrow> char \<Rightarrow> 'd \<Rightarrow> go_error + (bool \<times> 'a) option \<times> 'd" where
  "read_consumer_or_end js um a c =
     read_then (js_next_or_end js c)
       (\<lambda>mt. case mt of
          None \<Rightarrow> (\<lambda>d. Inr (None, d))
        | Some t \<Rightarrow> if t = TNull then (\<lambda>d. Inr (Some (False, a), d))
                   else read_map_to (\<lambda>b. Some (True, b)) (um a t))"

section \<open>Rules for the readers\<close>

lemma consumesI:
  "(\<And>d. toks d = ts \<Longrightarrow> \<exists>d'. rd d = Inr (x, d') \<and> toks d' = ts') \<Longrightarrow> consumes toks rd ts x ts'"
  by (simp add: consumes_def)

lemma consumesE:
  assumes "consumes toks rd ts x ts'" "toks d = ts"
  obtains d' where "rd d = Inr (x, d')" "toks d' = ts'"
  using assms unfolding consumes_def by blast

lemma consumes_return [intro]: "consumes toks (\<lambda>d. Inr (x, d)) ts x ts"
  by (simp add: consumes_def)

lemma consumes_then:
  "consumes toks rd ts x ts1 \<Longrightarrow> consumes toks (k x) ts1 y ts2 \<Longrightarrow> consumes toks (read_then rd k) ts y ts2"
  by (rule consumesI) (auto simp: read_then_def elim!: consumesE)

lemma consumes_map: "consumes toks rd ts x ts' \<Longrightarrow> consumes toks (read_map_to f rd) ts (f x) ts'"
  unfolding read_map_to_def by (erule consumes_then) blast

lemma read_until_step:
  "item d = Inr (Some k, d1) \<Longrightarrow> step k a d1 = Inr (a1, d2) \<Longrightarrow> read_until item step a d = read_until item step a1 d2"
  by (rule trans [OF read_until_unfold]) simp

lemma read_until_end: "item d = Inr (None, d1) \<Longrightarrow> read_until item step a d = Inr (a, d1)"
  by (rule trans [OF read_until_unfold]) simp

lemma consumes_mapI: "consumes toks rd ts x ts' \<Longrightarrow> y = f x \<Longrightarrow> consumes toks (read_map_to f rd) ts y ts'"
  using consumes_map by simp

lemma consumes_until_end:
  "consumes toks item ts None ts' \<Longrightarrow> consumes toks (read_until item step a) ts a ts'"
  by (rule consumesI) (auto elim!: consumesE intro: read_until_end)

lemma consumes_until_step:
  assumes "consumes toks item ts (Some k) ts1" "consumes toks (step k a) ts1 a1 ts2"
    and "consumes toks (read_until item step a1) ts2 b ts3"
  shows "consumes toks (read_until item step a) ts b ts3"
proof (rule consumesI)
  fix d assume "toks d = ts"
  with assms(1) obtain d1 where d1: "item d = Inr (Some k, d1)" "toks d1 = ts1" by (rule consumesE)
  from assms(2) d1(2) obtain d2 where d2: "step k a d1 = Inr (a1, d2)" "toks d2 = ts2" by (rule consumesE)
  from assms(3) d2(2) obtain d3 where d3: "read_until item step a1 d2 = Inr (b, d3)" "toks d3 = ts3" by (rule consumesE)
  show "\<exists>d'. read_until item step a d = Inr (b, d') \<and> toks d' = ts3"
    using d3 unfolding read_until_step [where item = item and step = step, OF d1(1) d2(1)] by simp
qed

text \<open>The elementary readers.\<close>

lemma reads_tokensD:
  assumes "reads_tokens js toks"
  shows "consumes toks (js_read_string js) (TString s # ts) s ts"
    and "consumes toks (js_read_string_or_end js c) (TString s # ts) (Some s) ts"
    and "consumes toks (js_read_string_or_end js c) (TDelim c # ts) None ts"
    and "consumes toks (js_read_int js) (TInt n # ts) n ts"
    and "consumes toks (js_read_int_or_end js c) (TInt n # ts) (Some n) ts"
    and "consumes toks (js_read_int_or_end js c) (TDelim c # ts) None ts"
    and "consumes toks (js_read_delim js c) (TDelim c # ts) () ts"
    and "consumes toks (js_next js) (t # ts) t ts"
    and "t \<noteq> TDelim c \<Longrightarrow> consumes toks (js_next_or_end js c) (t # ts) (Some t) ts"
    and "consumes toks (js_next_or_end js c) (TDelim c # ts) None ts"
    and "js_assert js (TDelim c) c = None"
  using assms by (simp_all add: reads_tokens_def)

lemma asserting_open [simp]: "reads_tokens js toks \<Longrightarrow> asserting js c (TDelim c) rd = rd"
  by (rule ext) (simp add: asserting_def reads_tokensD(11))

text \<open>
  The members of an object, one after the other: \<open>upd k v\<close> is what the member \<open>k\<close> with value
  \<open>v\<close> makes of the state.
\<close>

lemma consumes_members:
  assumes "reads_tokens js toks"
    and "\<And>k v a ts. (k, v) \<in> set ms \<Longrightarrow> ok a \<Longrightarrow> ok (upd k v a) \<and> consumes toks (step k a) (tokens v @ ts) (upd k v a) ts"
    and "ok a"
  shows "consumes toks (read_object js step a) (member_tokens ms @ obj_close # ts) (fold (\<lambda>(k, v). upd k v) ms a) ts"
  using assms(2,3)
proof (induction ms arbitrary: a)
  case Nil
  show ?case unfolding read_object_def
    using consumes_until_end [OF reads_tokensD(3) [OF assms(1)]] by simp
next
  case (Cons m ms)
  obtain k v where m: "m = (k, v)" by fastforce
  have s: "ok (upd k v a)" "consumes toks (step k a) (tokens v @ member_tokens ms @ obj_close # ts) (upd k v a)
      (member_tokens ms @ obj_close # ts)"
    using Cons.prems by (auto simp: m)
  have "consumes toks (read_object js step (upd k v a)) (member_tokens ms @ obj_close # ts)
      (fold (\<lambda>(k, v). upd k v) ms (upd k v a)) ts"
    by (rule Cons.IH [OF Cons.prems(1) s(1)]) simp_all
  from this [unfolded read_object_def]
  have "consumes toks (read_until (js_read_string_or_end js CHR ''}'') step a)
      (TString k # tokens v @ member_tokens ms @ obj_close # ts) (fold (\<lambda>(k, v). upd k v) ms (upd k v a)) ts"
    by (rule consumes_until_step [where step = step and k = k and a = a, OF reads_tokensD(2) [OF assms(1)] s(2)])
  then show ?case by (simp add: read_object_def m)
qed

text \<open>The elements of an array: each is read by \<open>item\<close>, and \<open>step\<close> reads nothing.\<close>

lemma consumes_items:
  assumes "\<And>x ts. x \<in> set xs \<Longrightarrow> consumes toks item (tk x @ ts) (Some (val x)) ts"
    and "\<And>ts. consumes toks item (TDelim c # ts) None ts"
    and "\<And>x a d. x \<in> set xs \<Longrightarrow> step (val x) a d = Inr (upd x a, d)"
  shows "consumes toks (read_until item step a) (concat (map tk xs) @ TDelim c # ts) (fold upd xs a) ts"
  using assms(1,3)
proof (induction xs arbitrary: a)
  case Nil
  show ?case using consumes_until_end [OF assms(2)] by simp
next
  case (Cons x xs)
  have "consumes toks (step (val x) a) (concat (map tk xs) @ TDelim c # ts) (upd x a) (concat (map tk xs) @ TDelim c # ts)"
    using Cons.prems(2) by (simp add: consumes_def)
  moreover have "consumes toks item (concat (map tk (x # xs)) @ TDelim c # ts) (Some (val x)) (concat (map tk xs) @ TDelim c # ts)"
    using Cons.prems(1) by simp
  moreover have "consumes toks (read_until item step (upd x a)) (concat (map tk xs) @ TDelim c # ts) (fold upd xs (upd x a)) ts"
    using Cons.prems by (intro Cons.IH) simp_all
  ultimately show ?case
    using consumes_until_step [where step = step and k = "val x" and a = a and item = item] by fastforce
qed

lemma consumes_object:
  assumes "reads_tokens js toks" "\<And>k v a ts. (k, v) \<in> set ms \<Longrightarrow> consumes toks (step k a) (tokens v @ ts) (upd k v a) ts"
    and "b = fold (\<lambda>(k, v). upd k v) ms a"
  shows "consumes toks (asserting js CHR ''{'' obj_open (read_object js step a)) (member_tokens ms @ obj_close # ts) b ts"
  using consumes_members [OF assms(1), of ms "\<lambda>_. True" upd step a ts] assms by auto

lemma consumes_object_end:
  "reads_tokens js toks \<Longrightarrow> consumes toks (read_object js step a) (obj_close # ts) a ts"
  unfolding read_object_def by (rule consumes_until_end) (rule reads_tokensD(3))

lemma consumes_object_more:
  assumes "reads_tokens js toks" "consumes toks (step k a) (tokens v @ rest) a1 rest"
    and "consumes toks (read_object js step a1) rest b ts"
  shows "consumes toks (read_object js step a) (TString k # tokens v @ rest) b ts"
  using consumes_until_step [where step = step and k = k and a = a, OF reads_tokensD(2) [OF assms(1)] assms(2)] assms(3)
  unfolding read_object_def by blast

section \<open>Writing loops\<close>

abbreviation comma :: byte where "comma \<equiv> byte_of_char CHR '',''"

text \<open>\<open>for ... { WriteByte(sep); sep = ','; ... }\<close>, with the separator that is left.\<close>

fun write_members :: "'d json \<Rightarrow> ('k \<Rightarrow> writer \<Rightarrow> writer) \<Rightarrow> byte \<Rightarrow> 'k list \<Rightarrow> writer \<Rightarrow> byte \<times> writer" where
  "write_members js f sep [] w = (sep, w)"
| "write_members js f sep (k # ks) w = write_members js f comma ks (f k (js_byte js sep w))"

text \<open>\<open>for i := range xs { if i > 0 { WriteByte(',') }; ... }\<close>\<close>

fun write_items :: "'d json \<Rightarrow> ('k \<Rightarrow> writer \<Rightarrow> writer) \<Rightarrow> nat \<Rightarrow> 'k list \<Rightarrow> writer \<Rightarrow> writer" where
  "write_items js f i [] w = w"
| "write_items js f i (x # xs) w = write_items js f (Suc i) xs (f x (if i > 0 then js_byte js comma w else w))"

lemma plain_simps [simp]: "plain []" "plain (c # s) \<longleftrightarrow> plain_char c \<and> plain s"
  by (simp_all add: plain_def)

lemma plain_itoa: "plain (itoa_nat n)"
  using itoa_nat_digits [of _ n] by (auto simp: plain_def list_all_iff plain_char_def Let_def)

lemma writes_textD:
  assumes "writes_text js"
  shows "js_text js s w = w @ bytes_of s" "js_byte js b w = w @ [b]" "js_int js n w = w @ bytes_of (itoa n)"
    "NO_MATCH [] w \<Longrightarrow> js_quoted js s w = w @ js_quoted js s []"
    "plain s \<Longrightarrow> js_quoted js s [] = bytes_of (''\"'' @ s @ ''\"'')"
  using assms unfolding writes_text_def by blast+

lemma write_members_bytes:
  assumes "writes_text js" "\<And>k w. k \<in> set ks \<Longrightarrow> f k w = w @ item k" "ks \<noteq> []"
  shows "write_members js f sep ks w = (comma, w @ sep # join_with comma (map item ks))"
  using assms(2,3)
proof (induction ks arbitrary: sep w)
  case (Cons k ks)
  then show ?case by (cases "ks = []") (simp_all add: writes_textD(2) [OF assms(1)] join_with_Cons)
qed simp

lemma write_items_bytes:
  assumes "writes_text js" "\<And>x w. x \<in> set xs \<Longrightarrow> f x w = w @ item x"
  shows "write_items js f 0 xs w = w @ join_with comma (map item xs)"
proof -
  have later: "write_items js f (Suc i) ys w = w @ concat (map (\<lambda>y. comma # item y) ys)" if "set ys \<subseteq> set xs" for i ys w
    using that assms by (induction ys arbitrary: i w) (simp_all add: writes_textD(2))
  have "concat (map (\<lambda>y. comma # item y) ys) = (if ys = [] then [] else comma # join_with comma (map item ys))" for ys
    by (induction ys) (simp_all add: join_with_Cons)
  then show ?thesis
    using assms(2) later [OF order_refl, of 0] later [of "tl xs" 0 "w @ item (hd xs)"]
    by (cases xs; cases "tl xs = []") (simp_all add: join_with_Cons subset_insertI)
qed

section \<open>Types that are written and read\<close>

text \<open>
  A value \<open>x\<close> is written as a document, and a receiver that reads it becomes \<open>restored x\<close> of
  what it was.
\<close>

locale persistent =
  fixes valid :: "'a \<Rightarrow> bool"
    and members :: "'a \<Rightarrow> (string \<times> doc) list"
    and marshal :: "'d json \<Rightarrow> 'a \<Rightarrow> writer \<Rightarrow> writer"
    and unmarshal :: "'d json \<Rightarrow> ('d, 'b) consumer"
    and blank :: "'b \<Rightarrow> bool"
    and restored :: "'a \<Rightarrow> 'b \<Rightarrow> 'b"
  assumes documents: "valid x \<Longrightarrow> doc_ok (Obj (members x))"
    and writes: "writes_text js \<Longrightarrow> valid x \<Longrightarrow> marshal js x w = w @ render js (Obj (members x))"
    and reads: "reads_tokens js toks \<Longrightarrow> valid x \<Longrightarrow> blank r \<Longrightarrow>
      consumes toks (unmarshal js r obj_open) (member_tokens (members x) @ obj_close # ts) (restored x r) ts"
begin

lemma consumer:
  assumes "reads_tokens js toks" "valid x" "blank r"
  shows "consumes toks (read_consumer js (unmarshal js) r) (tokens (Obj (members x)) @ ts) (True, restored x r) ts"
  unfolding read_consumer_def
proof (rule consumes_then)
  show "consumes toks (js_next js) (tokens (Obj (members x)) @ ts) obj_open (member_tokens (members x) @ obj_close # ts)"
    using reads_tokensD(8) [OF assms(1)] by simp
qed (use consumes_map [OF reads [OF assms], of "Pair True" ts] in simp)

lemma consumer_or_end:
  assumes "reads_tokens js toks" "valid x" "blank r"
  shows "consumes toks (read_consumer_or_end js (unmarshal js) r CHR '']'')
    (tokens (Obj (members x)) @ ts) (Some (True, restored x r)) ts"
  unfolding read_consumer_or_end_def
proof (rule consumes_then)
  show "consumes toks (js_next_or_end js CHR '']'') (tokens (Obj (members x)) @ ts) (Some obj_open)
      (member_tokens (members x) @ obj_close # ts)"
    using reads_tokensD(9) [OF assms(1), of obj_open "CHR '']''"] by simp
qed (use consumes_map [OF reads [OF assms], of "\<lambda>b. Some (True, b)" ts] in simp)

text \<open>What is written to a file is read back.\<close>

lemma file_round_trip:
  assumes "json_library js toks" "valid x" "blank r"
  shows "\<exists>d'. read_consumer js (unmarshal js) r (js_decoder js (marshal js x [])) = Inr ((True, restored x r), d')
    \<and> toks d' = []"
proof -
  have js: "writes_text js" "reads_tokens js toks" "reads_documents js toks"
    using assms(1) by (simp_all add: json_library_def)
  have "marshal js x [] = render js (Obj (members x))" using writes [OF js(1) assms(2), of "[]"] by simp
  then have "toks (js_decoder js (marshal js x [])) = tokens (Obj (members x)) @ []"
    using js(3) documents [OF assms(2)] unfolding reads_documents_def by (simp del: tokens.simps render.simps)
  with consumer [OF js(2) assms(2,3), of "[]"] show ?thesis by (auto elim!: consumesE simp del: tokens.simps)
qed

end

end
