(* ===== verification/Persist_Packets.thy ===== *)
theory Persist_Packets
  imports Json Packet_Publish Nats Id_Manager
begin

text \<open>
  The JSON form of the packet identifiers (\<open>mqtt/pkg/idmanager.go\<close>), of PUBLISH packets
  (\<open>mqtt/pkg/publish.go\<close>), of credentials (\<open>mqtt/pkg/credentials.go\<close>) and of the messages that the
  bridge itself tracks (\<open>bridge/natspub.go\<close>): the writers, the readers, which accept members in
  any order and ignore the names they do not know, and their contracts as interpretations of
  \<open>persistent\<close>.
\<close>

abbreviation open_brace :: byte where "open_brace \<equiv> byte_of_char CHR ''{''"
abbreviation close_brace :: byte where "close_brace \<equiv> byte_of_char CHR ''}''"
abbreviation close_bracket :: byte where "close_bracket \<equiv> byte_of_char CHR '']''"

lemmas json_text = bytes_of_Cons bytes_of_append plain_char_def

lemma text_ok_ascii: "\<forall>c \<in> set s. (of_char c :: nat) < 128 \<Longrightarrow> text_ok s"
  using runes_ascii [of "codes s"] by (auto simp: valid_string_def codes_def)

section \<open>Packet identifiers\<close>

text \<open>\<open>enum\<close> is the order in which the range over the map runs.\<close>

definition marshal_ids :: "(u16 set \<Rightarrow> u16 list) \<Rightarrow> 'd json \<Rightarrow> id_manager \<Rightarrow> writer \<Rightarrow> writer" where
  "marshal_ids enum js s w =
     (let nf = next_free s;
          inf = enum (dom (in_flight s));
          w = js_int js (uint nf) (js_text js ''{\"next\":'' w);
          w = (if length inf > 0
               then js_byte js close_bracket
                      (write_items js (\<lambda>k. js_int js (uint k)) 0 inf (js_text js '',\"inFlight\":['' w))
               else w)
      in js_byte js close_brace w)"

definition ids_member :: "'d json \<Rightarrow> string \<Rightarrow> id_manager \<Rightarrow> 'd \<Rightarrow> go_error + id_manager \<times> 'd" where
  "ids_member js k s =
     (if k = ''next'' then read_map_to (\<lambda>n. s\<lparr>next_free := word_of_int n\<rparr>) (js_read_int js)
      else if k = ''inFlight'' then
        read_then (js_read_delim js CHR ''['')
          (\<lambda>_. read_until (js_read_int_or_end js CHR '']'')
                 (\<lambda>i s d. Inr (s\<lparr>in_flight := (in_flight s)(word_of_int i \<mapsto> True)\<rparr>, d)) s)
      else (\<lambda>d. Inr (s, d)))"

definition unmarshal_ids :: "'d json \<Rightarrow> ('d, id_manager) consumer" where
  "unmarshal_ids js s t = asserting js CHR ''{'' t (read_object js (ids_member js) (s\<lparr>in_flight := Map.empty\<rparr>))"

definition ids_doc :: "(u16 set \<Rightarrow> u16 list) \<Rightarrow> id_manager \<Rightarrow> (string \<times> doc) list" where
  "ids_doc enum s =
     (''next'', Num (uint (next_free s)))
     # (if enum (dom (in_flight s)) = [] then []
        else [(''inFlight'', Arr (map (\<lambda>k. Num (uint k)) (enum (dom (in_flight s)))))])"

text \<open>A restored manager has the same counter and the same identifiers in flight.\<close>

definition restored_ids :: "id_manager \<Rightarrow> id_manager" where
  "restored_ids s =
     \<lparr>in_flight = (\<lambda>k. if k \<in> dom (in_flight s) then Some True else None), next_free = next_free s\<rparr>"

lemma uint_int64: "- (2 ^ 63) \<le> uint (k :: u16) \<and> uint k < 2 ^ 63" "- (2 ^ 63) \<le> uint (b :: byte) \<and> uint b < 2 ^ 63"
  using uint_lt2p [of k] uint_lt2p [of b] by (simp_all add: order_trans [OF _ uint_ge_0])

fun mark_ids :: "doc list \<Rightarrow> id_manager \<Rightarrow> id_manager" where
  "mark_ids (Num n # vs) s = mark_ids vs (s\<lparr>in_flight := (in_flight s)(word_of_int n \<mapsto> True)\<rparr>)"
| "mark_ids _ s = s"

lemma mark_ids_words:
  "mark_ids (map (\<lambda>k. Num (uint k)) ks) s
     = s\<lparr>in_flight := (\<lambda>k. if k \<in> set ks then Some True else in_flight s k)\<rparr>"
  by (induction ks arbitrary: s) (auto intro!: id_manager.equality)

lemma consumes_ids:
  assumes "reads_tokens js toks"
  shows "consumes toks (read_until (js_read_int_or_end js CHR '']'')
      (\<lambda>i s d. Inr (s\<lparr>in_flight := (in_flight s)(word_of_int i \<mapsto> True)\<rparr>, d)) s)
    (map (\<lambda>k. TInt (uint k)) ks @ arr_close # ts) (mark_ids (map (\<lambda>k. Num (uint (k :: u16))) ks) s) ts"
proof -
  let ?step = "\<lambda>i s d. Inr (s\<lparr>in_flight := (in_flight s)(word_of_int i \<mapsto> True)\<rparr>, d)"
  have "consumes toks (read_until (js_read_int_or_end js CHR '']'') ?step s)
      (concat (map (\<lambda>k. [TInt (uint k)]) ks) @ arr_close # ts)
      (fold (\<lambda>k s. s\<lparr>in_flight := (in_flight s)(k \<mapsto> True)\<rparr>) ks s) ts"
    by (rule consumes_items [where val = uint]) (simp_all add: reads_tokensD(5,6) [OF assms])
  moreover have "fold (\<lambda>k s. s\<lparr>in_flight := (in_flight s)(k \<mapsto> True)\<rparr>) ks s = mark_ids (map (\<lambda>k. Num (uint k)) ks) s"
    by (induction ks arbitrary: s) simp_all
  ultimately show ?thesis by simp
qed

definition ids_upd :: "string \<Rightarrow> doc \<Rightarrow> id_manager \<Rightarrow> id_manager" where
  "ids_upd k v s =
     (case v of Num n \<Rightarrow> s\<lparr>next_free := word_of_int n\<rparr> | Arr vs \<Rightarrow> mark_ids vs s | _ \<Rightarrow> s)"

lemma ids_member_reads:
  assumes "reads_tokens js toks" "(k, v) \<in> set (ids_doc enum s)"
  shows "consumes toks (ids_member js k r) (tokens v @ ts) (ids_upd k v r) ts"
proof -
  let ?ks = "enum (dom (in_flight s))"
  from assms(2) consider (counter) "k = ''next''" "v = Num (uint (next_free s))"
    | (flight) "k = ''inFlight''" "v = Arr (map (\<lambda>k. Num (uint k)) ?ks)"
    by (auto simp: ids_doc_def split: if_splits)
  then show ?thesis
  proof cases
    case counter
    with reads_tokensD(4) [OF assms(1)] show ?thesis by (auto simp: ids_member_def ids_upd_def intro!: consumes_mapI)
  next
    case flight
    have "consumes toks (ids_member js ''inFlight'' r) (arr_open # map (\<lambda>k. TInt (uint k)) ?ks @ arr_close # ts)
        (mark_ids (map (\<lambda>k. Num (uint k)) ?ks) r) ts"
      using consumes_then [OF reads_tokensD(7) [OF assms(1), where c = "CHR ''[''"] consumes_ids [OF assms(1), of r ?ks ts]]
      by (simp add: ids_member_def del: fun_upd_apply)
    with flight show ?thesis by (simp add: ids_upd_def comp_def)
  qed
qed

lemma marshal_ids_writes:
  assumes js: "writes_text js"
  shows "marshal_ids enum js s w = w @ render js (Obj (ids_doc enum s))"
proof -
  note [simp] = writes_textD [OF js]
  have "write_items js (\<lambda>k. js_int js (uint k)) 0 ks w = w @ join_with comma (map (\<lambda>k. bytes_of (itoa (uint k))) ks)"
    for ks :: "u16 list" and w
    by (rule write_items_bytes [OF js]) simp
  then show ?thesis by (simp add: marshal_ids_def ids_doc_def Let_def json_text comp_def)
qed

interpretation ids_json: persistent "\<lambda>s. enumerates enum" "ids_doc enum" "marshal_ids enum" unmarshal_ids
    "\<lambda>_. True" "\<lambda>s _. restored_ids s" for enum
proof
  show "doc_ok (Obj (ids_doc enum s))" for enum s
    using uint_int64 by (auto simp: ids_doc_def text_ok_ascii)
next
  show "marshal_ids enum js s w = w @ render js (Obj (ids_doc enum s))" if "writes_text js"
    for enum and js :: "'d json" and s w
    using that by (rule marshal_ids_writes)
next
  fix enum :: "u16 set \<Rightarrow> u16 list" and js :: "'d json" and toks ts and s r :: id_manager
  assume js: "reads_tokens js toks" and "enumerates enum"
  then have e: "set (enum (dom (in_flight s))) = dom (in_flight s)" by (simp add: enumerates_def)
  have "restored_ids s = fold (\<lambda>(k, v). ids_upd k v) (ids_doc enum s) (r\<lparr>in_flight := Map.empty\<rparr>)"
    using e by (cases "enum (dom (in_flight s)) = []")
      (auto simp: ids_doc_def ids_upd_def restored_ids_def mark_ids_words intro!: id_manager.equality)
  from consumes_object [OF js ids_member_reads [OF js] this]
  show "consumes toks (unmarshal_ids js r obj_open) (member_tokens (ids_doc enum s) @ obj_close # ts) (restored_ids s) ts"
    by (simp add: unmarshal_ids_def)
qed

section \<open>PUBLISH packets\<close>

definition marshal_publish :: "'d json \<Rightarrow> publish \<Rightarrow> writer \<Rightarrow> writer" where
  "marshal_publish js p w =
     (let w = js_int js (uint (pub_flags p)) (js_text js ''{\"flags\":'' w);
          w = js_int js (uint (pub_id p)) (js_text js '',\"id\":'' w);
          w = js_quoted js (pub_name p) (js_text js '',\"name\":'' w);
          w = (if pub_reply_to p \<noteq> [] then js_quoted js (pub_reply_to p) (js_text js '',\"replyTo\":'' w) else w);
          w = (if length (pub_payload p) > 0 then
                 if is_printable_ascii (pub_payload p)
                 then js_quoted js (string_of (pub_payload p)) (js_text js '',\"payload\":'' w)
                 else js_quoted js (b64_encode (pub_payload p)) (js_text js '',\"payloadEnc\":'' w)
               else w)
      in js_byte js close_brace w)"

definition zero_publish :: publish where
  "zero_publish = \<lparr>pub_name = [], pub_reply_to = [], pub_payload = [], pub_id = 0, pub_flags = 0,
     pub_sent_by_us = False\<rparr>"

text \<open>A string that is base64, or the error of the decoder.\<close>

definition read_base64 :: "'d json \<Rightarrow> 'd \<Rightarrow> go_error + byte list \<times> 'd" where
  "read_base64 js =
     read_then (js_read_string js)
       (\<lambda>s d. case b64_decode s of None \<Rightarrow> Inl (ErrorString ''illegal base64 data'') | Some bs \<Rightarrow> Inr (bs, d))"

definition publish_member :: "'d json \<Rightarrow> string \<Rightarrow> publish \<Rightarrow> 'd \<Rightarrow> go_error + publish \<times> 'd" where
  "publish_member js k p =
     (if k = ''flags'' then read_map_to (\<lambda>n. p\<lparr>pub_flags := word_of_int n\<rparr>) (js_read_int js)
      else if k = ''id'' then read_map_to (\<lambda>n. p\<lparr>pub_id := word_of_int n\<rparr>) (js_read_int js)
      else if k = ''name'' then read_map_to (\<lambda>s. p\<lparr>pub_name := s\<rparr>) (js_read_string js)
      else if k = ''replyTo'' then read_map_to (\<lambda>s. p\<lparr>pub_reply_to := s\<rparr>) (js_read_string js)
      else if k = ''payload'' then read_map_to (\<lambda>s. p\<lparr>pub_payload := bytes_of s\<rparr>) (js_read_string js)
      else if k = ''payloadEnc'' then read_map_to (\<lambda>bs. p\<lparr>pub_payload := bs\<rparr>) (read_base64 js)
      else (\<lambda>d. Inr (p, d)))"

definition unmarshal_publish :: "'d json \<Rightarrow> ('d, publish) consumer" where
  "unmarshal_publish js p t = asserting js CHR ''{'' t (read_object js (publish_member js) p)"

definition publish_doc :: "publish \<Rightarrow> (string \<times> doc) list" where
  "publish_doc p =
     [(''flags'', Num (uint (pub_flags p))), (''id'', Num (uint (pub_id p))), (''name'', Str (pub_name p))]
     @ (if pub_reply_to p = [] then [] else [(''replyTo'', Str (pub_reply_to p))])
     @ (if pub_payload p = [] then []
        else if is_printable_ascii (pub_payload p) then [(''payload'', Str (string_of (pub_payload p)))]
        else [(''payloadEnc'', Str (b64_encode (pub_payload p)))])"

text \<open>Everything but the mark that the packet was sent by the bridge itself.\<close>

definition restored_publish :: "publish \<Rightarrow> publish" where
  "restored_publish p = p\<lparr>pub_sent_by_us := False\<rparr>"

definition publish_text_ok :: "publish \<Rightarrow> bool" where
  "publish_text_ok p \<longleftrightarrow> text_ok (pub_name p) \<and> text_ok (pub_reply_to p)"

lemma text_ok_base64: "text_ok (b64_encode bs)"
  using b64_encode_ascii [of _ bs] by (intro text_ok_ascii) blast

lemma text_ok_printable: "is_printable_ascii bs \<Longrightarrow> text_ok (string_of bs)"
proof (rule text_ok_ascii, rule ballI)
  fix c assume "is_printable_ascii bs" "c \<in> set (string_of bs)"
  then obtain b where b: "b \<in> set bs" "c = char_of_byte b" "\<not> b > 127"
    by (auto simp: is_printable_ascii_def string_of_def)
  then have "unat b \<le> 127" by (simp add: word_less_nat_alt)
  with b(2) show "(of_char c :: nat) < 128" by (simp add: char_of_byte_def)
qed

lemma consumes_base64:
  "reads_tokens js toks \<Longrightarrow> consumes toks (read_base64 js) (TString (b64_encode bs) # ts) bs ts"
  unfolding read_base64_def by (rule consumes_then [OF reads_tokensD(1)]) (auto simp: b64_round_trip)

fun publish_upd :: "string \<Rightarrow> doc \<Rightarrow> publish \<Rightarrow> publish" where
  "publish_upd k (Num n) p =
     (if k = ''flags'' then p\<lparr>pub_flags := word_of_int n\<rparr> else p\<lparr>pub_id := word_of_int n\<rparr>)"
| "publish_upd k (Str s) p =
     (if k = ''name'' then p\<lparr>pub_name := s\<rparr> else if k = ''replyTo'' then p\<lparr>pub_reply_to := s\<rparr>
      else p\<lparr>pub_payload := (if k = ''payload'' then bytes_of s else the (b64_decode s))\<rparr>)"
| "publish_upd k _ p = p"

definition publish_doc_member :: "string \<Rightarrow> doc \<Rightarrow> bool" where
  "publish_doc_member k v \<longleftrightarrow> (case v of
     Num n \<Rightarrow> k = ''flags'' \<or> k = ''id''
   | Str s \<Rightarrow> k = ''name'' \<or> k = ''replyTo'' \<or> k = ''payload'' \<or> k = ''payloadEnc'' \<and> (\<exists>bs. s = b64_encode bs)
   | _ \<Rightarrow> False)"

lemma publish_doc_members: "list_all (\<lambda>(k, v). publish_doc_member k v) (publish_doc p)"
  by (auto simp: publish_doc_def publish_doc_member_def)

lemma publish_member_reads:
  assumes js: "reads_tokens js toks" and "(k, v) \<in> set (publish_doc p)"
  shows "consumes toks (publish_member js k r) (tokens v @ ts) (publish_upd k v r) ts"
proof -
  have m: "publish_doc_member k v" using publish_doc_members [of p] assms(2) by (auto simp: list_all_iff)
  show ?thesis
  proof (cases v)
    case (Num n)
    with m show ?thesis
      by (auto simp: publish_doc_member_def publish_member_def intro!: consumes_mapI [OF reads_tokensD(4) [OF js]])
  next
    case (Str s)
    show ?thesis
    proof (cases "k = ''payloadEnc''")
      case True
      with m Str obtain bs where "s = b64_encode bs" by (auto simp: publish_doc_member_def)
      with True Str show ?thesis
        by (auto simp: publish_member_def b64_round_trip intro!: consumes_mapI [OF consumes_base64 [OF js]])
    next
      case False
      with m Str show ?thesis
        by (auto simp: publish_doc_member_def publish_member_def intro!: consumes_mapI [OF reads_tokensD(1) [OF js]])
    qed
  qed (use m in \<open>simp_all add: publish_doc_member_def\<close>)
qed

lemma marshal_publish_writes:
  assumes "writes_text js"
  shows "marshal_publish js p w = w @ render js (Obj (publish_doc p))"
  by (simp add: marshal_publish_def publish_doc_def Let_def writes_textD [OF assms] json_text)

interpretation publish_json: persistent publish_text_ok publish_doc marshal_publish unmarshal_publish
    "\<lambda>r. r = zero_publish" "\<lambda>p _. restored_publish p"
proof
  show "doc_ok (Obj (publish_doc p))" if "publish_text_ok p" for p
    using that uint_int64
    by (auto simp: publish_doc_def publish_text_ok_def text_ok_ascii text_ok_base64 text_ok_printable)
next
  show "marshal_publish js p w = w @ render js (Obj (publish_doc p))" if "writes_text js" for js :: "'d json" and p w
    using that by (rule marshal_publish_writes)
next
  fix js :: "'d json" and toks ts and p r :: publish
  assume js: "reads_tokens js toks" and "publish_text_ok p" and "r = zero_publish"
  then have "restored_publish p = fold (\<lambda>(k, v). publish_upd k v) (publish_doc p) r"
    by (auto simp: publish_doc_def restored_publish_def zero_publish_def b64_round_trip intro!: publish.equality)
  from consumes_object [OF js publish_member_reads [OF js] this]
  show "consumes toks (unmarshal_publish js r obj_open) (member_tokens (publish_doc p) @ obj_close # ts)
      (restored_publish p) ts"
    by (simp add: unmarshal_publish_def)
qed

section \<open>Credentials\<close>

definition marshal_credentials :: "'d json \<Rightarrow> credentials \<Rightarrow> writer \<Rightarrow> writer" where
  "marshal_credentials js c w =
     (let w = js_byte js open_brace w;
          w = (if cr_user c \<noteq> [] then js_quoted js (cr_user c) (js_text js ''\"u\":'' w) else w);
          w = (case cr_password c of
                 None \<Rightarrow> w
               | Some p \<Rightarrow>
                   (let w = (if cr_user c \<noteq> [] then js_byte js comma w else w)
                    in js_quoted js (b64_encode p) (js_text js ''\"p\":'' w)))
      in js_byte js close_brace w)"

definition credentials_member :: "'d json \<Rightarrow> string \<Rightarrow> credentials \<Rightarrow> 'd \<Rightarrow> go_error + credentials \<times> 'd" where
  "credentials_member js k c =
     (if k = ''u'' then read_map_to (\<lambda>s. c\<lparr>cr_user := s\<rparr>) (js_read_string js)
      else if k = ''p'' then read_map_to (\<lambda>bs. c\<lparr>cr_password := Some bs\<rparr>) (read_base64 js)
      else (\<lambda>d. Inr (c, d)))"

definition unmarshal_credentials :: "'d json \<Rightarrow> ('d, credentials) consumer" where
  "unmarshal_credentials js c t = asserting js CHR ''{'' t (read_object js (credentials_member js) c)"

definition credentials_doc :: "credentials \<Rightarrow> (string \<times> doc) list" where
  "credentials_doc c =
     (if cr_user c = [] then [] else [(''u'', Str (cr_user c))])
     @ (case cr_password c of None \<Rightarrow> [] | Some p \<Rightarrow> [(''p'', Str (b64_encode p))])"

definition zero_credentials :: credentials where
  "zero_credentials = \<lparr>cr_user = [], cr_password = None\<rparr>"

fun credentials_upd :: "string \<Rightarrow> doc \<Rightarrow> credentials \<Rightarrow> credentials" where
  "credentials_upd k (Str s) c =
     (if k = ''u'' then c\<lparr>cr_user := s\<rparr> else c\<lparr>cr_password := b64_decode s\<rparr>)"
| "credentials_upd k _ c = c"

lemma credentials_member_reads:
  assumes js: "reads_tokens js toks" and "(k, v) \<in> set (credentials_doc c)"
  shows "consumes toks (credentials_member js k r) (tokens v @ ts) (credentials_upd k v r) ts"
proof -
  from assms(2) consider (user) "k = ''u''" "v = Str (cr_user c)"
    | (password) p where "k = ''p''" "v = Str (b64_encode p)"
    by (auto simp: credentials_doc_def split: if_splits option.splits)
  then show ?thesis
  proof cases
    case user
    then show ?thesis by (auto simp: credentials_member_def intro!: consumes_mapI [OF reads_tokensD(1) [OF js]])
  next
    case password
    then show ?thesis
      by (auto simp: credentials_member_def b64_round_trip intro!: consumes_mapI [OF consumes_base64 [OF js]])
  qed
qed

lemma marshal_credentials_writes:
  assumes "writes_text js"
  shows "marshal_credentials js c w = w @ render js (Obj (credentials_doc c))"
  by (simp add: marshal_credentials_def credentials_doc_def Let_def writes_textD [OF assms] json_text split: option.split)

interpretation credentials_json: persistent "\<lambda>c. text_ok (cr_user c)" credentials_doc marshal_credentials
    unmarshal_credentials "\<lambda>r. r = zero_credentials" "\<lambda>c _. c"
proof
  show "doc_ok (Obj (credentials_doc c))" if "text_ok (cr_user c)" for c
    using that by (auto simp: credentials_doc_def text_ok_ascii text_ok_base64 split: option.splits)
next
  show "marshal_credentials js c w = w @ render js (Obj (credentials_doc c))" if "writes_text js" for js :: "'d json" and c w
    using that by (rule marshal_credentials_writes)
next
  fix js :: "'d json" and toks ts and c r :: credentials
  assume js: "reads_tokens js toks" and "r = zero_credentials"
  then have "c = fold (\<lambda>(k, v). credentials_upd k v) (credentials_doc c) r"
    by (auto simp: credentials_doc_def zero_credentials_def b64_round_trip split: option.split intro!: credentials.equality)
  from consumes_object [OF js credentials_member_reads [OF js] this]
  show "consumes toks (unmarshal_credentials js r obj_open) (member_tokens (credentials_doc c) @ obj_close # ts) c ts"
    by (simp add: unmarshal_credentials_def)
qed

end
