(* ===== verification/Persist_Sessions.thy ===== *)
theory Persist_Sessions
  imports Persist_Packets Session Retained
begin

text \<open>
  The JSON form of sessions and the session manager (\<open>bridge/session.go\<close>) and of the retained
  messages (\<open>bridge/retained.go\<close>).
\<close>

section \<open>Maps with packet identifiers as keys\<close>

text \<open>The loop of \<open>MarshalToJSON\<close> over such a map; \<open>val\<close> writes the value after the colon.\<close>

definition write_id_map ::
  "'d json \<Rightarrow> (u16 \<Rightarrow> writer \<Rightarrow> writer) \<Rightarrow> u16 list \<Rightarrow> writer \<Rightarrow> writer" where
  "write_id_map js val ks w =
     js_byte js close_brace
       (snd (write_members js
               (\<lambda>k w. val k (js_text js ''\":'' (js_int js (uint k) (js_byte js (byte_of_char CHR 0x22) w))))
               open_brace ks w))"

definition id_members :: "(u16 \<Rightarrow> doc) \<Rightarrow> u16 list \<Rightarrow> (string \<times> doc) list" where
  "id_members f ks = map (\<lambda>k. (itoa (uint k), f k)) ks"

lemma write_id_map_bytes:
  assumes js: "writes_text js" and "\<And>k w. k \<in> set ks \<Longrightarrow> val k w = w @ render js (f k)" "ks \<noteq> []"
  shows "write_id_map js val ks w = w @ render js (Obj (id_members f ks))"
proof -
  have p: "plain (itoa (uint k))" for k :: u16 by (simp add: itoa_def plain_itoa)
  have "write_members js (\<lambda>k w. val k (js_text js ''\":'' (js_int js (uint k) (js_byte js (byte_of_char CHR 0x22) w))))
      open_brace ks w
    = (comma, w @ open_brace # join_with comma
        (map (\<lambda>k. js_quoted js (itoa (uint k)) [] @ bytes_of '':'' @ render js (f k)) ks))"
    by (rule write_members_bytes [OF js])
      (simp_all add: assms(2,3) writes_textD [OF js] writes_textD(5) [OF js p] json_text)
  then show ?thesis
    by (simp add: write_id_map_def id_members_def writes_textD(2) [OF js] json_text comp_def)
qed

text \<open>The same keys are read back.\<close>

lemma atoi_key: "atoi (itoa (uint (k :: u16))) = Some (uint k)"
  using uint_int64(1) [of k] by (simp add: atoi_itoa)

lemma word_key: "word_of_int (uint (k :: u16)) = k"
  by simp

lemma consumes_id_members:
  assumes "reads_tokens js toks"
    and "\<And>k a ts. k \<in> set ks \<Longrightarrow> consumes toks (step (itoa (uint k)) a) (tokens (f k) @ ts) (upd k a) ts"
  shows "consumes toks (read_then (js_read_delim js CHR ''{'') (\<lambda>_. read_object js step a))
    (tokens (Obj (id_members f ks)) @ ts) (fold upd ks a) ts"
proof -
  define upd' where "upd' = (\<lambda>(k :: string) (v :: doc) a. case atoi k of None \<Rightarrow> a | Some i \<Rightarrow> upd (word_of_int i) a)"
  have "consumes toks (read_object js step a) (member_tokens (id_members f ks) @ obj_close # ts)
      (fold (\<lambda>(k, v). upd' k v) (id_members f ks) a) ts"
    by (rule consumes_members [OF assms(1), where ok = "\<lambda>_. True"])
      (auto simp: id_members_def upd'_def atoi_key assms(2))
  moreover have "fold (\<lambda>(k, v). upd' k v) (id_members f ks) a = fold upd ks a"
    by (induction ks arbitrary: a) (simp_all add: id_members_def upd'_def atoi_key)
  ultimately show ?thesis
    using consumes_then [OF reads_tokensD(7) [OF assms(1), where c = "CHR ''{''"]] by fastforce
qed

section \<open>Sessions\<close>

definition marshal_session :: "(u16 set \<Rightarrow> u16 list) \<Rightarrow> 'd json \<Rightarrow> session \<Rightarrow> writer \<Rightarrow> writer" where
  "marshal_session enum js s w =
     (let w = js_quoted js (ses_id s) (js_text js ''{\"id\":'' w);
          w = js_quoted js (ses_client_id s) (js_text js '',\"cid\":'' w);
          m = made_map (awaits_ack s); ks = enum (dom m);
          w = (if length ks > 0
               then write_id_map js (\<lambda>k. js_quoted js (ns_subject (the (m k)))) ks (js_text js '',\"awAck\":'' w)
               else w);
          m = made_map (awaits_client_ack s); ks = enum (dom m);
          w = (if length ks > 0
               then write_id_map js (\<lambda>k. marshal_publish js (the (m k))) ks (js_text js '',\"awClientAck\":'' w)
               else w)
      in js_byte js close_brace w)"

definition invalid_key :: go_error where "invalid_key = ErrorString ''strconv.Atoi: parsing: invalid syntax''"

definition ack_member :: "'d json \<Rightarrow> string \<Rightarrow> session \<Rightarrow> 'd \<Rightarrow> go_error + session \<times> 'd" where
  "ack_member js k s =
     (case atoi k of
        None \<Rightarrow> (\<lambda>d. Inl invalid_key)
      | Some i \<Rightarrow>
          read_map_to (\<lambda>v. s\<lparr>prel_awaits_ack := Some ((made_map (prel_awaits_ack s))(word_of_int i \<mapsto> v))\<rparr>)
            (js_read_string js))"

definition client_ack_member :: "'d json \<Rightarrow> string \<Rightarrow> session \<Rightarrow> 'd \<Rightarrow> go_error + session \<times> 'd" where
  "client_ack_member js k s =
     (case atoi k of
        None \<Rightarrow> (\<lambda>d. Inl invalid_key)
      | Some i \<Rightarrow>
          read_map_to
            (\<lambda>(valid, pp). let m = made_map (awaits_client_ack s)
                           in s\<lparr>awaits_client_ack := Some (if valid then m(word_of_int i \<mapsto> pp) else m)\<rparr>)
            (read_consumer js (unmarshal_publish js) zero_publish))"

definition session_member :: "'d json \<Rightarrow> string \<Rightarrow> session \<Rightarrow> 'd \<Rightarrow> go_error + session \<times> 'd" where
  "session_member js k s =
     (if k = ''id'' then read_map_to (\<lambda>v. s\<lparr>ses_id := v\<rparr>) (js_read_string js)
      else if k = ''cid'' then read_map_to (\<lambda>v. s\<lparr>ses_client_id := v\<rparr>) (js_read_string js)
      else if k = ''awAck'' then
        read_then (js_read_delim js CHR ''{'') (\<lambda>_. read_object js (ack_member js) s)
      else if k = ''awClientAck'' then
        read_then (js_read_delim js CHR ''{'') (\<lambda>_. read_object js (client_ack_member js) s)
      else (\<lambda>d. Inr (s, d)))"

definition unmarshal_session :: "'d json \<Rightarrow> ('d, session) consumer" where
  "unmarshal_session js s t = asserting js CHR ''{'' t (read_object js (session_member js) s)"

text \<open>The empty session that a reader starts from.\<close>

definition zero_session :: session where
  "zero_session = new_session [] []"

text \<open>
  A restored session has the identifiers of the written one; the subscriptions it waited on are
  kept by their subjects until its client returns.
\<close>

definition restored_map :: "('a \<Rightarrow> 'b) \<Rightarrow> ('k \<rightharpoonup> 'a) option \<Rightarrow> ('k \<rightharpoonup> 'b) option" where
  "restored_map f m = (if dom (made_map m) = {} then None else Some (map_option f \<circ> made_map m))"

definition restored_session :: "session \<Rightarrow> session" where
  "restored_session s =
     \<lparr>ses_id = ses_id s, ses_client_id = ses_client_id s, prel_awaits_ack = restored_map ns_subject (awaits_ack s),
      awaits_ack = None, awaits_client_ack = restored_map restored_publish (awaits_client_ack s)\<rparr>"

definition session_text_ok :: "session \<Rightarrow> bool" where
  "session_text_ok s \<longleftrightarrow> text_ok (ses_id s) \<and> text_ok (ses_client_id s)
     \<and> (\<forall>ns \<in> ran (made_map (awaits_ack s)). text_ok (ns_subject ns))
     \<and> (\<forall>pp \<in> ran (made_map (awaits_client_ack s)). publish_text_ok pp)"

definition id_map_doc :: "(u16 set \<Rightarrow> u16 list) \<Rightarrow> string \<Rightarrow> ('a \<Rightarrow> doc) \<Rightarrow> (u16 \<rightharpoonup> 'a) option \<Rightarrow> (string \<times> doc) list" where
  "id_map_doc enum nm f mo =
     (let m = made_map mo; ks = enum (dom m)
      in if ks = [] then [] else [(nm, Obj (id_members (\<lambda>k. f (the (m k))) ks))])"

definition session_doc :: "(u16 set \<Rightarrow> u16 list) \<Rightarrow> session \<Rightarrow> (string \<times> doc) list" where
  "session_doc enum s =
     [(''id'', Str (ses_id s)), (''cid'', Str (ses_client_id s))]
     @ id_map_doc enum ''awAck'' (\<lambda>ns. Str (ns_subject ns)) (awaits_ack s)
     @ id_map_doc enum ''awClientAck'' (\<lambda>pp. Obj (publish_doc pp)) (awaits_client_ack s)"

lemma id_map_reads:
  fixes mo :: "(u16 \<rightharpoonup> 'a) option"
  defines "m \<equiv> made_map mo"
  assumes js: "reads_tokens js toks" and enum: "enumerates enum"
    and member: "step nm a = read_then (js_read_delim js CHR ''{'') (\<lambda>_. read_object js inner a)"
    and inner: "\<And>k x a ts. m k = Some x \<Longrightarrow> consumes toks (inner (itoa (uint k)) a) (tokens (f x) @ ts) (upd k x a) ts"
    and rest: "consumes toks (read_object js step (fold (\<lambda>k. upd k (the (m k))) (enum (dom m)) a)) rest b ts"
  shows "consumes toks (read_object js step a) (member_tokens (id_map_doc enum nm f mo) @ rest) b ts"
proof (cases "enum (dom m) = []")
  case True
  with rest show ?thesis by (simp add: id_map_doc_def Let_def m_def)
next
  case False
  let ?v = "Obj (id_members (\<lambda>k. f (the (m k))) (enum (dom m)))"
  have "consumes toks (step nm a) (tokens ?v @ rest) (fold (\<lambda>k. upd k (the (m k))) (enum (dom m)) a) rest"
    unfolding member
  proof (rule consumes_id_members [OF js])
    fix k a ts assume "k \<in> set (enum (dom m))"
    then have "k \<in> dom m" using enum by (simp add: enumerates_def)
    then have "m k = Some (the (m k))" by auto
    then show "consumes toks (inner (itoa (uint k)) a) (tokens (f (the (m k))) @ ts) (upd k (the (m k)) a) ts"
      by (rule inner)
  qed
  from consumes_object_more [OF js this rest] False show ?thesis by (simp add: id_map_doc_def Let_def m_def)
qed

lemma made_map_simps [simp]: "made_map None = Map.empty" "made_map (Some m) = m"
  by (simp_all add: made_map_def)

abbreviation ack_upd :: "u16 \<Rightarrow> nats_sub \<Rightarrow> session \<Rightarrow> session" where
  "ack_upd k ns s \<equiv> s\<lparr>prel_awaits_ack := Some ((made_map (prel_awaits_ack s))(k \<mapsto> ns_subject ns))\<rparr>"

abbreviation client_ack_upd :: "u16 \<Rightarrow> publish \<Rightarrow> session \<Rightarrow> session" where
  "client_ack_upd k pp s \<equiv> s\<lparr>awaits_client_ack := Some ((made_map (awaits_client_ack s))(k \<mapsto> restored_publish pp))\<rparr>"

lemma fold_ack_upd:
  "fold (\<lambda>k. ack_upd k (g k)) ks s = s\<lparr>prel_awaits_ack := (if ks = [] then prel_awaits_ack s
     else Some (\<lambda>k. if k \<in> set ks then Some (ns_subject (g k)) else made_map (prel_awaits_ack s) k))\<rparr>"
  by (induction ks arbitrary: s) (auto simp: fun_eq_iff intro!: session.equality)

lemma fold_client_ack_upd:
  "fold (\<lambda>k. client_ack_upd k (g k)) ks s = s\<lparr>awaits_client_ack := (if ks = [] then awaits_client_ack s
     else Some (\<lambda>k. if k \<in> set ks then Some (restored_publish (g k)) else made_map (awaits_client_ack s) k))\<rparr>"
  by (induction ks arbitrary: s) (auto simp: fun_eq_iff intro!: session.equality)

lemma restored_map_keys:
  assumes "enumerates enum"
  shows "(if enum (dom (made_map mo)) = [] then None
      else Some (\<lambda>k. if k \<in> set (enum (dom (made_map mo))) then Some (g (the (made_map mo k))) else None))
    = restored_map g mo"
proof -
  have e: "set (enum (dom (made_map mo))) = dom (made_map mo)" using assms by (simp add: enumerates_def)
  then have "enum (dom (made_map mo)) = [] \<longleftrightarrow> dom (made_map mo) = {}" by (metis set_empty)
  then show ?thesis unfolding e by (auto simp: restored_map_def fun_eq_iff split: option.split)
qed

lemma restored_acks:
  assumes "enumerates enum" "prel_awaits_ack s = None"
  shows "fold (\<lambda>k. ack_upd k (the (made_map mo k))) (enum (dom (made_map mo))) s
    = s\<lparr>prel_awaits_ack := restored_map ns_subject mo\<rparr>"
  unfolding fold_ack_upd restored_map_keys [OF assms(1), symmetric] using assms(2)
  by (simp add: fun_eq_iff)

lemma restored_client_acks:
  assumes "enumerates enum" "awaits_client_ack s = None"
  shows "fold (\<lambda>k. client_ack_upd k (the (made_map mo k))) (enum (dom (made_map mo))) s
    = s\<lparr>awaits_client_ack := restored_map restored_publish mo\<rparr>"
  unfolding fold_client_ack_upd restored_map_keys [OF assms(1), symmetric] using assms(2)
  by (simp add: fun_eq_iff)

lemma ack_member_reads:
  "reads_tokens js toks \<Longrightarrow>
   consumes toks (ack_member js (itoa (uint k)) r) (tokens (Str (ns_subject ns)) @ ts) (ack_upd k ns r) ts"
  using reads_tokensD(1) [of js toks] by (auto simp: ack_member_def atoi_key intro!: consumes_mapI)

lemma client_ack_member_reads:
  assumes "reads_tokens js toks" "publish_text_ok pp"
  shows "consumes toks (client_ack_member js (itoa (uint k)) r) (tokens (Obj (publish_doc pp)) @ ts) (client_ack_upd k pp r) ts"
  unfolding client_ack_member_def atoi_key option.case
  by (rule consumes_mapI [OF publish_json.consumer [OF assms refl]]) (simp add: Let_def)

lemma session_name_reads:
  assumes "reads_tokens js toks"
  shows "consumes toks (session_member js ''id'' r) (tokens (Str v) @ ts) (r\<lparr>ses_id := v\<rparr>) ts"
    and "consumes toks (session_member js ''cid'' r) (tokens (Str v) @ ts) (r\<lparr>ses_client_id := v\<rparr>) ts"
  using reads_tokensD(1) [OF assms] by (auto simp: session_member_def intro!: consumes_mapI)

lemma session_reads:
  assumes js: "reads_tokens js toks" and enum: "enumerates enum" and ok: "session_text_ok s"
  shows "consumes toks (unmarshal_session js zero_session obj_open)
    (member_tokens (session_doc enum s) @ obj_close # ts) (restored_session s) ts"
proof -
  let ?rd = "read_object js (session_member js)"
  let ?m1 = "made_map (awaits_ack s)" and ?m2 = "made_map (awaits_client_ack s)"
  let ?d1 = "member_tokens (id_map_doc enum ''awAck'' (\<lambda>ns. Str (ns_subject ns)) (awaits_ack s))"
  let ?d2 = "member_tokens (id_map_doc enum ''awClientAck'' (\<lambda>pp. Obj (publish_doc pp)) (awaits_client_ack s))"
  define s1 where "s1 = new_session (ses_id s) (ses_client_id s)"
  define s2 where "s2 = fold (\<lambda>k. ack_upd k (the (?m1 k))) (enum (dom ?m1)) s1"
  have s2: "s2 = s1\<lparr>prel_awaits_ack := restored_map ns_subject (awaits_ack s)\<rparr>"
    unfolding s2_def by (rule restored_acks [OF enum]) (simp add: s1_def new_session_def)
  have s3: "fold (\<lambda>k. client_ack_upd k (the (?m2 k))) (enum (dom ?m2)) s2 = restored_session s"
    using restored_client_acks [OF enum, of s2] by (simp add: s2 s1_def new_session_def restored_session_def)
  have "consumes toks (?rd s2) (?d2 @ obj_close # ts) (restored_session s) ts"
  proof (rule id_map_reads [OF js enum, where inner = "client_ack_member js" and upd = client_ack_upd])
    show "consumes toks (?rd (fold (\<lambda>k. client_ack_upd k (the (?m2 k))) (enum (dom ?m2)) s2)) (obj_close # ts) (restored_session s) ts"
      unfolding s3 by (rule consumes_object_end [OF js])
    show "consumes toks (client_ack_member js (itoa (uint k)) a) (tokens (Obj (publish_doc x)) @ ts) (client_ack_upd k x a) ts"
      if "?m2 k = Some x" for k x a ts
      using ok that by (intro client_ack_member_reads [OF js]) (auto simp: session_text_ok_def ran_def)
  qed (simp add: session_member_def)
  then have "consumes toks (?rd (fold (\<lambda>k. ack_upd k (the (?m1 k))) (enum (dom ?m1)) s1)) (?d2 @ obj_close # ts) (restored_session s) ts"
    by (simp only: s2_def)
  from id_map_reads [OF js enum, where inner = "ack_member js" and upd = ack_upd, OF _ ack_member_reads [OF js] this]
  have "consumes toks (?rd s1) (?d1 @ ?d2 @ obj_close # ts) (restored_session s) ts"
    by (simp add: session_member_def)
  moreover have "s1 = zero_session\<lparr>ses_id := ses_id s, ses_client_id := ses_client_id s\<rparr>"
    by (simp add: s1_def zero_session_def new_session_def)
  ultimately have "consumes toks (?rd zero_session)
      (TString ''id'' # tokens (Str (ses_id s)) @ TString ''cid'' # tokens (Str (ses_client_id s)) @ ?d1 @ ?d2 @ obj_close # ts)
      (restored_session s) ts"
    using consumes_object_more [where step = "session_member js" and k = "''id''", OF js session_name_reads(1) [OF js]]
      consumes_object_more [where step = "session_member js" and k = "''cid''", OF js session_name_reads(2) [OF js]]
    by metis
  with js show ?thesis by (simp add: unmarshal_session_def session_doc_def)
qed

lemma session_writes:
  assumes js: "writes_text js"
  shows "marshal_session enum js s w = w @ render js (Obj (session_doc enum s))"
proof -
  note [simp] = writes_textD [OF js]
  have 1: "write_id_map js (\<lambda>k. js_quoted js (ns_subject (the (m k)))) ks w
      = w @ render js (Obj (id_members (\<lambda>k. Str (ns_subject (the (m k)))) ks))" if "ks \<noteq> []" for m ks w
    by (rule write_id_map_bytes [OF js _ that]) simp
  have 2: "write_id_map js (\<lambda>k. marshal_publish js (the (m k))) ks w
      = w @ render js (Obj (id_members (\<lambda>k. Obj (publish_doc (the (m k)))) ks))" if "ks \<noteq> []" for m ks w
    using marshal_publish_writes [OF js] by (intro write_id_map_bytes [OF js _ that]) simp
  show ?thesis
    by (simp add: marshal_session_def session_doc_def id_map_doc_def Let_def 1 2 json_text del: render.simps(3))
      (simp add: json_text)
qed

lemma text_ok_key: "text_ok (itoa (uint (k :: u16)))"
  using itoa_nat_digits [of _ "unat k"] by (intro text_ok_ascii) (fastforce simp: itoa_uint)

lemma id_map_doc_ok:
  assumes "enumerates enum" "\<forall>x \<in> ran (made_map mo). doc_ok (f x)" "text_ok nm"
  shows "\<forall>m \<in> set (id_map_doc enum nm f mo). text_ok (fst m) \<and> doc_ok (snd m)"
proof -
  have "doc_ok (f (the (made_map mo k)))" if "k \<in> set (enum (dom (made_map mo)))" for k
  proof -
    from that assms(1) have "k \<in> dom (made_map mo)" by (simp add: enumerates_def)
    with assms(2) show ?thesis by (auto simp: ran_def)
  qed
  with assms(3) show ?thesis by (auto simp: id_map_doc_def Let_def id_members_def text_ok_key)
qed

lemma session_doc_ok:
  assumes "enumerates enum" "session_text_ok s"
  shows "doc_ok (Obj (session_doc enum s))"
proof -
  have "\<forall>pp \<in> ran (made_map (awaits_client_ack s)). doc_ok (Obj (publish_doc pp))"
    using assms(2) publish_json.documents unfolding session_text_ok_def by blast
  with id_map_doc_ok [OF assms(1), of "awaits_ack s" "\<lambda>ns. Str (ns_subject ns)" "''awAck''"]
    id_map_doc_ok [OF assms(1), of "awaits_client_ack s" "\<lambda>pp. Obj (publish_doc pp)" "''awClientAck''"] assms(2)
  show ?thesis unfolding session_doc_def session_text_ok_def by (auto simp: text_ok_ascii)
qed

interpretation session_json: persistent "\<lambda>s. enumerates enum \<and> session_text_ok s" "session_doc enum" "marshal_session enum"
    unmarshal_session "\<lambda>r. r = zero_session" "\<lambda>s _. restored_session s" for enum
  by unfold_locales (simp_all add: session_doc_ok session_writes session_reads del: doc_ok.simps render.simps)

section \<open>The session manager\<close>

text \<open>\<open>kenum\<close> is the order of the range over the client identifiers.\<close>

definition registered :: "sm \<Rightarrow> string \<Rightarrow> session" where
  "registered m k = the (sm_heap m (the (sm_m m k)))"

definition marshal_sm ::
  "(string set \<Rightarrow> string list) \<Rightarrow> (u16 set \<Rightarrow> u16 list) \<Rightarrow> 'd json \<Rightarrow> sm \<Rightarrow> writer \<Rightarrow> writer" where
  "marshal_sm kenum enum js m w =
     (let w = js_int js (uint (sm_seed m)) (js_text js ''{\"seed\":'' w);
          ks = kenum (dom (sm_m m));
          w = (if length ks > 0
               then js_byte js close_brace
                      (snd (write_members js
                              (\<lambda>k w. marshal_session enum js (registered m k)
                                       (js_byte js (byte_of_char CHR '':'') (js_quoted js k w)))
                              open_brace ks (js_text js '',\"sessions\":'' w)))
               else w)
      in js_byte js close_brace w)"

text \<open>A session that is read is a new one.\<close>

definition sm_add :: "string \<Rightarrow> session \<Rightarrow> sm \<Rightarrow> sm" where
  "sm_add k s m = m\<lparr>sm_m := (sm_m m)(k \<mapsto> sm_next m), sm_heap := (sm_heap m)(sm_next m \<mapsto> s),
     sm_next := Suc (sm_next m)\<rparr>"

definition sessions_member :: "'d json \<Rightarrow> string \<Rightarrow> sm \<Rightarrow> 'd \<Rightarrow> go_error + sm \<times> 'd" where
  "sessions_member js k m =
     read_map_to (\<lambda>(_, s). sm_add k s m) (read_consumer js (unmarshal_session js) zero_session)"

definition sm_member :: "'d json \<Rightarrow> string \<Rightarrow> sm \<Rightarrow> 'd \<Rightarrow> go_error + sm \<times> 'd" where
  "sm_member js k m =
     (if k = ''sessions'' then
        read_then (js_read_delim js CHR ''{'') (\<lambda>_. read_object js (sessions_member js) m)
      else if k = ''seed'' then read_map_to (\<lambda>n. m\<lparr>sm_seed := word_of_int n\<rparr>) (js_read_int js)
      else (\<lambda>d. Inr (m, d)))"

definition unmarshal_sm :: "'d json \<Rightarrow> ('d, sm) consumer" where
  "unmarshal_sm js m t = asserting js CHR ''{'' t (read_object js (sm_member js) m)"

definition sessions_doc :: "(u16 set \<Rightarrow> u16 list) \<Rightarrow> sm \<Rightarrow> string list \<Rightarrow> (string \<times> doc) list" where
  "sessions_doc enum m ks = map (\<lambda>k. (k, Obj (session_doc enum (registered m k)))) ks"

definition sm_doc :: "(string set \<Rightarrow> string list) \<Rightarrow> (u16 set \<Rightarrow> u16 list) \<Rightarrow> sm \<Rightarrow> (string \<times> doc) list" where
  "sm_doc kenum enum m =
     (''seed'', Num (uint (sm_seed m)))
     # (if kenum (dom (sm_m m)) = [] then [] else [(''sessions'', Obj (sessions_doc enum m (kenum (dom (sm_m m)))))])"

definition sm_text_ok :: "(string set \<Rightarrow> string list) \<Rightarrow> sm \<Rightarrow> bool" where
  "sm_text_ok kenum m \<longleftrightarrow> set (kenum (dom (sm_m m))) = dom (sm_m m) \<and> distinct (kenum (dom (sm_m m)))
     \<and> (\<forall>k \<in> dom (sm_m m). text_ok k \<and> session_text_ok (registered m k))"

definition restored_sm :: "(string set \<Rightarrow> string list) \<Rightarrow> sm \<Rightarrow> sm \<Rightarrow> sm" where
  "restored_sm kenum m r =
     fold (\<lambda>k. sm_add k (restored_session (registered m k))) (kenum (dom (sm_m m))) (r\<lparr>sm_seed := sm_seed m\<rparr>)"

lemma sessions_read:
  assumes js: "reads_tokens js toks" and enum: "enumerates enum" and ok: "\<forall>k \<in> set ks. session_text_ok (registered m k)"
  shows "consumes toks (read_then (js_read_delim js CHR ''{'') (\<lambda>_. read_object js (sessions_member js) r))
    (tokens (Obj (sessions_doc enum m ks)) @ ts) (fold (\<lambda>k. sm_add k (restored_session (registered m k))) ks r) ts"
proof -
  let ?upd = "\<lambda>k (v :: doc). sm_add k (restored_session (registered m k))"
  have "consumes toks (read_object js (sessions_member js) r) (member_tokens (sessions_doc enum m ks) @ obj_close # ts)
      (fold (\<lambda>(k, v). ?upd k v) (sessions_doc enum m ks) r) ts"
  proof (rule consumes_members [OF js, where ok = "\<lambda>_. True"])
    fix k v a ts assume "(k, v) \<in> set (sessions_doc enum m ks)"
    then have v: "v = Obj (session_doc enum (registered m k))" "session_text_ok (registered m k)"
      using ok by (auto simp: sessions_doc_def)
    from session_json.consumer [OF js, of enum "registered m k"] enum v(2)
    have "consumes toks (read_consumer js (unmarshal_session js) zero_session) (tokens v @ ts)
        (True, restored_session (registered m k)) ts" unfolding v(1) by blast
    from consumes_map [OF this, of "\<lambda>(_, s). sm_add k s a"] show "True \<and> consumes toks (sessions_member js k a) (tokens v @ ts) (?upd k v a) ts"
      by (simp add: sessions_member_def)
  qed simp
  moreover have "fold (\<lambda>(k, v). ?upd k v) (sessions_doc enum m ks) r
      = fold (\<lambda>k. sm_add k (restored_session (registered m k))) ks r"
    by (simp add: sessions_doc_def fold_map comp_def)
  ultimately show ?thesis
    using consumes_then [OF reads_tokensD(7) [OF js, where c = "CHR ''{''"]] by fastforce
qed

lemma seed_reads:
  "reads_tokens js toks \<Longrightarrow>
   consumes toks (sm_member js ''seed'' r) (tokens (Num (uint sd)) @ ts) (r\<lparr>sm_seed := sd\<rparr>) ts"
  using reads_tokensD(4) [of js toks] by (auto simp: sm_member_def intro!: consumes_mapI)

lemma sm_reads:
  assumes js: "reads_tokens js toks" and enum: "enumerates enum" and ok: "sm_text_ok kenum m"
  shows "consumes toks (unmarshal_sm js r obj_open)
    (member_tokens (sm_doc kenum enum m) @ obj_close # ts) (restored_sm kenum m r) ts"
proof -
  let ?rd = "read_object js (sm_member js)" and ?ks = "kenum (dom (sm_m m))"
  let ?r1 = "r\<lparr>sm_seed := sm_seed m\<rparr>"
  let ?d = "if ?ks = [] then [] else [(''sessions'', Obj (sessions_doc enum m ?ks))]"
  have "\<forall>k \<in> set ?ks. session_text_ok (registered m k)" using ok by (auto simp: sm_text_ok_def)
  from sessions_read [OF js enum this]
  have "consumes toks (sm_member js ''sessions'' ?r1) (tokens (Obj (sessions_doc enum m ?ks)) @ obj_close # ts)
      (restored_sm kenum m r) (obj_close # ts)"
    by (simp add: sm_member_def restored_sm_def)
  from consumes_object_more [where step = "sm_member js" and k = "''sessions''", OF js this consumes_object_end [OF js]]
  have "consumes toks (?rd ?r1) (member_tokens ?d @ obj_close # ts) (restored_sm kenum m r) ts"
    using consumes_object_end [OF js, of "sm_member js" ?r1 ts]
    by (cases "?ks = []") (simp_all add: restored_sm_def)
  from consumes_object_more [where step = "sm_member js" and k = "''seed''", OF js seed_reads [OF js] this] js
  show ?thesis by (simp add: unmarshal_sm_def sm_doc_def del: tokens.simps(3))
qed

lemma sm_writes:
  assumes js: "writes_text js"
  shows "marshal_sm kenum enum js m w = w @ render js (Obj (sm_doc kenum enum m))"
proof -
  note [simp] = writes_textD [OF js]
  let ?f = "\<lambda>k w. marshal_session enum js (registered m k) (js_byte js (byte_of_char CHR '':'') (js_quoted js k w))"
  have "write_members js ?f open_brace ks w = (comma, w @ open_brace # join_with comma
      (map (\<lambda>k. js_quoted js k [] @ bytes_of '':'' @ render js (Obj (session_doc enum (registered m k)))) ks))"
    if "ks \<noteq> []" for ks w
    by (rule write_members_bytes [OF js _ that]) (simp add: session_writes [OF js] json_text del: render.simps)
  then show ?thesis
    by (simp add: marshal_sm_def sm_doc_def sessions_doc_def Let_def comp_def del: render.simps(3))
      (simp add: json_text comp_def)
qed

lemma sm_doc_ok:
  assumes "enumerates enum" "sm_text_ok kenum m"
  shows "doc_ok (Obj (sm_doc kenum enum m))"
proof -
  have "uint (sm_seed m) < 2 ^ 63" "- (2 ^ 63) \<le> uint (sm_seed m)"
    using uint_lt2p [of "sm_seed m"] by (simp_all add: order_trans [OF _ uint_ge_0])
  moreover have "\<forall>k \<in> set (kenum (dom (sm_m m))). text_ok k \<and> doc_ok (Obj (session_doc enum (registered m k)))"
    using assms(2) session_doc_ok [OF assms(1)] by (auto simp: sm_text_ok_def simp del: doc_ok.simps)
  ultimately show ?thesis by (auto simp: sm_doc_def sessions_doc_def text_ok_ascii)
qed

interpretation sm_json: persistent "\<lambda>m. enumerates enum \<and> sm_text_ok kenum m" "sm_doc kenum enum" "marshal_sm kenum enum"
    unmarshal_sm "\<lambda>_. True" "restored_sm kenum" for kenum enum
  by unfold_locales (simp_all add: sm_doc_ok sm_writes sm_reads del: doc_ok.simps render.simps)

text \<open>What a restored manager holds, and what it keeps of the one that read it.\<close>

lemma sm_add_fold_frame:
  "sm_next (fold (\<lambda>k. sm_add k (g k)) ks r) = sm_next r + length ks"
  "sm_seed (fold (\<lambda>k. sm_add k (g k)) ks r) = sm_seed r"
  "b < sm_next r \<Longrightarrow> sm_heap (fold (\<lambda>k. sm_add k (g k)) ks r) b = sm_heap r b"
  "k \<notin> set ks \<Longrightarrow> sm_m (fold (\<lambda>k. sm_add k (g k)) ks r) k = sm_m r k"
  by (induction ks arbitrary: r) (simp_all add: sm_add_def)

lemma sm_add_fold_new:
  assumes "distinct ks" "k \<in> set ks"
  shows "\<exists>b \<ge> sm_next r. sm_m (fold (\<lambda>k. sm_add k (g k)) ks r) k = Some b
    \<and> sm_heap (fold (\<lambda>k. sm_add k (g k)) ks r) b = Some (g k)"
  using assms
proof (induction ks arbitrary: r)
  case (Cons j ks)
  show ?case
  proof (cases "k = j")
    case True
    with Cons.prems have "sm_m (fold (\<lambda>k. sm_add k (g k)) ks (sm_add j (g j) r)) k = Some (sm_next r)"
      "sm_heap (fold (\<lambda>k. sm_add k (g k)) ks (sm_add j (g j) r)) (sm_next r) = Some (g k)"
      using sm_add_fold_frame(3) [of "sm_next r" "sm_add j (g j) r" g ks]
        sm_add_fold_frame(4) [of j ks g "sm_add j (g j) r"]
      by (simp_all add: sm_add_def)
    then show ?thesis by auto
  next
    case False
    with Cons.prems Cons.IH [of "sm_add j (g j) r"] show ?thesis by (auto simp: sm_add_def intro: Suc_leD)
  qed
qed simp

lemma restored_sm_frame:
  "sm_seed (restored_sm kenum m r) = sm_seed m"
  "b < sm_next r \<Longrightarrow> sm_heap (restored_sm kenum m r) b = sm_heap r b"
  "k \<notin> set (kenum (dom (sm_m m))) \<Longrightarrow> sm_m (restored_sm kenum m r) k = sm_m r k"
  by (simp_all add: restored_sm_def sm_add_fold_frame)

lemma restored_sm_registered:
  assumes "sm_text_ok kenum m" "k \<in> dom (sm_m m)"
  shows "\<exists>b \<ge> sm_next r. sm_get k (restored_sm kenum m r) = Some b
    \<and> sm_heap (restored_sm kenum m r) b = Some (restored_session (registered m k))"
  using sm_add_fold_new [of "kenum (dom (sm_m m))" k "r\<lparr>sm_seed := sm_seed m\<rparr>"] assms
  by (simp add: restored_sm_def sm_get_def sm_text_ok_def)

section \<open>Retained messages\<close>

definition retained_item :: "'d json \<Rightarrow> retained \<Rightarrow> string \<Rightarrow> writer \<Rightarrow> writer" where
  "retained_item js r t w =
     marshal_publish js (the (msgs r t)) (js_byte js (byte_of_char CHR '':'') (js_quoted js t w))"

definition marshal_retained :: "'d json \<Rightarrow> retained \<Rightarrow> writer \<Rightarrow> writer" where
  "marshal_retained js r w =
     (case write_members js (retained_item js r) open_brace (order r) w of
        (sep, w) \<Rightarrow> js_byte js close_brace (if sep = open_brace then js_byte js sep w else w))"

text \<open>A topic that occurs twice is listed twice in the order.\<close>

definition retained_member :: "'d json \<Rightarrow> string \<Rightarrow> retained \<Rightarrow> 'd \<Rightarrow> go_error + retained \<times> 'd" where
  "retained_member js t r =
     read_map_to (\<lambda>(_, p). \<lparr>msgs = (msgs r)(t \<mapsto> p), order = order r @ [t]\<rparr>)
       (read_consumer js (unmarshal_publish js) zero_publish)"

definition unmarshal_retained :: "'d json \<Rightarrow> ('d, retained) consumer" where
  "unmarshal_retained js r t =
     asserting js CHR ''{'' t (read_object js (retained_member js) (r\<lparr>msgs := Map.empty, order := []\<rparr>))"

definition retained_doc :: "retained \<Rightarrow> (string \<times> doc) list" where
  "retained_doc r = map (\<lambda>t. (t, Obj (publish_doc (the (msgs r t))))) (order r)"

definition restored_retained :: "retained \<Rightarrow> retained" where
  "restored_retained r = \<lparr>msgs = map_option restored_publish \<circ> msgs r, order = order r\<rparr>"

definition retained_text_ok :: "retained \<Rightarrow> bool" where
  "retained_text_ok r \<longleftrightarrow> retained_ok r \<and> (\<forall>t p. msgs r t = Some p \<longrightarrow> text_ok t \<and> publish_text_ok p)"

lemma retained_text_okD: "retained_text_ok r \<Longrightarrow> t \<in> set (order r) \<Longrightarrow> text_ok t \<and> publish_text_ok (the (msgs r t))"
  by (auto simp: retained_text_ok_def retained_ok_def)

lemma retained_writes:
  assumes js: "writes_text js"
  shows "marshal_retained js r w = w @ render js (Obj (retained_doc r))"
proof (cases "order r = []")
  case True
  then show ?thesis by (simp add: marshal_retained_def retained_doc_def writes_textD [OF js] json_text)
next
  case False
  have "write_members js (retained_item js r) open_brace (order r) w = (comma, w @ open_brace # join_with comma
      (map (\<lambda>t. js_quoted js t [] @ bytes_of '':'' @ render js (Obj (publish_doc (the (msgs r t))))) (order r)))"
    by (rule write_members_bytes [OF js _ False])
      (simp add: retained_item_def marshal_publish_writes [OF js] writes_textD [OF js] json_text del: render.simps)
  moreover have "comma \<noteq> open_brace" by (simp add: byte_of_char_def)
  ultimately show ?thesis
    by (simp add: marshal_retained_def retained_doc_def writes_textD [OF js] comp_def json_text)
qed

lemma retained_reads:
  assumes js: "reads_tokens js toks" and ok: "retained_text_ok r"
  shows "consumes toks (unmarshal_retained js r0 obj_open)
    (member_tokens (retained_doc r) @ obj_close # ts) (restored_retained r) ts"
proof -
  let ?upd = "\<lambda>t (v :: doc) q. \<lparr>msgs = (msgs q)(t \<mapsto> restored_publish (the (msgs r t))), order = order q @ [t]\<rparr>"
  have m: "consumes toks (retained_member js t q) (tokens v @ ts') (?upd t v q) ts'"
    if "(t, v) \<in> set (retained_doc r)" for t v q ts'
  proof -
    from that have v: "v = Obj (publish_doc (the (msgs r t)))" "publish_text_ok (the (msgs r t))"
      using retained_text_okD [OF ok] by (auto simp: retained_doc_def)
    from consumes_map [OF publish_json.consumer [OF js v(2) refl], of "\<lambda>(_, p). \<lparr>msgs = (msgs q)(t \<mapsto> p), order = order q @ [t]\<rparr>"]
    show ?thesis by (simp add: retained_member_def v(1) del: tokens.simps)
  qed
  have "fold (\<lambda>(t, v). ?upd t v) (map (\<lambda>t. (t, Obj (publish_doc (the (msgs r t))))) ks) \<lparr>msgs = f, order = os\<rparr>
      = \<lparr>msgs = (\<lambda>t. if t \<in> set ks then Some (restored_publish (the (msgs r t))) else f t), order = os @ ks\<rparr>" for ks f os
    by (induction ks arbitrary: f os) (auto simp: fun_eq_iff)
  moreover have "(\<lambda>t. if t \<in> set (order r) then Some (restored_publish (the (msgs r t))) else None) = map_option restored_publish \<circ> msgs r"
    using ok by (auto simp: retained_text_ok_def retained_ok_def fun_eq_iff domIff split: option.split)
  ultimately have "restored_retained r = fold (\<lambda>(t, v). ?upd t v) (retained_doc r) (r0\<lparr>msgs := Map.empty, order := []\<rparr>)"
    by (cases r0) (simp add: restored_retained_def retained_doc_def)
  from consumes_object [OF js m this] show ?thesis by (simp add: unmarshal_retained_def)
qed

lemma retained_doc_ok:
  assumes "retained_text_ok r"
  shows "doc_ok (Obj (retained_doc r))"
proof -
  have "text_ok t \<and> doc_ok (Obj (publish_doc (the (msgs r t))))" if "t \<in> set (order r)" for t
    using retained_text_okD [OF assms that] publish_json.documents by blast
  then show ?thesis by (simp add: retained_doc_def)
qed

interpretation retained_json: persistent retained_text_ok retained_doc marshal_retained
    unmarshal_retained "\<lambda>_. True" "\<lambda>r _. restored_retained r"
  by unfold_locales (simp_all add: retained_doc_ok retained_writes retained_reads del: doc_ok.simps render.simps)

end
