(* ===== verification/Persist.thy ===== *)
theory Persist
  imports Persist_Sessions Server
begin

text \<open>
  The persisted state of the whole bridge (\<open>bridge/server.go\<close>, \<open>bridge/natspub.go\<close>): what is
  written when it shuts down and what a new bridge makes of it, and the answer to a request for
  retained messages, which is JSON too.  The file is its content, with the errors of the file
  operations as parameters.
\<close>

section \<open>Tracked messages\<close>

definition marshal_nats_pub :: "'d json \<Rightarrow> nats_pub \<Rightarrow> writer \<Rightarrow> writer" where
  "marshal_nats_pub js np w =
     (let w = marshal_publish js (np_pp np) (js_text js ''{\"m\":'' w);
          w = (case np_creds np of
                 None \<Rightarrow> w
               | Some c \<Rightarrow> marshal_credentials js c (js_text js '',\"c\":'' w))
      in js_byte js close_brace w)"

text \<open>The fields \<open>pp\<close> and \<open>creds\<close> while they are read: both may be nil.\<close>

type_synonym loading_pub = "publish option \<times> credentials option"

definition nats_pub_member :: "'d json \<Rightarrow> string \<Rightarrow> loading_pub \<Rightarrow> 'd \<Rightarrow> go_error + loading_pub \<times> 'd" where
  "nats_pub_member js k n =
     (if k = ''m'' then
        read_map_to (\<lambda>(valid, p). (if valid then Some p else None, snd n))
          (read_consumer js (unmarshal_publish js) zero_publish)
      else if k = ''c'' then
        read_map_to (\<lambda>(valid, c). (fst n, if valid then Some c else None))
          (read_consumer js (unmarshal_credentials js) zero_credentials)
      else (\<lambda>d. Inr (n, d)))"

definition unmarshal_nats_pub :: "'d json \<Rightarrow> ('d, loading_pub) consumer" where
  "unmarshal_nats_pub js n t = asserting js CHR ''{'' t (read_object js (nats_pub_member js) n)"

definition nats_pub_doc :: "nats_pub \<Rightarrow> (string \<times> doc) list" where
  "nats_pub_doc np =
     (''m'', Obj (publish_doc (np_pp np)))
     # (case np_creds np of None \<Rightarrow> [] | Some c \<Rightarrow> [(''c'', Obj (credentials_doc c))])"

definition nats_pub_text_ok :: "nats_pub \<Rightarrow> bool" where
  "nats_pub_text_ok np \<longleftrightarrow> publish_text_ok (np_pp np) \<and> (\<forall>c. np_creds np = Some c \<longrightarrow> text_ok (cr_user c))"

section \<open>The server\<close>

text \<open>
  \<open>kenum\<close> is the order of a range over client identifiers and \<open>now\<close> the time as text.  A server
  without a session panics.
\<close>

definition marshal_server ::
  "'w env \<Rightarrow> (string set \<Rightarrow> string list) \<Rightarrow> string \<Rightarrow> 'd json \<Rightarrow> 'w server \<Rightarrow> writer \<Rightarrow> go_error + writer" where
  "marshal_server env kenum now js sv w =
     (case server_session sv of
        Inl e \<Rightarrow> Inl e
      | Inr s \<Rightarrow>
          (let w = js_quoted js now (js_text js ''{\"ts\":'' w);
               w = js_quoted js (ses_client_id s) (js_text js '',\"id\":'' w);
               w = marshal_ids (env_enum env) js (sv_ids sv) (js_text js '',\"idm\":'' w);
               w = marshal_sm kenum (env_enum env) js (sv_sm sv) (js_text js '',\"sm\":'' w);
               w = (if \<not> retained_empty (sv_retained sv)
                    then marshal_retained js (sv_retained sv) (js_text js '',\"retained\":'' w) else w);
               trk = awaits_ack_snapshot env sv;
               w = (if length trk > 0
                    then js_byte js close_bracket
                           (write_items js (marshal_nats_pub js) 0 trk (js_text js '',\"pubacks\":['' w))
                    else w)
           in Inr (js_byte js close_brace w)))"

text \<open>The server with the two local variables of \<open>UnmarshalFromJSON\<close>.\<close>

record 'w loading =
  ld_server :: "'w server"
  ld_id :: string
  ld_tracks :: "(u16 \<rightharpoonup> nats_pub) option"

definition add_track :: "bool \<times> loading_pub \<Rightarrow> 'w loading \<Rightarrow> 'd \<Rightarrow> go_error + 'w loading \<times> 'd" where
  "add_track vp ld d =
     (case vp of
        (False, _) \<Rightarrow> Inr (ld, d)
      | (True, None, _) \<Rightarrow> Inl (Panic ''nil packet'')
      | (True, Some pp, cr) \<Rightarrow>
          Inr (ld\<lparr>ld_tracks := Some ((made_map (ld_tracks ld))(pub_id pp \<mapsto> \<lparr>np_pp = pp, np_creds = cr\<rparr>))\<rparr>, d))"

definition server_member :: "'d json \<Rightarrow> string \<Rightarrow> 'w loading \<Rightarrow> 'd \<Rightarrow> go_error + 'w loading \<times> 'd" where
  "server_member js k ld =
     (let sv = ld_server ld
      in if k = ''id'' then read_map_to (\<lambda>s. ld\<lparr>ld_id := s\<rparr>) (js_read_string js)
         else if k = ''idm'' then
           read_map_to (\<lambda>(_, ids). ld\<lparr>ld_server := sv\<lparr>sv_ids := ids\<rparr>\<rparr>)
             (read_consumer js (unmarshal_ids js) (sv_ids sv))
         else if k = ''sm'' then
           read_map_to (\<lambda>(_, m). ld\<lparr>ld_server := sv\<lparr>sv_sm := m\<rparr>\<rparr>)
             (read_consumer js (unmarshal_sm js) (sv_sm sv))
         else if k = ''retained'' then
           read_map_to (\<lambda>(_, r). ld\<lparr>ld_server := sv\<lparr>sv_retained := r\<rparr>\<rparr>)
             (read_consumer js (unmarshal_retained js) (sv_retained sv))
         else if k = ''pubacks'' then
           read_then (js_read_delim js CHR ''['')
             (\<lambda>_. read_until (read_consumer_or_end js (unmarshal_nats_pub js) (None, None) CHR '']'') add_track
                    (ld\<lparr>ld_tracks := Some Map.empty\<rparr>))
         else (\<lambda>d. Inr (ld, d)))"

text \<open>What follows the loop: the server's own session, and the timer if messages are tracked.\<close>

definition loaded :: "'w loading \<Rightarrow> 'w server" where
  "loaded ld =
     (let sv = ld_server ld;
          sv = (if ld_id ld \<noteq> [] then sv\<lparr>sv_session := sm_get (ld_id ld) (sv_sm sv)\<rparr> else sv)
      in if dom (made_map (ld_tracks ld)) \<noteq> {} then sv\<lparr>sv_pub_acks := ld_tracks ld, sv_timer := True\<rparr> else sv)"

definition unmarshal_server :: "'d json \<Rightarrow> ('d, 'w server) consumer" where
  "unmarshal_server js sv t =
     asserting js CHR ''{'' t
       (read_map_to loaded (read_object js (server_member js) \<lparr>ld_server = sv, ld_id = [], ld_tracks = None\<rparr>))"

section \<open>The storage file\<close>

text \<open>
  \<open>load\<close>: the file cannot be opened, does not exist, or has some content.  After an error the
  bridge is not used.  \<open>persist\<close>: the errors of opening the file and of flushing it.
\<close>

definition load_server :: "'d json \<Rightarrow> go_error + byte list option \<Rightarrow> 'w server \<Rightarrow> go_error + 'w server" where
  "load_server js file sv =
     (case file of
        Inl e \<Rightarrow> Inl e
      | Inr None \<Rightarrow> Inr sv
      | Inr (Some bs) \<Rightarrow>
          (case read_consumer js (unmarshal_server js) sv (js_decoder js bs) of
             Inl e \<Rightarrow> Inl e
           | Inr ((_, sv1), _) \<Rightarrow> Inr sv1))"

definition persist_server ::
  "'w env \<Rightarrow> (string set \<Rightarrow> string list) \<Rightarrow> string \<Rightarrow> 'd json \<Rightarrow> go_error option \<Rightarrow> go_error option
   \<Rightarrow> 'w server \<Rightarrow> go_error + byte list" where
  "persist_server env kenum now js opened flushed sv =
     (case opened of
        Some e \<Rightarrow> Inl e
      | None \<Rightarrow>
          (case marshal_server env kenum now js sv [] of
             Inl e \<Rightarrow> Inl e
           | Inr bs \<Rightarrow> (case flushed of Some e \<Rightarrow> Inl e | None \<Rightarrow> Inr bs)))"

text \<open>\<open>New\<close> with its options.\<close>

definition start_server ::
  "'w env \<Rightarrow> 'd json \<Rightarrow> string \<Rightarrow> go_error + byte list option \<Rightarrow> 'w \<Rightarrow> go_error + 'w server" where
  "start_server env js uid file w =
     (let sv = new_server uid w
      in if storage_path (env_opts env) \<noteq> [] then load_server js file sv else Inr sv)"

text \<open>The end of \<open>drainAndShutdown\<close>: the server, and what is in the storage file if there is one.\<close>

definition shutdown_server ::
  "'w env \<Rightarrow> (string set \<Rightarrow> string list) \<Rightarrow> string \<Rightarrow> 'd json \<Rightarrow> go_error option \<Rightarrow> go_error option
   \<Rightarrow> 'w server \<Rightarrow> go_error + 'w server \<times> byte list option" where
  "shutdown_server env kenum now js opened flushed sv =
     (let sv1 = drain_end env sv
      in if storage_path (env_opts env) \<noteq> []
         then (case persist_server env kenum now js opened flushed sv1 of
                 Inl e \<Rightarrow> Inl e
               | Inr bs \<Rightarrow> Inr (sv1, Some bs))
         else Inr (sv1, None))"

section \<open>Requests for retained messages\<close>

definition retained_answer_item :: "'d json \<Rightarrow> publish \<Rightarrow> writer \<Rightarrow> writer" where
  "retained_answer_item js pp w =
     (let w = js_quoted js (to_nats (pub_name pp)) (js_text js ''{\"subject\":'' w);
          w = (if is_printable_ascii (pub_payload pp)
               then js_quoted js (string_of (pub_payload pp)) (js_text js '',\"payload\":'' w)
               else js_quoted js (b64_encode (pub_payload pp)) (js_text js '',\"payloadEnc\":'' w))
      in js_byte js close_brace w)"

text \<open>An error of the answer is logged.  A nil packet would panic.\<close>

definition handle_retained_request :: "'w env \<Rightarrow> 'd json \<Rightarrow> nats_msg \<Rightarrow> 'w server \<Rightarrow> go_error + 'w server" where
  "handle_retained_request env js m sv =
     (case messages_matching_retain_request (msg_data m) (sv_retained sv) of
        Inl e \<Rightarrow> Inl e
      | Inr (pps, qs) \<Rightarrow>
          if None \<in> set pps then Inl (Panic ''nil packet'')
          else
            (let answer = (if length pps = 0 then bytes_of ''[]''
                           else js_byte js close_bracket
                                  (write_items js (retained_answer_item js) 0 (map the pps)
                                     (js_byte js (byte_of_char CHR ''['') [])))
             in Inr (sv\<lparr>sv_world := snd (nats_respond (env_nats env) m answer (sv_world sv))\<rparr>)))"

definition start_retained_request_handler :: "'w env \<Rightarrow> 'w server \<Rightarrow> go_error option \<times> 'w server" where
  "start_retained_request_handler env sv =
     (case server_nats_conn env sv of
        (Inl e, sv1) \<Rightarrow> (Some e, sv1)
      | (Inr nc, sv1) \<Rightarrow>
          (case nats_subscribe (env_nats env) nc (retained_request_topic (env_opts env))
                  RetainedRequestHandler (sv_world sv1) of
             (Inl e, w) \<Rightarrow> (Some e, sv1\<lparr>sv_world := w\<rparr>)
           | (Inr _, w) \<Rightarrow> (None, sv1\<lparr>sv_world := w\<rparr>)))"

text \<open>\<open>bootUp\<close>, with the error of the listener.\<close>

definition boot_up :: "'w env \<Rightarrow> go_error option \<Rightarrow> 'w server \<Rightarrow> go_error option \<times> 'w server" where
  "boot_up env listener sv =
     (case listener of
        Some e \<Rightarrow> (Some e, sv)
      | None \<Rightarrow>
          if retained_request_topic (env_opts env) \<noteq> [] then start_retained_request_handler env sv
          else (None, sv))"

section \<open>Reading back\<close>

lemma nats_pub_writes:
  assumes "writes_text js"
  shows "marshal_nats_pub js np w = w @ render js (Obj (nats_pub_doc np))"
  by (simp add: marshal_nats_pub_def nats_pub_doc_def Let_def writes_textD [OF assms] marshal_publish_writes [OF assms]
      marshal_credentials_writes [OF assms] json_text split: option.split)

lemma nats_pub_doc_ok:
  assumes "nats_pub_text_ok np"
  shows "doc_ok (Obj (nats_pub_doc np))"
proof -
  have "doc_ok (Obj (publish_doc (np_pp np)))" using assms publish_json.documents by (simp only: nats_pub_text_ok_def)
  moreover have "doc_ok (Obj (credentials_doc c))" if "np_creds np = Some c" for c
    using assms that by (intro credentials_json.documents) (simp add: nats_pub_text_ok_def)
  ultimately show ?thesis by (cases "np_creds np") (simp_all add: nats_pub_doc_def text_ok_ascii)
qed

abbreviation restored_pub :: "nats_pub \<Rightarrow> loading_pub" where
  "restored_pub np \<equiv> (Some (restored_publish (np_pp np)), np_creds np)"

lemma nats_pub_reads:
  assumes js: "reads_tokens js toks" and ok: "nats_pub_text_ok np"
  shows "consumes toks (unmarshal_nats_pub js (None, None) obj_open)
    (member_tokens (nats_pub_doc np) @ obj_close # ts) (restored_pub np) ts"
proof -
  let ?rd = "read_object js (nats_pub_member js)"
  let ?n = "(Some (restored_publish (np_pp np)), None) :: loading_pub"
  let ?d = "case np_creds np of None \<Rightarrow> [] | Some c \<Rightarrow> [(''c'', Obj (credentials_doc c))]"
  have "consumes toks (?rd ?n) (member_tokens ?d @ obj_close # ts) (restored_pub np) ts"
  proof (cases "np_creds np")
    case None
    then show ?thesis using consumes_object_end [OF js, of "nats_pub_member js" ?n ts] by simp
  next
    case (Some c)
    then have "text_ok (cr_user c)" using ok by (simp add: nats_pub_text_ok_def)
    from consumes_map [OF credentials_json.consumer [OF js this refl], of "\<lambda>(valid, c). (fst ?n, if valid then Some c else None)"]
    have "consumes toks (nats_pub_member js ''c'' ?n) (tokens (Obj (credentials_doc c)) @ obj_close # ts)
        (restored_pub np) (obj_close # ts)"
      using Some by (simp add: nats_pub_member_def del: tokens.simps)
    from consumes_object_more [where step = "nats_pub_member js" and k = "''c''", OF js this consumes_object_end [OF js]] Some
    show ?thesis by simp
  qed
  moreover have "publish_text_ok (np_pp np)" using ok by (simp add: nats_pub_text_ok_def)
  from consumes_map [OF publish_json.consumer [OF js this refl], of "\<lambda>(valid, p). (if valid then Some p else None, snd (None, None))"]
  have "consumes toks (nats_pub_member js ''m'' (None, None)) (tokens (Obj (publish_doc (np_pp np))) @ ts') ?n ts'" for ts'
    by (simp add: nats_pub_member_def del: tokens.simps)
  ultimately have "consumes toks (?rd (None, None))
      (TString ''m'' # tokens (Obj (publish_doc (np_pp np))) @ member_tokens ?d @ obj_close # ts) (restored_pub np) ts"
    using consumes_object_more [where step = "nats_pub_member js" and k = "''m''", OF js] by blast
  with js show ?thesis by (simp add: unmarshal_nats_pub_def nats_pub_doc_def)
qed

interpretation nats_pub_json: persistent nats_pub_text_ok nats_pub_doc marshal_nats_pub unmarshal_nats_pub
    "\<lambda>r. r = (None, None)" "\<lambda>np _. restored_pub np"
  by unfold_locales (simp_all add: nats_pub_doc_ok nats_pub_writes nats_pub_reads del: doc_ok.simps render.simps)

definition server_doc ::
  "'w env \<Rightarrow> (string set \<Rightarrow> string list) \<Rightarrow> string \<Rightarrow> string \<Rightarrow> 'w server \<Rightarrow> (string \<times> doc) list" where
  "server_doc env kenum now cid sv =
     [(''ts'', Str now), (''id'', Str cid), (''idm'', Obj (ids_doc (env_enum env) (sv_ids sv))),
      (''sm'', Obj (sm_doc kenum (env_enum env) (sv_sm sv)))]
     @ (if retained_empty (sv_retained sv) then [] else [(''retained'', Obj (retained_doc (sv_retained sv)))])
     @ (if awaits_ack_snapshot env sv = [] then []
        else [(''pubacks'', Arr (map (\<lambda>np. Obj (nats_pub_doc np)) (awaits_ack_snapshot env sv)))])"

lemma server_writes:
  assumes js: "writes_text js" and s: "server_session sv = Inr s"
  shows "marshal_server env kenum now js sv w = Inr (w @ render js (Obj (server_doc env kenum now (ses_client_id s) sv)))"
proof -
  note [simp] = writes_textD [OF js] marshal_ids_writes [OF js] sm_writes [OF js] retained_writes [OF js]
  have i: "write_items js (marshal_nats_pub js) 0 nps w = w @ join_with comma (map (\<lambda>np. render js (Obj (nats_pub_doc np))) nps)" for nps w
    by (rule write_items_bytes [OF js]) (rule nats_pub_writes [OF js])
  show ?thesis
    by (simp add: marshal_server_def server_doc_def s Let_def i comp_def del: render.simps(3))
      (simp add: json_text comp_def)
qed

text \<open>The members, one by one; the time, which no case of the switch consumes, is read as a name.\<close>

lemma skip_member:
  assumes "reads_tokens js toks" "step k a = (\<lambda>d. Inr (a, d))" "consumes toks (read_object js step a) rest b ts"
  shows "consumes toks (read_object js step a) (TString k # rest) b ts"
  using consumes_until_step [where step = step and k = k and a = a, OF reads_tokensD(2) [OF assms(1)]] assms(2,3)
  unfolding read_object_def by (metis consumes_return)

definition server_keys :: "string set" where
  "server_keys = {''id'', ''idm'', ''sm'', ''retained'', ''pubacks''}"

lemma server_member_skip: "k \<notin> server_keys \<Longrightarrow> server_member js k ld = (\<lambda>d. Inr (ld, d))"
  by (simp add: server_keys_def server_member_def Let_def)

lemma server_member_reads:
  assumes js: "reads_tokens js toks"
  shows "consumes toks (server_member js ''id'' ld) (tokens (Str cid) @ ts) (ld\<lparr>ld_id := cid\<rparr>) ts"
    and "enumerates enum \<Longrightarrow> consumes toks (server_member js ''idm'' ld) (tokens (Obj (ids_doc enum ids)) @ ts)
      (ld\<lparr>ld_server := (ld_server ld)\<lparr>sv_ids := restored_ids ids\<rparr>\<rparr>) ts"
    and "enumerates enum \<Longrightarrow> sm_text_ok kenum m \<Longrightarrow>
      consumes toks (server_member js ''sm'' ld) (tokens (Obj (sm_doc kenum enum m)) @ ts)
        (ld\<lparr>ld_server := (ld_server ld)\<lparr>sv_sm := restored_sm kenum m (sv_sm (ld_server ld))\<rparr>\<rparr>) ts"
    and "retained_text_ok r \<Longrightarrow> consumes toks (server_member js ''retained'' ld) (tokens (Obj (retained_doc r)) @ ts)
      (ld\<lparr>ld_server := (ld_server ld)\<lparr>sv_retained := restored_retained r\<rparr>\<rparr>) ts"
proof -
  show "consumes toks (server_member js ''id'' ld) (tokens (Str cid) @ ts) (ld\<lparr>ld_id := cid\<rparr>) ts"
    using reads_tokensD(1) [OF js] by (auto simp: server_member_def Let_def intro!: consumes_mapI)
  show "consumes toks (server_member js ''idm'' ld) (tokens (Obj (ids_doc enum ids)) @ ts)
      (ld\<lparr>ld_server := (ld_server ld)\<lparr>sv_ids := restored_ids ids\<rparr>\<rparr>) ts" if "enumerates enum"
    using consumes_map [OF ids_json.consumer [OF js that], of "\<lambda>(_, ids). ld\<lparr>ld_server := (ld_server ld)\<lparr>sv_ids := ids\<rparr>\<rparr>"]
    by (simp add: server_member_def Let_def del: tokens.simps)
  show "consumes toks (server_member js ''sm'' ld) (tokens (Obj (sm_doc kenum enum m)) @ ts)
      (ld\<lparr>ld_server := (ld_server ld)\<lparr>sv_sm := restored_sm kenum m (sv_sm (ld_server ld))\<rparr>\<rparr>) ts"
    if "enumerates enum" "sm_text_ok kenum m"
    using consumes_map [OF sm_json.consumer [OF js conjI [OF that]], of "\<lambda>(_, m). ld\<lparr>ld_server := (ld_server ld)\<lparr>sv_sm := m\<rparr>\<rparr>"]
    by (simp add: server_member_def Let_def del: tokens.simps)
  show "consumes toks (server_member js ''retained'' ld) (tokens (Obj (retained_doc r)) @ ts)
      (ld\<lparr>ld_server := (ld_server ld)\<lparr>sv_retained := restored_retained r\<rparr>\<rparr>) ts" if "retained_text_ok r"
    using consumes_map [OF retained_json.consumer [OF js that], of "\<lambda>(_, r). ld\<lparr>ld_server := (ld_server ld)\<lparr>sv_retained := r\<rparr>\<rparr>"]
    by (simp add: server_member_def Let_def del: tokens.simps)
qed

abbreviation track_upd :: "nats_pub \<Rightarrow> 'w loading \<Rightarrow> 'w loading" where
  "track_upd np ld \<equiv> ld\<lparr>ld_tracks := Some ((made_map (ld_tracks ld))(pub_id (np_pp np) \<mapsto>
     \<lparr>np_pp = restored_publish (np_pp np), np_creds = np_creds np\<rparr>))\<rparr>"

lemma tracks_read:
  assumes js: "reads_tokens js toks" and ok: "\<forall>np \<in> set nps. nats_pub_text_ok np"
  shows "consumes toks (server_member js ''pubacks'' ld) (tokens (Arr (map (\<lambda>np. Obj (nats_pub_doc np)) nps)) @ ts)
    (fold track_upd nps (ld\<lparr>ld_tracks := Some Map.empty\<rparr>)) ts"
proof -
  let ?item = "read_consumer_or_end js (unmarshal_nats_pub js) (None, None) CHR '']''"
  have "consumes toks (read_until ?item add_track (ld\<lparr>ld_tracks := Some Map.empty\<rparr>))
      (concat (map (\<lambda>np. tokens (Obj (nats_pub_doc np))) nps) @ arr_close # ts)
      (fold track_upd nps (ld\<lparr>ld_tracks := Some Map.empty\<rparr>)) ts"
  proof (rule consumes_items [where val = "\<lambda>np. (True, restored_pub np)"])
    show "consumes toks ?item (tokens (Obj (nats_pub_doc np)) @ ts) (Some (True, restored_pub np)) ts"
      if "np \<in> set nps" for np ts
      using ok that by (intro nats_pub_json.consumer_or_end [OF js]) simp_all
    show "consumes toks ?item (arr_close # ts) None ts" for ts
      unfolding read_consumer_or_end_def
      by (rule consumes_then [OF reads_tokensD(10) [OF js]]) auto
  qed (simp add: add_track_def restored_publish_def)
  from consumes_then [OF reads_tokensD(7) [OF js, where c = "CHR ''[''"] this] show ?thesis
    by (simp add: server_member_def Let_def comp_def)
qed

lemma optional_member:
  assumes js: "reads_tokens js toks" and "c \<Longrightarrow> a1 = a"
    and "\<not> c \<Longrightarrow> consumes toks (step k a) (tokens v @ rest) a1 rest"
    and "consumes toks (read_object js step a1) rest b ts"
  shows "consumes toks (read_object js step a) (member_tokens (if c then [] else [(k, v)]) @ rest) b ts"
  using assms(2,4) consumes_object_more [where step = step and k = k and a = a, OF js assms(3) assms(4)]
  by (cases c) simp_all

definition restored_tracks :: "nats_pub list \<Rightarrow> (u16 \<rightharpoonup> nats_pub)" where
  "restored_tracks nps =
     fold (\<lambda>np m. m(pub_id (np_pp np) \<mapsto> \<lparr>np_pp = restored_publish (np_pp np), np_creds = np_creds np\<rparr>)) nps Map.empty"

lemma fold_track_upd:
  "fold track_upd nps (ld\<lparr>ld_tracks := Some m\<rparr>) = ld\<lparr>ld_tracks := Some (fold (\<lambda>np m. m(pub_id (np_pp np) \<mapsto>
     \<lparr>np_pp = restored_publish (np_pp np), np_creds = np_creds np\<rparr>)) nps m)\<rparr>"
  by (induction nps arbitrary: m) simp_all

text \<open>What the receiving server \<open>r\<close> becomes.\<close>

definition restored_server ::
  "'w env \<Rightarrow> (string set \<Rightarrow> string list) \<Rightarrow> string \<Rightarrow> 'w server \<Rightarrow> 'w server \<Rightarrow> 'w server" where
  "restored_server env kenum cid sv r =
     loaded \<lparr>ld_server = r\<lparr>sv_ids := restored_ids (sv_ids sv), sv_sm := restored_sm kenum (sv_sm sv) (sv_sm r),
                sv_retained := (if retained_empty (sv_retained sv) then sv_retained r
                                else restored_retained (sv_retained sv))\<rparr>,
             ld_id = cid,
             ld_tracks = (if awaits_ack_snapshot env sv = [] then None
                          else Some (restored_tracks (awaits_ack_snapshot env sv)))\<rparr>"

definition server_text_ok :: "'w env \<Rightarrow> (string set \<Rightarrow> string list) \<Rightarrow> 'w server \<Rightarrow> bool" where
  "server_text_ok env kenum sv \<longleftrightarrow> sm_text_ok kenum (sv_sm sv) \<and> retained_text_ok (sv_retained sv)
     \<and> (\<forall>np \<in> set (awaits_ack_snapshot env sv). nats_pub_text_ok np)"

lemma server_reads:
  assumes js: "reads_tokens js toks" and enum: "enumerates (env_enum env)" and ok: "server_text_ok env kenum sv"
    and now: "now \<notin> server_keys"
  shows "consumes toks (unmarshal_server js r obj_open)
    (member_tokens (server_doc env kenum now cid sv) @ obj_close # ts) (restored_server env kenum cid sv r) ts"
proof -
  let ?trk = "awaits_ack_snapshot env sv" and ?ret = "sv_retained sv" and ?rd = "read_object js (server_member js)"
  define d4 where "d4 = member_tokens (if ?trk = [] then [] else [(''pubacks'', Arr (map (\<lambda>np. Obj (nats_pub_doc np)) ?trk))])
      @ obj_close # ts"
  define d3 where "d3 = member_tokens (if retained_empty ?ret then [] else [(''retained'', Obj (retained_doc ?ret))]) @ d4"
  let ?l1 = "\<lparr>ld_server = r, ld_id = cid, ld_tracks = None\<rparr>"
  define l2 where "l2 = ?l1\<lparr>ld_server := r\<lparr>sv_ids := restored_ids (sv_ids sv), sv_sm := restored_sm kenum (sv_sm sv) (sv_sm r)\<rparr>\<rparr>"
  define l3 where "l3 = (if retained_empty ?ret then l2 else l2\<lparr>ld_server := (ld_server l2)\<lparr>sv_retained := restored_retained ?ret\<rparr>\<rparr>)"
  define l4 where "l4 = (if ?trk = [] then l3 else l3\<lparr>ld_tracks := Some (restored_tracks ?trk)\<rparr>)"
  note more = consumes_object_more [where step = "server_member js", OF js]
  have 4: "consumes toks (?rd l3) d4 l4 ts"
    using tracks_read [OF js, of ?trk l3] ok unfolding d4_def l4_def
    by (intro optional_member [OF js _ _ consumes_object_end [OF js]])
      (simp_all add: server_text_ok_def fold_track_upd restored_tracks_def del: tokens.simps)
  have 3: "consumes toks (?rd l2) d3 l4 ts"
    using server_member_reads(4) [OF js, of ?ret l2 d4] ok unfolding d3_def l3_def
    by (intro optional_member [OF js _ _ 4 [unfolded l3_def]]) (simp_all add: server_text_ok_def del: tokens.simps)
  have "consumes toks (?rd ?l1) (TString ''idm'' # tokens (Obj (ids_doc (env_enum env) (sv_ids sv)))
      @ TString ''sm'' # tokens (Obj (sm_doc kenum (env_enum env) (sv_sm sv))) @ d3) l4 ts"
    using ok 3 by (intro more [where k = "''idm''", OF server_member_reads(2) [OF js enum]]
        more [where k = "''sm''", OF server_member_reads(3) [OF js enum]]) (simp_all add: server_text_ok_def l2_def)
  then have "consumes toks (?rd \<lparr>ld_server = r, ld_id = [], ld_tracks = None\<rparr>) (TString ''id'' # tokens (Str cid)
      @ TString ''idm'' # tokens (Obj (ids_doc (env_enum env) (sv_ids sv)))
      @ TString ''sm'' # tokens (Obj (sm_doc kenum (env_enum env) (sv_sm sv))) @ d3) l4 ts" (is "consumes _ _ ?rest _ _")
    by (intro more [where k = "''id''", OF server_member_reads(1) [OF js]]) simp
  with now have "consumes toks (?rd \<lparr>ld_server = r, ld_id = [], ld_tracks = None\<rparr>) (TString now # ?rest) l4 ts"
    by (rule skip_member [where step = "server_member js", OF js server_member_skip])
  then have "consumes toks (?rd \<lparr>ld_server = r, ld_id = [], ld_tracks = None\<rparr>) (TString ''ts'' # TString now # ?rest) l4 ts"
    by (rule skip_member [where step = "server_member js", OF js server_member_skip, rotated]) (simp add: server_keys_def)
  moreover have "member_tokens (server_doc env kenum now cid sv) @ obj_close # ts = TString ''ts'' # TString now # ?rest"
    by (simp add: server_doc_def d3_def d4_def del: tokens.simps(2-4))
  ultimately have "consumes toks (?rd \<lparr>ld_server = r, ld_id = [], ld_tracks = None\<rparr>)
      (member_tokens (server_doc env kenum now cid sv) @ obj_close # ts) l4 ts" by (simp only:)
  moreover have "restored_server env kenum cid sv r = loaded l4"
    by (simp add: restored_server_def l4_def l3_def l2_def)
  ultimately show ?thesis
    using consumes_map js by (simp add: unmarshal_server_def)
qed

lemma server_doc_ok:
  assumes "enumerates (env_enum env)" "server_text_ok env kenum sv" "text_ok now" "text_ok cid"
  shows "doc_ok (Obj (server_doc env kenum now cid sv))"
proof -
  have "doc_ok (Obj (ids_doc (env_enum env) (sv_ids sv)))" "doc_ok (Obj (sm_doc kenum (env_enum env) (sv_sm sv)))"
    "doc_ok (Obj (retained_doc (sv_retained sv)))"
    using assms ids_json.documents sm_json.documents retained_json.documents unfolding server_text_ok_def by blast+
  moreover have "\<forall>np \<in> set (awaits_ack_snapshot env sv). doc_ok (Obj (nats_pub_doc np))"
    using assms(2) nats_pub_json.documents unfolding server_text_ok_def by blast
  ultimately show ?thesis using assms(3,4) by (simp add: server_doc_def text_ok_ascii del: doc_ok.simps(3)) (simp add: text_ok_ascii)
qed

text \<open>What is persisted is loaded.\<close>

lemma persist_load:
  assumes lib: "json_library js toks" and enum: "enumerates (env_enum env)" and ok: "server_text_ok env kenum sv"
    and s: "server_session sv = Inr s" "text_ok (ses_client_id s)" and now: "text_ok now" "now \<notin> server_keys"
  shows "\<exists>bs. persist_server env kenum now js None None sv = Inr bs
    \<and> load_server js (Inr (Some bs)) r = Inr (restored_server env kenum (ses_client_id s) sv r)"
proof -
  let ?ms = "server_doc env kenum now (ses_client_id s) sv"
  have js: "writes_text js" "reads_tokens js toks" "reads_documents js toks" using lib by (simp_all add: json_library_def)
  have "toks (js_decoder js (render js (Obj ?ms))) = obj_open # member_tokens ?ms @ obj_close # []"
    using js(3) server_doc_ok [OF enum ok now(1) s(2)] by (simp add: reads_documents_def del: render.simps doc_ok.simps)
  moreover have "consumes toks (read_consumer js (unmarshal_server js) r) (obj_open # member_tokens ?ms @ obj_close # [])
      (True, restored_server env kenum (ses_client_id s) sv r) []"
    unfolding read_consumer_def
    by (rule consumes_then [OF reads_tokensD(8) [OF js(2)]])
      (simp add: consumes_map [OF server_reads [OF js(2) enum ok now(2)]])
  ultimately obtain d' where "read_consumer js (unmarshal_server js) r (js_decoder js (render js (Obj ?ms)))
      = Inr ((True, restored_server env kenum (ses_client_id s) sv r), d')"
    by (auto elim: consumesE)
  then have "load_server js (Inr (Some (render js (Obj ?ms)))) r = Inr (restored_server env kenum (ses_client_id s) sv r)"
    unfolding load_server_def by simp
  moreover have "persist_server env kenum now js None None sv = Inr (render js (Obj ?ms))"
    using server_writes [OF js(1) s(1), of env kenum now "[]"] by (simp add: persist_server_def del: render.simps)
  ultimately show ?thesis by blast
qed

section \<open>A restart\<close>

text \<open>What a restarted bridge \<open>sv'\<close> has of the state of the one that was shut down.\<close>

definition restored_track :: "nats_pub \<Rightarrow> nats_pub" where
  "restored_track np = np\<lparr>np_pp := restored_publish (np_pp np)\<rparr>"

definition survives :: "'w server \<Rightarrow> 'w server \<Rightarrow> bool" where
  "survives sv sv' \<longleftrightarrow>
     next_free (sv_ids sv') = next_free (sv_ids sv) \<and> dom (in_flight (sv_ids sv')) = dom (in_flight (sv_ids sv))
   \<and> order (sv_retained sv') = order (sv_retained sv)
   \<and> msgs (sv_retained sv') = map_option restored_publish \<circ> msgs (sv_retained sv)
   \<and> sm_seed (sv_sm sv') = sm_seed (sv_sm sv)
   \<and> (\<forall>k a. sm_get k (sv_sm sv) = Some a \<longrightarrow>
        (\<exists>b. sm_get k (sv_sm sv') = Some b
           \<and> sm_heap (sv_sm sv') b = map_option restored_session (sm_heap (sv_sm sv) a)))
   \<and> read_map (sv_pub_acks sv') = map_option restored_track \<circ> read_map (sv_pub_acks sv)
   \<and> sv_timer sv' = (sv_pub_acks sv \<noteq> None)
   \<and> server_session sv' = map_sum id restored_session (server_session sv)"

lemma drain_end_frame [simp]:
  "sv_ids (drain_end env sv) = sv_ids sv" "sv_retained (drain_end env sv) = sv_retained sv"
  "sv_sm (drain_end env sv) = sv_sm sv" "sv_pub_acks (drain_end env sv) = sv_pub_acks sv"
  "sv_session (drain_end env sv) = sv_session sv"
  by (simp_all add: drain_end_def Let_def close_conn_def split: option.split)

lemma drain_end_same [simp]:
  "server_session (drain_end env sv) = server_session sv"
  "awaits_ack_snapshot env (drain_end env sv) = awaits_ack_snapshot env sv"
  "server_text_ok env kenum (drain_end env sv) = server_text_ok env kenum sv"
  "restored_server env kenum cid (drain_end env sv) r = restored_server env kenum cid sv r"
  by (simp_all add: server_session_def awaits_ack_snapshot_def server_text_ok_def restored_server_def cong: option.case_cong)

lemma fold_tracks_at:
  "\<forall>np \<in> set nps. m (pub_id (np_pp np)) = Some np \<Longrightarrow>
   fold (\<lambda>np m. m(pub_id (np_pp np) \<mapsto> \<lparr>np_pp = restored_publish (np_pp np), np_creds = np_creds np\<rparr>)) nps f k
     = (if k \<in> (\<lambda>np. pub_id (np_pp np)) ` set nps then map_option restored_track (m k) else f k)"
proof (induction nps arbitrary: f)
  case (Cons np nps)
  have "restored_track np = \<lparr>np_pp = restored_publish (np_pp np), np_creds = np_creds np\<rparr>"
    by (simp add: restored_track_def)
  with Cons show ?case by auto
qed simp

lemma restored_tracks_snapshot:
  assumes "acks_ok sv" "enumerates (env_enum env)"
  shows "restored_tracks (awaits_ack_snapshot env sv) = map_option restored_track \<circ> read_map (sv_pub_acks sv)"
    and "awaits_ack_snapshot env sv = [] \<longleftrightarrow> sv_pub_acks sv = None"
proof -
  let ?m = "made_map (sv_pub_acks sv)"
  have r: "read_map (sv_pub_acks sv) = ?m" by (auto simp: read_map_def fun_eq_iff split: option.split)
  have s: "set (awaits_ack_snapshot env sv) = (\<lambda>k. the (?m k)) ` dom ?m"
    using assms(2) by (simp add: awaits_ack_snapshot_def Let_def enumerates_def)
  have i: "\<forall>np \<in> set (awaits_ack_snapshot env sv). ?m (pub_id (np_pp np)) = Some np"
    using assms(1) by (auto simp: s acks_ok_def r)
  have "(\<lambda>np. pub_id (np_pp np)) ` set (awaits_ack_snapshot env sv) = dom ?m"
    using assms(1) by (force simp: s acks_ok_def r image_iff)
  with fold_tracks_at [OF i, of Map.empty] show "restored_tracks (awaits_ack_snapshot env sv) = map_option restored_track \<circ> read_map (sv_pub_acks sv)"
    by (auto simp: restored_tracks_def r fun_eq_iff domIff)
  have "awaits_ack_snapshot env sv = [] \<longleftrightarrow> dom ?m = {}" using s by (metis image_is_empty set_empty)
  with assms(1) show "awaits_ack_snapshot env sv = [] \<longleftrightarrow> sv_pub_acks sv = None"
    by (cases "sv_pub_acks sv") (auto simp: acks_ok_def)
qed

end
