(* ===== verification/Json_Text.thy ===== *)
theory Json_Text
  imports Json
begin

text \<open>
  An executable instance of the streaming packages, which satisfies \<open>json_library\<close>, for the
  evaluation of properties that rest on it: strings are quoted by escaping the quotation mark
  and the backslash, and a decoder is the list of tokens that is left.
\<close>

section \<open>Quoting and scanning\<close>

abbreviation quot :: char where "quot \<equiv> CHR 0x22"
abbreviation backslash :: char where "backslash \<equiv> CHR 0x5C"

definition escape :: "char \<Rightarrow> string" where
  "escape c = (if c = quot \<or> c = backslash then [backslash, c] else [c])"

definition quoted :: "string \<Rightarrow> string" where
  "quoted s = quot # concat (map escape s) @ [quot]"

text \<open>The flag says whether a backslash precedes.\<close>

fun scan_string :: "bool \<Rightarrow> string \<Rightarrow> string \<times> string" where
  "scan_string e [] = ([], [])"
| "scan_string e (c # cs) =
     (if \<not> e \<and> c = quot then ([], cs)
      else if \<not> e \<and> c = backslash then scan_string True cs
      else (case scan_string False cs of (s, r) \<Rightarrow> (c # s, r)))"

lemma scan_string_shrinks: "(s, r) = scan_string e cs \<Longrightarrow> length r \<le> length cs"
  by (induction e cs arbitrary: s r rule: scan_string.induct) (force split: if_splits prod.splits)+

lemma scan_escaped: "scan_string False (concat (map escape s) @ quot # r) = (s, r)"
  by (induction s) (simp_all add: escape_def)

definition digit :: "char \<Rightarrow> bool" where
  "digit c \<longleftrightarrow> (let n = of_char c :: nat in 48 \<le> n \<and> n \<le> 57)"

function lex :: "string \<Rightarrow> token list" where
  "lex [] = []"
| "lex (c # cs) =
     (if c \<in> set ''{}[]'' then TDelim c # lex cs
      else if c = quot then (case scan_string False cs of (s, r) \<Rightarrow> TString s # lex r)
      else if digit c \<or> c = CHR ''-'' then
        (case atoi (c # takeWhile digit cs) of
           None \<Rightarrow> []
         | Some n \<Rightarrow> TInt n # lex (dropWhile digit cs))
      else lex cs)"
  by pat_completeness auto
termination
  by (relation "measure length") (auto simp: le_imp_less_Suc length_dropWhile_le dest: scan_string_shrinks)

declare lex.simps(2) [simp del]

lemma lex_delim: "c \<in> set ''{}[]'' \<Longrightarrow> lex (c # cs) = TDelim c # lex cs"
  by (rule trans [OF lex.simps(2)]) (rule if_P)

lemma not_digit: "\<not> digit CHR '',''" "\<not> digit CHR '':''" "\<not> digit CHR ''}''" "\<not> digit CHR '']''"
  by (simp_all add: digit_def)

lemma lex_separator: "c = CHR '','' \<or> c = CHR '':'' \<Longrightarrow> lex (c # cs) = lex cs"
  by (rule trans [OF lex.simps(2)]) (elim disjE; simp add: not_digit)

lemma lex_quoted: "lex (quoted s @ r) = TString s # lex r"
  by (simp add: quoted_def lex.simps scan_escaped)

text \<open>An integer ends before the first character that is not a digit.\<close>

definition ends_number :: "string \<Rightarrow> bool" where
  "ends_number r \<longleftrightarrow> (case r of [] \<Rightarrow> True | c # cs \<Rightarrow> \<not> digit c)"

lemma takeWhile_digits:
  "\<forall>c \<in> set ds. digit c \<Longrightarrow> ends_number r \<Longrightarrow> takeWhile digit (ds @ r) = ds \<and> dropWhile digit (ds @ r) = r"
  by (induction ds) (auto simp: ends_number_def split: list.splits)

lemma itoa_digits: "\<exists>c ds. itoa n = c # ds \<and> (digit c \<or> c = CHR ''-'') \<and> (\<forall>d \<in> set ds. digit d)"
proof -
  have d: "\<forall>d \<in> set (itoa_nat k). digit d" for k
    using itoa_nat_digits [of _ k] by (simp add: digit_def Let_def)
  obtain c ds where "itoa_nat (nat n) = c # ds" by (meson itoa_nat_nonempty neq_Nil_conv)
  with d [of "nat n"] d [of "nat (- n)"] show ?thesis by (cases "n < 0") (auto simp: itoa_def)
qed

lemma lex_itoa:
  assumes "- (2 ^ 63) \<le> n" "n < 2 ^ 63" "ends_number r"
  shows "lex (itoa n @ r) = TInt n # lex r"
proof -
  obtain c ds where i: "itoa n = c # ds" "digit c \<or> c = CHR ''-''" "\<forall>d \<in> set ds. digit d"
    using itoa_digits by blast
  then have "c \<notin> set ''{}[]''" "c \<noteq> quot" by (auto simp: digit_def)
  moreover have "atoi (c # ds) = Some n" using atoi_itoa [of n] assms(1,2) i(1) by simp
  ultimately show ?thesis
    using takeWhile_digits [OF i(3) assms(3)] i(2) by (auto simp: i(1) lex.simps(2))
qed

section \<open>The instance\<close>

definition read_token :: "(token \<Rightarrow> 'a option) \<Rightarrow> token list \<Rightarrow> go_error + 'a \<times> token list" where
  "read_token f ts =
     (case ts of
        [] \<Rightarrow> Inl ErrUnexpectedEOF
      | t # ts \<Rightarrow> (case f t of None \<Rightarrow> Inl (ErrorString ''unexpected token'') | Some x \<Rightarrow> Inr (x, ts)))"

definition token_string :: "token \<Rightarrow> string option" where
  "token_string t = (case t of TString s \<Rightarrow> Some s | _ \<Rightarrow> None)"

definition token_int :: "token \<Rightarrow> int option" where
  "token_int t = (case t of TInt n \<Rightarrow> Some n | _ \<Rightarrow> None)"

definition or_end :: "char \<Rightarrow> (token \<Rightarrow> 'a option) \<Rightarrow> token \<Rightarrow> 'a option option" where
  "or_end c f t = (if t = TDelim c then Some None else map_option Some (f t))"

definition text_json :: "token list json" where
  "text_json =
     \<lparr>js_text = \<lambda>s w. w @ bytes_of s, js_byte = \<lambda>b w. w @ [b], js_int = \<lambda>n w. w @ bytes_of (itoa n),
      js_quoted = \<lambda>s w. w @ bytes_of (quoted s), js_decoder = \<lambda>bs. lex (string_of bs),
      js_assert = \<lambda>t c. if t = TDelim c then None else Some (ErrorString ''unexpected token''),
      js_next = read_token Some, js_next_or_end = \<lambda>c. read_token (or_end c Some),
      js_read_string = read_token token_string, js_read_string_or_end = \<lambda>c. read_token (or_end c token_string),
      js_read_int = read_token token_int, js_read_int_or_end = \<lambda>c. read_token (or_end c token_int),
      js_read_delim = \<lambda>c. read_token (\<lambda>t. if t = TDelim c then Some () else None)\<rparr>"

lemma text_json_tokens: "reads_tokens text_json id"
  by (simp add: reads_tokens_def consumes_def text_json_def read_token_def or_end_def token_string_def token_int_def)

lemma escape_plain: "plain s \<Longrightarrow> concat (map escape s) = s"
  by (induction s) (auto simp: escape_def plain_char_def)

lemma text_json_writes: "writes_text text_json"
  by (simp add: writes_text_def text_json_def quoted_def escape_plain bytes_of_append)

lemma text_json_render: "js_quoted text_json s [] = bytes_of (quoted s)"
  by (simp add: text_json_def)

section \<open>The text of a document\<close>

lemma string_of_append: "string_of (xs @ ys) = string_of xs @ string_of ys"
  by (simp add: string_of_def)

lemma string_of_comma: "string_of (comma # xs) = CHR '','' # string_of xs"
  by (simp add: string_of_def)

lemma lex_join:
  assumes "\<And>x r. x \<in> set xs \<Longrightarrow> ends_number r \<Longrightarrow> lex (string_of (item x) @ r) = tk x @ lex r" "ends_number r"
  shows "lex (string_of (join_with comma (map item xs)) @ r) = concat (map tk xs) @ lex r"
  using assms(1)
proof (induction xs)
  case (Cons x xs)
  have e: "ends_number (CHR '','' # cs)" for cs by (simp add: ends_number_def not_digit)
  show ?case
  proof (cases "xs = []")
    case True
    then show ?thesis using Cons.prems [of x r] assms(2) by simp
  next
    case False
    then have "lex (string_of (join_with comma (map item (x # xs))) @ r)
        = lex (string_of (item x) @ CHR '','' # string_of (join_with comma (map item xs)) @ r)"
      by (simp add: join_with_Cons string_of_append string_of_comma)
    also have "\<dots> = tk x @ lex (string_of (join_with comma (map item xs)) @ r)"
      using Cons.prems [of x, OF _ e] by (simp add: lex_separator)
    finally show ?thesis using Cons by simp
  qed
qed simp

lemma lex_render:
  "doc_ok v \<Longrightarrow> ends_number r \<Longrightarrow> lex (string_of (render text_json v) @ r) = tokens v @ lex r"
proof (induction v arbitrary: r)
  case (Str s)
  then show ?case by (simp add: text_json_render lex_quoted)
next
  case (Num n)
  then show ?case by (simp add: lex_itoa)
next
  case (Obj ms)
  let ?item = "\<lambda>(k, v). js_quoted text_json k [] @ bytes_of '':'' @ render text_json v"
  let ?tk = "\<lambda>(k, v). TString k # tokens v"
  have "lex (string_of (?item m) @ r) = ?tk m @ lex r" if "m \<in> set ms" "ends_number r" for m r
  proof -
    obtain k v where m: "m = (k, v)" by fastforce
    with that Obj have "lex (string_of (render text_json v) @ r) = tokens v @ lex r" by auto
    then show ?thesis by (simp add: m string_of_append text_json_render lex_quoted lex_separator)
  qed
  then have "lex (string_of (join_with comma (map ?item ms)) @ ''}'' @ r) = member_tokens ms @ lex (''}'' @ r)"
    by (rule lex_join) (simp_all add: ends_number_def not_digit)
  then show ?case by (simp add: string_of_append lex_delim)
next
  case (Arr vs)
  then have "lex (string_of (render text_json v) @ r) = tokens v @ lex r" if "v \<in> set vs" "ends_number r" for v r
    using that by simp
  then have "lex (string_of (join_with comma (map (render text_json) vs)) @ '']'' @ r) = concat (map tokens vs) @ lex ('']'' @ r)"
    by (rule lex_join) (simp_all add: ends_number_def not_digit)
  then show ?case by (simp add: string_of_append lex_delim)
qed

lemma text_json_library: "json_library text_json id"
proof -
  have "lex (string_of (render text_json v)) = tokens v" if "doc_ok v" for v
    using lex_render [OF that, of "[]"] by (simp add: ends_number_def)
  then show ?thesis
    using text_json_tokens text_json_writes
    by (simp add: json_library_def reads_documents_def) (simp add: text_json_def)
qed

end
