(* ===== verification/Restart.thy ===== *)
theory Restart
  imports Persist Json_Text
begin

text \<open>
  The properties of the persisted state: what a bridge that is shut down and started again
  keeps, what it loses, and the answers to requests for retained messages.
\<close>

section \<open>What survives\<close>

lemma restored_server_fields:
  "sv_ids (restored_server env kenum cid sv r) = restored_ids (sv_ids sv)"
  "sv_sm (restored_server env kenum cid sv r) = restored_sm kenum (sv_sm sv) (sv_sm r)"
  "sv_retained (restored_server env kenum cid sv r)
     = (if retained_empty (sv_retained sv) then sv_retained r else restored_retained (sv_retained sv))"
  "cid \<noteq> [] \<Longrightarrow> sv_session (restored_server env kenum cid sv r) = sm_get cid (restored_sm kenum (sv_sm sv) (sv_sm r))"
  by (simp_all add: restored_server_def loaded_def Let_def)

lemma restored_server_acks:
  assumes "acks_ok sv" "enumerates (env_enum env)" "sv_pub_acks sv = None \<Longrightarrow> sv_pub_acks r = None" "\<not> sv_timer r"
  shows "read_map (sv_pub_acks (restored_server env kenum cid sv r)) = map_option restored_track \<circ> read_map (sv_pub_acks sv)"
    and "sv_timer (restored_server env kenum cid sv r) \<longleftrightarrow> sv_pub_acks sv \<noteq> None"
proof -
  let ?t = "map_option restored_track \<circ> read_map (sv_pub_acks sv)"
  note snap = restored_tracks_snapshot [OF assms(1,2)]
  have "dom ?t = dom (read_map (sv_pub_acks sv))" by (auto simp: dom_def)
  moreover have "dom (read_map (sv_pub_acks sv)) = {} \<longleftrightarrow> sv_pub_acks sv = None"
    using assms(1) by (cases "sv_pub_acks sv") (auto simp: acks_ok_def read_map_def dom_def fun_eq_iff)
  ultimately have e: "dom ?t = {} \<longleftrightarrow> sv_pub_acks sv = None" by simp
  show "read_map (sv_pub_acks (restored_server env kenum cid sv r)) = ?t"
    using e assms(3) snap by (cases "sv_pub_acks sv") (auto simp: restored_server_def loaded_def Let_def read_map_def fun_eq_iff)
  show "sv_timer (restored_server env kenum cid sv r) \<longleftrightarrow> sv_pub_acks sv \<noteq> None"
    using e assms(4) snap by (cases "sv_pub_acks sv") (simp_all add: restored_server_def loaded_def Let_def)
qed

lemma restored_ids_frame:
  "next_free (restored_ids s) = next_free s" "dom (in_flight (restored_ids s)) = dom (in_flight s)"
  by (auto simp: restored_ids_def split: if_splits)

lemma registered_session:
  assumes "sm_ok m" "sm_get k m = Some a"
  shows "sm_heap m a = Some (registered m k)"
  using assms by (auto simp: sm_get_def registered_def elim!: sm_okD)

lemma empty_retained:
  "retained_ok r \<Longrightarrow> retained_empty r \<Longrightarrow> order r = [] \<and> msgs r = Map.empty"
  using dom_eq_empty_conv [of "msgs r"] by (auto simp: retained_empty_def retained_ok_def)

lemma restored_server_survives:
  assumes ok: "sv_ok sv" and enum: "enumerates (env_enum env)" and strs: "server_text_ok env kenum sv"
    and s: "server_session sv = Inr s" "sm_get (ses_client_id s) (sv_sm sv) = sv_session sv" "ses_client_id s \<noteq> []"
    and r: "sv_pub_acks sv = None \<Longrightarrow> sv_pub_acks r = None" "\<not> sv_timer r"
      "retained_empty (sv_retained sv) \<Longrightarrow> order (sv_retained r) = [] \<and> msgs (sv_retained r) = Map.empty"
  shows "survives sv (restored_server env kenum (ses_client_id s) sv r)"
proof -
  let ?sm = "restored_sm kenum (sv_sm sv) (sv_sm r)"
  have smt: "sm_text_ok kenum (sv_sm sv)" and sm: "sm_ok (sv_sm sv)" and ret: "retained_ok (sv_retained sv)"
    using strs ok by (simp_all add: server_text_ok_def sv_ok_def)
  have sessions: "\<exists>b. sm_get k ?sm = Some b \<and> sm_heap ?sm b = map_option restored_session (sm_heap (sv_sm sv) a)"
    if "sm_get k (sv_sm sv) = Some a" for k a
    using restored_sm_registered [OF smt, of k "sv_sm r"] registered_session [OF sm that] that
    by (auto simp: sm_get_def)
  obtain a where a: "sv_session sv = Some a" "sm_heap (sv_sm sv) a = Some s"
    using s(1) by (auto simp: server_session_def split: option.splits)
  with sessions [of "ses_client_id s" a] s(2,3)
  have "server_session (restored_server env kenum (ses_client_id s) sv r) = Inr (restored_session s)"
    by (auto simp: server_session_def restored_server_fields)
  moreover note empty_retained [OF ret]
  then have "order (if retained_empty (sv_retained sv) then sv_retained r else restored_retained (sv_retained sv)) = order (sv_retained sv)"
    "msgs (if retained_empty (sv_retained sv) then sv_retained r else restored_retained (sv_retained sv))
      = map_option restored_publish \<circ> msgs (sv_retained sv)"
    using r(3) by (auto simp: restored_retained_def)
  ultimately show ?thesis
    using restored_server_acks [OF sv_ok_acks [OF ok] enum r(1,2)] sessions s(1) restored_sm_frame(1)
    by (simp add: survives_def restored_server_fields restored_ids_frame)
qed

lemma new_server_fields:
  "sv_pub_acks (new_server uid w) = None" "\<not> sv_timer (new_server uid w)" "sv_retained (new_server uid w) = new_retained"
  "sm_heap (sv_sm (new_server uid w)) 0 = Some (new_session ''s1'' (''mqtt-nats-'' @ uid))"
  "sm_next (sv_sm (new_server uid w)) = 1" "sm_get (''mqtt-nats-'' @ uid) (sv_sm (new_server uid w)) = Some 0"
  by (simp_all add: new_server_def sm_create_def new_sm_def sm_get_def itoa_def itoa_nat.simps digit_char_def char_of_def bit_0 Let_def)

lemma shutdown_persists:
  assumes "json_library js toks" "enumerates (env_enum env)" "storage_path (env_opts env) \<noteq> []"
    and "sv_ok sv" "server_text_ok env kenum sv" "server_session sv = Inr s" "sm_get (ses_client_id s) (sv_sm sv) = sv_session sv"
    and "text_ok now" "now \<notin> server_keys"
  shows "\<exists>bs. shutdown_server env kenum now js None None sv = Inr (drain_end env sv, Some bs)
    \<and> (\<forall>r. load_server js (Inr (Some bs)) r = Inr (restored_server env kenum (ses_client_id s) sv r))"
proof -
  have "ses_client_id s \<in> dom (sm_m (sv_sm sv))"
    using assms(4,6,7) by (auto simp: sv_ok_def sm_get_def server_session_def split: option.splits)
  then have cid: "text_ok (ses_client_id s)" using assms(5) by (simp add: server_text_ok_def sm_text_ok_def)
  have d: "server_text_ok env kenum (drain_end env sv)" "server_session (drain_end env sv) = Inr s"
    using assms(5,6) by simp_all
  note load = persist_load [OF assms(1,2) d cid assms(8,9)]
  from load [of sv] obtain bs where bs: "persist_server env kenum now js None None (drain_end env sv) = Inr bs"
    by auto
  have "load_server js (Inr (Some bs)) r = Inr (restored_server env kenum (ses_client_id s) sv r)" for r
    using load [of r] bs by auto
  then show ?thesis using bs assms(3) by (simp add: shutdown_server_def Let_def)
qed

section \<open>Properties\<close>

text \<open>A bridge that is shut down and started again on the same storage file keeps its state: the
  packet identifiers in flight, the retained messages in their order, the session of every
  client with the acknowledgements it waits for, and the messages it republishes, whose timer
  runs again; provided that the strings in that state are valid UTF-8 and its own session is
  registered.\<close>

theorem restart_keeps_state:
  assumes "json_library js toks" "enumerates (env_enum env)" "storage_path (env_opts env) \<noteq> []"
    and "sv_ok sv" "server_text_ok env kenum sv"
    and "server_session sv = Inr s" "sm_get (ses_client_id s) (sv_sm sv) = sv_session sv" "ses_client_id s \<noteq> []"
    and "text_ok now" "now \<notin> server_keys"
  shows "\<exists>sv1 bs sv'. shutdown_server env kenum now js None None sv = Inr (sv1, Some bs)
    \<and> start_server env js uid (Inr (Some bs)) w = Inr sv' \<and> survives sv sv'"
proof -
  obtain bs where bs: "shutdown_server env kenum now js None None sv = Inr (drain_end env sv, Some bs)"
    "\<And>r. load_server js (Inr (Some bs)) r = Inr (restored_server env kenum (ses_client_id s) sv r)"
    using shutdown_persists [OF assms(1-7,9,10)] by blast
  have "survives sv (restored_server env kenum (ses_client_id s) sv (new_server uid w))"
    by (intro restored_server_survives [OF assms(4,2,5-8)]) (simp_all add: new_server_fields(1-3) new_retained_def)
  with bs assms(3) show ?thesis by (simp add: start_server_def Let_def)
qed

definition stored_env :: "nats_call list env" where
  "stored_env = log_env\<lparr>env_opts := (env_opts log_env)\<lparr>storage_path := ''mqtt-nats.json''\<rparr>\<rparr>"

lemma stored_env_simps [simp]:
  "env_enum stored_env = sorted_list_of_set" "storage_path (env_opts stored_env) \<noteq> []" "env_nats stored_env = log_nats"
  by (simp_all add: stored_env_def log_env_def)

text \<open>A bridge with one message that it republishes.\<close>

definition tracking_server :: "nats_call list server" where
  "tracking_server = track_ack_received tracked_pub None (new_server ''u'' [])"

lemma tracking_server_fields:
  "sv_ok tracking_server" "server_session tracking_server = Inr (new_session ''s1'' ''mqtt-nats-u'')"
  "sm_get ''mqtt-nats-u'' (sv_sm tracking_server) = sv_session tracking_server"
  "sv_pub_acks tracking_server = Some [2 \<mapsto> \<lparr>np_pp = tracked_pub, np_creds = None\<rparr>]"
  "sv_retained tracking_server = new_retained" "dom (sm_m (sv_sm tracking_server)) = {''mqtt-nats-u''}"
  "registered (sv_sm tracking_server) ''mqtt-nats-u'' = new_session ''s1'' ''mqtt-nats-u''"
proof -
  show "sv_ok tracking_server" by (simp add: tracking_server_def track_ok new_server_ok)
qed (simp_all add: tracking_server_def track_ack_received_def new_server_def sm_create_def new_sm_def sm_get_def
    server_session_def registered_def itoa_def itoa_nat.simps digit_char_def char_of_def bit_0 Let_def)

lemma tracking_server_text: "server_text_ok stored_env (\<lambda>_. [''mqtt-nats-u'']) tracking_server"
proof -
  have t: "text_ok ''mqtt-nats-u''" "text_ok ''s1''" "text_ok ''gone''" "text_ok []" by (rule text_ok_ascii, simp)+
  then have "session_text_ok (new_session ''s1'' ''mqtt-nats-u'')"
    by (simp add: session_text_ok_def new_session_def)
  moreover have "publish_text_ok tracked_pub" using t
    by (simp add: publish_text_ok_def tracked_pub_def new_publish2_def set_dup_def)
  then have "\<forall>np \<in> set (awaits_ack_snapshot stored_env tracking_server). nats_pub_text_ok np"
    by (simp add: awaits_ack_snapshot_def tracking_server_fields nats_pub_text_ok_def Let_def)
  moreover have "retained_text_ok new_retained" by (simp add: retained_text_ok_def retained_ok_def new_retained_def)
  ultimately show ?thesis
    using t by (simp add: server_text_ok_def sm_text_ok_def tracking_server_fields)
qed

theorem restart_keeps_state_witness:
  "\<exists>sv1 bs sv'. shutdown_server stored_env (\<lambda>_. [''mqtt-nats-u'']) ''now'' text_json None None tracking_server = Inr (sv1, Some bs)
    \<and> start_server stored_env text_json ''v'' (Inr (Some bs)) [] = Inr sv'
    \<and> read_map (sv_pub_acks sv') 2 = Some \<lparr>np_pp = tracked_pub, np_creds = None\<rparr> \<and> sv_timer sv'"
proof -
  have "text_ok ''now''" by (rule text_ok_ascii) simp
  with restart_keeps_state [OF text_json_library, of stored_env tracking_server "\<lambda>_. [''mqtt-nats-u'']"
      "new_session ''s1'' ''mqtt-nats-u''" "''now''" "''v''" "[]"]
  obtain sv1 bs sv' where r: "shutdown_server stored_env (\<lambda>_. [''mqtt-nats-u'']) ''now'' text_json None None tracking_server = Inr (sv1, Some bs)"
    "start_server stored_env text_json ''v'' (Inr (Some bs)) [] = Inr sv'" "survives tracking_server sv'"
    using tracking_server_text by (auto simp: tracking_server_fields enumerates_sorted new_session_def server_keys_def)
  have "read_map (sv_pub_acks sv') = map_option restored_track \<circ> read_map (sv_pub_acks tracking_server)"
    "sv_timer sv' = (sv_pub_acks tracking_server \<noteq> None)"
    using r(3) unfolding survives_def by blast+
  then have "read_map (sv_pub_acks sv') 2 = Some \<lparr>np_pp = tracked_pub, np_creds = None\<rparr> \<and> sv_timer sv'"
    by (simp add: tracking_server_fields read_map_def restored_track_def restored_publish_def)
      (simp add: tracked_pub_def new_publish2_def set_dup_def)
  with r(1,2) show ?thesis by blast
qed

text \<open>C37: A session that is persisted while its client is away loses the acknowledgements it waits for at
  the second restart: the first restores their subjects for the return of the client, but these
  are not written again.\<close>

theorem second_restart_loses_acks:
  assumes "json_library js toks" "enumerates enum" "session_text_ok s" "read_map (awaits_ack s) k = Some sb"
  shows "\<exists>s1 s2 d1 d2.
      read_consumer js (unmarshal_session js) zero_session (js_decoder js (marshal_session enum js s [])) = Inr ((True, s1), d1)
    \<and> read_consumer js (unmarshal_session js) zero_session (js_decoder js (marshal_session enum js s1 [])) = Inr ((True, s2), d2)
    \<and> read_map (prel_awaits_ack s1) k = Some (ns_subject sb)
    \<and> read_map (prel_awaits_ack s2) k = None \<and> read_map (awaits_ack s2) k = None"
proof -
  have ok1: "session_text_ok (restored_session s)"
    using assms(3) by (auto simp: session_text_ok_def restored_session_def restored_map_def ran_def
        publish_text_ok_def restored_publish_def split: if_splits)
  have m: "made_map (awaits_ack s) k = Some sb"
    using assms(4) by (auto simp: read_map_def split: option.splits)
  then have "read_map (prel_awaits_ack (restored_session s)) k = Some (ns_subject sb)"
    by (auto simp: restored_session_def restored_map_def read_map_def)
  moreover have "read_map (prel_awaits_ack (restored_session (restored_session s))) k = None"
    "read_map (awaits_ack (restored_session (restored_session s))) k = None"
    by (simp_all add: restored_session_def restored_map_def read_map_def)
  ultimately show ?thesis
    using session_json.file_round_trip [OF assms(1) conjI [OF assms(2,3)] refl]
      session_json.file_round_trip [OF assms(1) conjI [OF assms(2) ok1] refl] by blast
qed

theorem second_restart_loses_acks_witness:
  "\<exists>s1 s2 d1 d2. read_consumer text_json (unmarshal_session text_json) zero_session
        (js_decoder text_json (marshal_session sorted_list_of_set text_json
           (ack_requested 7 \<lparr>ns_ref = 0, ns_subject = ''r''\<rparr> (new_session ''s1'' ''c'')) [])) = Inr ((True, s1), d1)
    \<and> read_consumer text_json (unmarshal_session text_json) zero_session
        (js_decoder text_json (marshal_session sorted_list_of_set text_json s1 [])) = Inr ((True, s2), d2)
    \<and> read_map (prel_awaits_ack s1) 7 = Some ''r'' \<and> read_map (prel_awaits_ack s2) 7 = None"
proof -
  let ?s = "ack_requested 7 \<lparr>ns_ref = 0, ns_subject = ''r''\<rparr> (new_session ''s1'' ''c'')"
  have "text_ok ''s1''" "text_ok ''c''" "text_ok ''r''" by (rule text_ok_ascii, simp)+
  then have "session_text_ok ?s" "read_map (awaits_ack ?s) 7 = Some \<lparr>ns_ref = 0, ns_subject = ''r''\<rparr>"
    by (simp_all add: session_text_ok_def ack_requested_def new_session_def read_map_def)
  from second_restart_loses_acks [OF text_json_library enumerates_sorted this] show ?thesis by (metis nats_sub.select_convs(2))
qed



text \<open>A PUBLISH packet is read back as it was written, whatever bytes its payload has, but for the
  mark that the bridge itself sent it; its texts have to be valid UTF-8.\<close>

theorem publish_persisted:
  assumes "json_library js toks" "publish_text_ok p"
  shows "\<exists>d. read_consumer js (unmarshal_publish js) zero_publish (js_decoder js (marshal_publish js p []))
    = Inr ((True, p\<lparr>pub_sent_by_us := False\<rparr>), d)"
  using publish_json.file_round_trip [OF assms refl] by (auto simp: restored_publish_def)

theorem publish_persisted_witness:
  "\<exists>d. read_consumer text_json (unmarshal_publish text_json) zero_publish
      (js_decoder text_json (marshal_publish text_json (new_publish 7 ''a'' 2 [0, 255] True ''r'') []))
    = Inr ((True, new_publish 7 ''a'' 2 [0, 255] False ''r''), d)"
proof -
  have "text_ok ''a''" "text_ok ''r''" by (rule text_ok_ascii, simp)+
  then have "publish_text_ok (new_publish 7 ''a'' 2 [0, 255] True ''r'')"
    by (simp add: publish_text_ok_def new_publish_def)
  from publish_persisted [OF text_json_library this] show ?thesis by (simp add: new_publish_def)
qed

section \<open>Requests for retained messages\<close>

definition answer_doc :: "publish \<Rightarrow> (string \<times> doc) list" where
  "answer_doc pp =
     [(''subject'', Str (to_nats (pub_name pp))),
      (if is_printable_ascii (pub_payload pp) then (''payload'', Str (string_of (pub_payload pp)))
       else (''payloadEnc'', Str (b64_encode (pub_payload pp))))]"

lemma answer_writes:
  assumes "writes_text js"
  shows "retained_answer_item js pp w = w @ render js (Obj (answer_doc pp))"
  by (simp add: retained_answer_item_def answer_doc_def Let_def writes_textD [OF assms] json_text)

lemma request_matches:
  assumes "retained_ok r"
  shows "\<exists>pps qs. messages_matching_retain_request data r = Inr (map Some pps, qs) \<and> set pps \<subseteq> ran (msgs r)"
proof -
  have "valid_string (from_nats_subscription t)" for t
    by (simp add: from_nats_subscription_def filter_swap.valid_string_conv)
  then obtain mps qs where m: "messages_matching_retain_request data r = Inr (mps, qs)"
    by (auto simp: messages_matching_retain_request_def Let_def matching_messages_def compile_topics_eq match_all_hits)
  then have "\<forall>mp \<in> set mps. \<exists>p t. mp = Some p \<and> msgs r t = Some p"
    using matching_messages_stored [OF assms] by (simp add: messages_matching_retain_request_def Let_def)
  then have "mps = map Some (map the mps)" "set (map the mps) \<subseteq> ran (msgs r)"
    by (auto simp: ran_def intro!: map_idI [symmetric]) force
  with m show ?thesis by metis
qed

text \<open>C36: A request for retained messages never panics, whatever its payload, and is answered once, with
  the JSON array of the messages that match: for each its NATS subject, and its payload as text
  if that is printable and in base64 otherwise.\<close>

theorem retained_request_answered:
  assumes "writes_text js" "retained_ok (sv_retained sv)"
  shows "\<exists>pps qs. messages_matching_retain_request (msg_data m) (sv_retained sv) = Inr (map Some pps, qs)
    \<and> set pps \<subseteq> ran (msgs (sv_retained sv))
    \<and> handle_retained_request env js m sv
      = Inr (sv\<lparr>sv_world := snd (nats_respond (env_nats env) m
                 (render js (Arr (map (\<lambda>pp. Obj (answer_doc pp)) pps))) (sv_world sv))\<rparr>)"
proof -
  obtain pps qs where r: "messages_matching_retain_request (msg_data m) (sv_retained sv) = Inr (map Some pps, qs)"
    "set pps \<subseteq> ran (msgs (sv_retained sv))"
    using request_matches [OF assms(2)] by blast
  have "write_items js (retained_answer_item js) 0 pps w = w @ join_with comma (map (\<lambda>pp. render js (Obj (answer_doc pp))) pps)" for w
    by (rule write_items_bytes [OF assms(1)]) (rule answer_writes [OF assms(1)])
  then have "handle_retained_request env js m sv
      = Inr (sv\<lparr>sv_world := snd (nats_respond (env_nats env) m
                 (render js (Arr (map (\<lambda>pp. Obj (answer_doc pp)) pps))) (sv_world sv))\<rparr>)"
    by (auto simp: handle_retained_request_def r(1) writes_textD [OF assms(1)] Let_def comp_def json_text)
  with r show ?thesis by blast
qed

theorem retained_request_answered_witness:
  "\<exists>answer. handle_retained_request log_env text_json \<lparr>msg_subject = ''q'', msg_reply = ''r'', msg_data = [0xff]\<rparr> tracking_server
     = Inr (tracking_server\<lparr>sv_world := sv_world tracking_server
         @ [CallRespond \<lparr>msg_subject = ''q'', msg_reply = ''r'', msg_data = [0xff]\<rparr> answer]\<rparr>)"
proof -
  have "retained_ok (sv_retained tracking_server)" by (simp add: tracking_server_fields)
  from retained_request_answered [OF text_json_writes this, of "\<lparr>msg_subject = ''q'', msg_reply = ''r'', msg_data = [0xff]\<rparr>" log_env]
  show ?thesis by (auto simp: log_env_def)
qed

end
