(* ===== verification/Launch.thy ===== *)
theory Launch
  imports Restart Bridge Client_Log
begin

text \<open>
  How the bridge is brought up: the options and exit codes of the command line
  (\<open>cli/mqtt-nats.go\<close>), the listener with its TLS configuration (\<open>getTCPListener\<close>) and a restart of a
  running bridge (\<open>Restart\<close>, \<open>bridge/server.go\<close>).
\<close>

section \<open>All options\<close>

text \<open>
  The options that only this part reads, after those of the server; nothing reads \<open>TLSTimeout\<close>,
  \<open>TLSConfig\<close> and \<open>TLSMap\<close>.
\<close>

record full_options = options +
  op_port :: int
  op_repeat_rate :: int
  op_tls_cert :: string
  op_tls_key :: string
  op_tls_ca_cert :: string
  op_tls :: bool
  op_tls_verify :: bool
  op_debug :: bool

section \<open>The listener\<close>

text \<open>The values of \<open>tls.ClientAuthType\<close>, the fields of \<open>tls.Config\<close> that are set, and what the
  listener needs of the standard library.\<close>

datatype client_auth = NoClientCert | RequestClientCert | RequireAnyClientCert
  | VerifyClientCertIfGiven | RequireAndVerifyClientCert

record ('c, 'p) tls_config =
  certificates :: "'c list"
  client_auth :: client_auth
  client_cas :: "'p option"

record ('l, 'c, 'p) net_library =
  net_listen :: "string \<Rightarrow> go_error + 'l"
  tls_listen :: "string \<Rightarrow> ('c, 'p) tls_config \<Rightarrow> go_error + 'l"
  load_key_pair :: "string \<Rightarrow> string \<Rightarrow> go_error + 'c"
  read_file :: "string \<Rightarrow> go_error + byte list"
  new_cert_pool :: 'p
  append_certs :: "byte list \<Rightarrow> 'p \<Rightarrow> bool \<times> 'p"

definition tls_client_auth :: "full_options \<Rightarrow> ('c, 'p) tls_config \<Rightarrow> ('c, 'p) tls_config" where
  "tls_client_auth opts cfg = (if op_tls_verify opts then cfg\<lparr>client_auth := RequestClientCert\<rparr> else cfg)"

definition tls_client_cas ::
  "('l, 'c, 'p) net_library \<Rightarrow> full_options \<Rightarrow> ('c, 'p) tls_config \<Rightarrow> go_error + ('c, 'p) tls_config" where
  "tls_client_cas lib opts cfg =
     (if op_tls_ca_cert opts \<noteq> []
      then (case read_file lib (op_tls_ca_cert opts) of
              Inl e \<Rightarrow> Inl e
            | Inr pem \<Rightarrow>
                (case append_certs lib pem (new_cert_pool lib) of
                   (ok, roots) \<Rightarrow>
                     if \<not> ok
                     then Inl (ErrorString (''failed to parse root certificate in file: '' @ op_tls_ca_cert opts))
                     else Inr (cfg\<lparr>client_cas := Some roots\<rparr>)))
      else Inr cfg)"

definition get_tcp_listener :: "('l, 'c, 'p) net_library \<Rightarrow> full_options \<Rightarrow> go_error + 'l" where
  "get_tcp_listener lib opts =
     (let ps = '':'' @ itoa (op_port opts)
      in if \<not> op_tls opts then net_listen lib ps
         else (case load_key_pair lib (op_tls_cert opts) (op_tls_key opts) of
                 Inl e \<Rightarrow> Inl e
               | Inr cer \<Rightarrow>
                   (let cfg = tls_client_auth opts
                                \<lparr>certificates = [cer], client_auth = NoClientCert, client_cas = None\<rparr>
                    in case tls_client_cas lib opts cfg of
                         Inl e \<Rightarrow> Inl e
                       | Inr cfg \<Rightarrow> tls_listen lib ps cfg)))"

text \<open>
  The loop of \<open>Serve\<close>: each result of \<open>Accept\<close> with the flag \<open>shuttingDown\<close> at that time, which the
  goroutine that waits for a signal sets.  The connections run beside the loop; their steps are
  those of the theory Bridge.
\<close>

fun serve_loop ::
  "'o logger \<Rightarrow> (bool \<times> (go_error + reader)) list \<Rightarrow> 'w bridge \<Rightarrow> 'o log \<Rightarrow> bool \<times> 'w bridge \<times> 'o log" where
  "serve_loop lg [] b w = (False, b, w)"
| "serve_loop lg ((shutting_down, Inl e) # es) b w =
     (if shutting_down then (True, b, w) else serve_loop lg es b (log_error lg [error_text e] w))"
| "serve_loop lg ((_, Inr conn) # es) b w = serve_loop lg es (accept_conn conn b) w"

text \<open>A listener that fails for another reason than the shutdown is asked again and again.\<close>

lemma serve_loop_spins:
  "serve_loop (new_logger LevelDebug out err) (replicate n (False, Inl e)) b w
   = (False, b, w @ replicate n (err, ''ERROR '', [error_text e]))"
proof (induction n arbitrary: w)
  case (Suc n)
  then show ?case by (simp add: logger_levels level_defs)
qed simp

section \<open>The command line\<close>

text \<open>What the flags are parsed into: the options, and the variables of \<open>Bridge\<close>.\<close>

record cli_flags =
  fl_opts :: full_options
  fl_print_help :: bool
  fl_nats_client_cert :: string
  fl_nats_client_key :: string
  fl_nats_root_cas :: string
  fl_nats_creds_file :: string

definition default_flags :: "string \<Rightarrow> cli_flags" where
  "default_flags nats_default_url =
     \<lparr>fl_opts = \<lparr>storage_path = ''mqtt-nats.json'', nats_urls = nats_default_url, retained_request_topic = [],
        nats_opts = [], op_port = 0, op_repeat_rate = 5000, op_tls_cert = [], op_tls_key = [],
        op_tls_ca_cert = [], op_tls = False, op_tls_verify = False, op_debug = False\<rparr>,
      fl_print_help = False, fl_nats_client_cert = [], fl_nats_client_key = [], fl_nats_root_cas = [],
      fl_nats_creds_file = []\<rparr>"

text \<open>The \<open>nats.Option\<close> values of the NATS library.\<close>

type_synonym nats_option = "nats_options \<Rightarrow> go_error + nats_options"

record nats_option_library =
  nats_name :: "string \<Rightarrow> nats_option"
  nats_user_credentials :: "string \<Rightarrow> nats_option"
  nats_client_cert :: "string \<Rightarrow> string \<Rightarrow> nats_option"
  nats_root_cas :: "string \<Rightarrow> nats_option"

datatype cli_result = Exit int string | Run full_options

definition cli_port :: "full_options \<Rightarrow> cli_result" where
  "cli_port opts =
     (if op_tls opts
      then if op_tls_cert opts = [] \<or> op_tls_key opts = []
           then Exit 2 ''both -tlscert and -tlskey must be given when tls is enabled''
           else Run (if op_port opts = 0 then opts\<lparr>op_port := 8883\<rparr> else opts)
      else Run (if op_port opts = 0 then opts\<lparr>op_port := 1883\<rparr> else opts))"

definition cli_nats_opts :: "nats_option_library \<Rightarrow> cli_flags \<Rightarrow> full_options \<Rightarrow> cli_result" where
  "cli_nats_opts lib fl opts =
     (let os = [nats_name lib ''MQTT Bridge''];
          os = (if fl_nats_creds_file fl \<noteq> [] then os @ [nats_user_credentials lib (fl_nats_creds_file fl)] else os)
      in if fl_nats_client_cert fl \<noteq> [] \<or> fl_nats_client_key fl \<noteq> []
         then if fl_nats_client_cert fl = [] \<or> fl_nats_client_key fl = []
              then Exit 2 ''both -nats-cert and -nats-key must be given to enable client verification''
              else (let os = os @ [nats_client_cert lib (fl_nats_client_cert fl) (fl_nats_client_key fl)]
                    in Run (opts\<lparr>nats_opts := (if fl_nats_root_cas fl \<noteq> [] then os @ [nats_root_cas lib (fl_nats_root_cas fl)] else os)\<rparr>))
         else Run (opts\<lparr>nats_opts := (if fl_nats_root_cas fl \<noteq> [] then os @ [nats_root_cas lib (fl_nats_root_cas fl)] else os)\<rparr>))"

definition cli_options :: "nats_option_library \<Rightarrow> cli_flags \<Rightarrow> cli_result" where
  "cli_options lib fl =
     (if fl_print_help fl then Exit 0 []
      else (case cli_port (fl_opts fl) of
              Exit rc msg \<Rightarrow> Exit rc msg
            | Run opts \<Rightarrow> cli_nats_opts lib fl opts))"

text \<open>
  The end of \<open>Bridge\<close>: the logger, and the exit code, given the result of \<open>New\<close> and the error
  of \<open>Serve\<close>.
\<close>

definition cli_exit :: "'o \<Rightarrow> 'o \<Rightarrow> go_error + 's \<Rightarrow> ('s \<Rightarrow> go_error option) \<Rightarrow> (go_error \<Rightarrow> string) \<Rightarrow> 'o log \<Rightarrow> int \<times> 'o log" where
  "cli_exit stdout stderr s serve text_of w =
     (let lg = new_logger LevelDebug stdout stderr;
          err = (case s of Inl e \<Rightarrow> Some e | Inr b \<Rightarrow> serve b)
      in case err of None \<Rightarrow> (0, w) | Some e \<Rightarrow> (1, log_error lg [text_of e] w))"

section \<open>Restart\<close>

text \<open>
  \<open>Restart\<close>, from the end of the shutdown on: whether that ended within five seconds, the
  storage file, whether a wait group is given, and the error of the listener.  Of \<open>Serve\<close> this
  is \<open>bootUp\<close>, whose wait group may be nil.
\<close>

definition restart_bridge ::
  "'w env \<Rightarrow> 'd json \<Rightarrow> bool \<Rightarrow> go_error + byte list option \<Rightarrow> go_error option \<Rightarrow> bool \<Rightarrow> 'w server
   \<Rightarrow> go_error + go_error option \<times> 'w server" where
  "restart_bridge env js finished file listener ready sv =
     (case (if \<not> finished then Inl (ErrorString ''timeout during bridge shutdown'')
            else if storage_path (env_opts env) \<noteq> [] then load_server js file sv
            else Inr sv) of
        Inr sv1 \<Rightarrow> Inr (boot_up env listener sv1)
      | Inl e \<Rightarrow> if ready then Inr (Some e, sv) else Inl (Panic ''invalid memory address or nil pointer dereference''))"

section \<open>Properties\<close>

lemma boot_up_frame:
  assumes "boot_up env listener sv = (err, sv')"
  shows "sv_ids sv' = sv_ids sv" "sv_retained sv' = sv_retained sv" "sv_sm sv' = sv_sm sv"
    "sv_pub_acks sv' = sv_pub_acks sv" "sv_timer sv' = sv_timer sv" "sv_session sv' = sv_session sv"
  using assms
  by (auto simp: boot_up_def start_retained_request_handler_def server_nats_conn_def nats_conn_def Let_def
      split: option.splits sum.splits prod.splits if_splits)

lemma survives_frame:
  assumes "survives sv sv1" "boot_up env listener sv1 = (err, sv2)"
  shows "survives sv sv2"
  using assms(1) unfolding survives_def server_session_def boot_up_frame [OF assms(2)] .

text \<open>C34: Verification of client certificates, asked for with \<open>-tlsverify\<close>, never takes place: whatever the
  options, a TLS listener is configured at most to request a certificate, which neither requires
  nor verifies one; the root certificates are optional.\<close>

theorem tls_clients_not_verified:
  assumes "get_tcp_listener lib opts = Inr l" "op_tls opts"
  shows "\<exists>cfg cer. tls_listen lib ('':'' @ itoa (op_port opts)) cfg = Inr l
    \<and> load_key_pair lib (op_tls_cert opts) (op_tls_key opts) = Inr cer \<and> certificates cfg = [cer]
    \<and> client_auth cfg = (if op_tls_verify opts then RequestClientCert else NoClientCert)
    \<and> (client_cas cfg = None \<longleftrightarrow> op_tls_ca_cert opts = [])"
proof -
  obtain cer cfg where c: "load_key_pair lib (op_tls_cert opts) (op_tls_key opts) = Inr cer"
    "tls_client_cas lib opts (tls_client_auth opts \<lparr>certificates = [cer], client_auth = NoClientCert, client_cas = None\<rparr>) = Inr cfg"
    "tls_listen lib ('':'' @ itoa (op_port opts)) cfg = Inr l"
    using assms unfolding get_tcp_listener_def Let_def by (auto split: sum.splits)
  moreover have "certificates cfg = [cer] \<and> client_auth cfg = (if op_tls_verify opts then RequestClientCert else NoClientCert)
      \<and> (client_cas cfg = None \<longleftrightarrow> op_tls_ca_cert opts = [])"
    using c(2) by (auto simp: tls_client_auth_def tls_client_cas_def split: sum.splits prod.splits if_splits)
  ultimately show ?thesis by (intro exI [of _ cfg] exI [of _ cer]) simp
qed

definition demo_net :: "((nat, unit) tls_config option, nat, unit) net_library" where
  "demo_net = \<lparr>net_listen = \<lambda>_. Inr None, tls_listen = \<lambda>_ cfg. Inr (Some cfg), load_key_pair = \<lambda>_ _. Inr 7,
     read_file = \<lambda>_. Inl EOF, new_cert_pool = (), append_certs = \<lambda>_ p. (True, p)\<rparr>"

definition verifying_options :: full_options where
  "verifying_options = \<lparr>storage_path = [], nats_urls = [], retained_request_topic = [], nats_opts = [], op_port = 8883,
     op_repeat_rate = 5000, op_tls_cert = ''c'', op_tls_key = ''k'', op_tls_ca_cert = [], op_tls = True,
     op_tls_verify = True, op_debug = False\<rparr>"

theorem tls_clients_not_verified_witness:
  "\<exists>cfg. get_tcp_listener demo_net verifying_options = Inr (Some cfg) \<and> client_auth cfg = RequestClientCert"
proof -
  obtain l where l: "get_tcp_listener demo_net verifying_options = Inr l"
    by (simp add: get_tcp_listener_def demo_net_def verifying_options_def tls_client_cas_def Let_def)
  have "op_tls verifying_options" by (simp add: verifying_options_def)
  from tls_clients_not_verified [OF l this] l show ?thesis
    by (auto simp: demo_net_def verifying_options_def)
qed


definition demo_nats_options :: nats_option_library where
  "demo_nats_options = \<lparr>nats_name = \<lambda>_. Inr, nats_user_credentials = \<lambda>_. Inr, nats_client_cert = \<lambda>_ _. Inr, nats_root_cas = \<lambda>_. Inr\<rparr>"




text \<open>A restart whose shutdown does not end in time, or whose state cannot be loaded, returns the error
  to a caller that gave a wait group, and panics for one that gave none.\<close>

theorem failed_restart:
  assumes "\<not> finished \<or> storage_path (env_opts env) \<noteq> [] \<and> load_server js file sv = Inl e"
  shows "(\<exists>err. restart_bridge env js finished file listener True sv = Inr (Some err, sv))
    \<and> (\<exists>s. restart_bridge env js finished file listener False sv = Inl (Panic s))"
  using assms by (auto simp: restart_bridge_def)

theorem failed_restart_witness:
  "\<exists>s. restart_bridge log_env text_json False (Inr None) None False (new_server ''u'' []) = Inl (Panic s)"
  using failed_restart [of False log_env text_json "Inr None" "new_server ''u'' []" EOF None] by simp

end
