(* ===== verification/Spec2Isabelle.thy ===== *)
theory Spec2Isabelle
  imports Packet Packet_Text Topic Retained Session Reply_Topic Server Id_Manager Client Client_Contract Client_Log
    Bridge Persist Restart Launch
begin

text \<open>
  A verification library for the MQTT-NATS bridge: a server that speaks MQTT 3.1.1 (quality of
  service 0 and 1) to its clients and forwards their publications and subscriptions to NATS.

  \<^bold>\<open>The program.\<close>  A connection (\<open>bridge/client.go\<close>) has a read loop, which parses packets and acts on
  them, and a write loop, which sends what the other parts put into its queue.  A client has a
  session (\<open>bridge/session.go\<close>), which may outlive the connection and remembers what waits for an
  acknowledgement, a connection to NATS and the table of its subscriptions (\<open>bridge/nats.go\<close>).  The
  server (\<open>bridge/server.go\<close>) owns what all clients share: the packet identifiers
  (\<open>mqtt/pkg/idmanager.go\<close>), the retained messages (\<open>bridge/retained.go\<close>), the session manager, the
  list of clients, and the wills that are republished by a timer until NATS acknowledges them.
  When it shuts down, the server writes its state as JSON to a file, and reads it when it starts.
  The packets (\<open>mqtt/pkg\<close>) rest on a reader and a writer of the wire format (\<open>mqtt\<close>).

  \<^bold>\<open>Theories and sources.\<close>
  \<^item> Bridge_Prelude: integers as words, Go strings as lists of bytes, errors, panics and
    non-termination as values of \<open>go_error\<close>, lemmas on words, lists and maps.  Decimal, Utf8 and
    Base64: what is used of \<open>strconv\<close>, \<open>unicode/utf8\<close> and \<open>encoding/base64\<close>, with round trips.
  \<^item> Wire: \<open>mqtt/reader.go\<close>, \<open>mqtt/writer.go\<close>, and the locales \<open>codec\<close>, \<open>canonical_codec\<close> and
    \<open>item_loop\<close> of formats that are read back and leave the rest of the input.  Reader_Safety:
    no parser panics or puts bytes back, on any input.
  \<^item> Packet_Frame, Packet_Publish, Packet_Connect, Packet_Subscribe, Packet: data, parser and
    writer of every packet, each an instance of the locale \<open>framed_packet\<close>.  Packet_Text:
    constructors, \<open>Equals\<close> and \<open>String\<close>.
  \<^item> Topic: \<open>mqtt/topic.go\<close>, the translation of topics and the regular expressions of filters,
    with the matching of package \<open>regexp\<close> for the patterns that are built.
  \<^item> Id_Manager: \<open>mqtt/pkg/idmanager.go\<close>, as functions (locale \<open>id_pool\<close>) and as a transition
    system of concurrent callers.
  \<^item> Retained (locale \<open>packet_store\<close>), Session (locales \<open>pending_acks\<close>, \<open>session_manager\<close>),
    Reply_Topic: \<open>bridge/retained.go\<close>, \<open>bridge/session.go\<close>, \<open>bridge/replytopic.go\<close>.
  \<^item> Nats: the interface of the NATS library.  Server: \<open>bridge/server.go\<close>, \<open>bridge/natspub.go\<close>,
    \<open>bridge/options.go\<close> without the JSON form.
  \<^item> Client: \<open>bridge/client.go\<close> and \<open>bridge/nats.go\<close>; Client_Safety: what every operation keeps of the
    invariants; Client_Contract: what the operations do; Client_Log: text and log lines.
  \<^item> Bridge: all connections, the callbacks of NATS, the timer and the shutdown as one inductive
    step relation, with its reachable states.
  \<^item> Json: tokens and documents, the interface of the JSON library and the loops over it, the
    locale \<open>persistent\<close> of types that are written and read back.  Json_Text: an executable
    instance.  Persist_Packets, Persist_Sessions, Persist: the \<open>MarshalToJSON\<close> and
    \<open>UnmarshalFromJSON\<close> methods, the storage file, start, shutdown and the requests for retained
    messages.  Restart: what survives.
  \<^item> Logger: \<open>logger/logger.go\<close>.  Launch: \<open>cli/mqtt-nats.go\<close>, the TLS listener, the accept loop and
    \<open>Restart\<close>.
  \<^item> This theory: the bridge together with its storage file.

  \<^bold>\<open>How the model corresponds to the code.\<close>  A struct is a record with a field for each of its
  fields that carries state; a pointer that may be nil is an option, and a nil dereference a branch
  \<open>Inl (Panic ...)\<close>; so are the error results.  Sessions are shared between connections, so the
  session manager is a heap with references.  A method with a receiver takes the receiver and
  returns it changed.  Locks are not modelled: what runs under a lock is one step.  A channel is a
  list; a send to a full channel waits, which only matters where the receiver itself sends
  (\<open>write_batch\<close>).  A handler of the read loop is one step of the bridge, as are one turn of a write
  loop, one callback, one tick, one end of a connection and one disconnection by the shutdown.

  \<^bold>\<open>Parameters.\<close>  The NATS library is a record of functions over an abstract world that every
  operation threads; nothing is assumed of it.  The JSON packages are a record of functions over an
  abstract decoder, with the laws \<open>json_library\<close>: bytes and plain text are appended as they are, the
  tokens of a rendered document are those of the document, and each read operation takes the tokens
  that its documentation says; \<open>text_json_library\<close> shows that they can hold.  The order in which a
  range over a map runs is a function that enumerates a set.  The listener, the certificates and the
  options of NATS are parameters of Launch.

  \<^bold>\<open>What the lemmas show.\<close>  Formats: every packet, integer, topic, reply topic and JSON form is read
  back as it was written; what the parsers accept is well-formed, and no input makes them panic.
  Stores: refinement of the retained messages to the last message of each topic, identity of
  sessions, freshness and number of packet identifiers.  Protocol: CONNECT comes first and once, the
  will is published when it should, SUBSCRIBE is answered code by code, acknowledgements travel once
  in each direction, packets are written in order.  System: the invariant of all states that the
  bridge reaches, its two ways to crash, the end of the write loops, and that its state survives a
  restart.  A number of theorems state behaviour that the code hardly intends; they say so.

  \<^bold>\<open>Bounds and fuel.\<close>  Lengths on the wire are at most \<open>0x0FFFFFFF\<close> for bodies and 65535 for strings, as
  the well-formedness predicates say.  Session identifiers are unique for fewer than \<open>2 ^ 32\<close>
  creations; the read steps of the bridge assume that this is not exhausted.  Of 65535 packet
  identifiers none may be left: the search is a partial function and that it does not return is the
  error \<open>Diverges\<close>.  The write loop has fuel, one unit for each turn; the length of its queue is
  enough, as every turn takes a packet.  The read loop ends with its input.  The loops over a decoder
  are partial functions, since a decoder need not end; on a rendered document they return.

  \<^bold>\<open>Not modelled.\<close>  Deadlines, the duration of the timer and time itself (a deadline that passes is an
  error of the connection); operating system signals (a flag of the accept loop); the flag parser of
  the standard library and \<open>main.go\<close>; interleavings inside a step other than those of the packet
  identifiers; the log lines other than those at the end of a connection; accessors that return a
  field; the example programs, the mock connection and the test utilities, which are not part of the
  bridge.
\<close>

section \<open>Properties that span components\<close>

lemma reachable_server_ok:
  assumes "bridge_reach env (new_bridge uid w) (Inr b)"
  shows "sv_ok (br_server b)"
  using bridge_reach_ok [OF assms new_bridge_ok] by (simp add: bridge_ok_def)

text \<open>
  The callback for retained messages is not among the steps of the bridge: it needs the JSON
  library.  It changes nothing but the state of the NATS library.
\<close>

lemma retained_request_keeps_bridge:
  assumes "bridge_ok b"
  shows "\<exists>sv'. handle_retained_request env js m (br_server b) = Inr sv' \<and> bridge_ok (b\<lparr>br_server := sv'\<rparr>)"
proof -
  have ok: "sv_ok (br_server b)" using assms by (simp add: bridge_ok_def)
  then obtain pps qs where "messages_matching_retain_request (msg_data m) (sv_retained (br_server b)) = Inr (map Some pps, qs)"
    using request_matches [of "sv_retained (br_server b)" "msg_data m"] by (auto simp: sv_ok_def)
  then obtain w where h: "handle_retained_request env js m (br_server b) = Inr ((br_server b)\<lparr>sv_world := w\<rparr>)"
    by (auto simp: handle_retained_request_def Let_def)
  have "sv_ok ((br_server b)\<lparr>sv_world := w\<rparr>)" using ok by (simp add: sv_ok_def acks_ok_def)
  moreover have "conn_ok (br_next b) ((br_server b)\<lparr>sv_world := w\<rparr>) i cn" if "br_conns b i = Some cn" for i cn
    by (rule conn_ok_mono [OF bridge_ok_conn [OF assms that]]) simp_all
  ultimately have "bridge_ok (b\<lparr>br_server := (br_server b)\<lparr>sv_world := w\<rparr>\<rparr>)"
    using assms by (simp add: bridge_ok_def managed_ok_def)
  with h show ?thesis by blast
qed



end
